(* ===== verification/Prelude.thy ===== *)
theory Prelude
  imports Complex_Main "HOL-Library.AList"
begin

text \<open>
  Shared vocabulary of the development.

  \<^item> Results: a function of the source that may throw returns \<open>'e + 'a\<close>, with \<open>Inl\<close> for the
    exception, and exceptions are sequenced with \<open>bind_res\<close>.
  \<^item> Strings: a JavaScript string is represented by its UTF-8 bytes, as a \<open>string\<close>. Equality,
    prefix and suffix tests, splitting at an ASCII character and membership of ASCII characters
    are the same on both representations. Case conversion is the ASCII one.
  \<^item> A \<open>Map\<close> of the source is an association list in insertion order: \<open>Map.get\<close> is \<open>map_of\<close>,
    \<open>Map.set\<close> is \<open>AList.update\<close> (an existing key keeps its place), \<open>Map.delete\<close> is
    \<open>AList.delete\<close>.
  \<^item> Loops over a state: the generic locale \<open>preserved\<close> lifts the preservation of an invariant
    by one operation to every sequence of operations.
\<close>

named_theorems str_simps \<open>evaluation of the string helpers\<close>
named_theorems res_simps \<open>evaluation of results\<close>


subsection \<open>Results\<close>

type_synonym ('e, 'a) result = "'e + 'a"

fun bind_res :: "'e + 'a \<Rightarrow> ('a \<Rightarrow> 'e + 'b) \<Rightarrow> 'e + 'b" where
  "bind_res (Inl e) f = Inl e"
| "bind_res (Inr a) f = f a"

lemma bind_res_Inr [res_simps]:
  "bind_res r f = Inr b \<longleftrightarrow> (\<exists>a. r = Inr a \<and> f a = Inr b)"
  by (cases r) auto

lemma bind_res_Inl [res_simps]:
  "bind_res r f = Inl e \<longleftrightarrow> r = Inl e \<or> (\<exists>a. r = Inr a \<and> f a = Inl e)"
  by (cases r) auto

text \<open>\<open>xs.map(f)\<close> where \<open>f\<close> may throw: the first exception ends the traversal.\<close>

fun map_res :: "('a \<Rightarrow> 'e + 'b) \<Rightarrow> 'a list \<Rightarrow> 'e + 'b list" where
  "map_res f [] = Inr []"
| "map_res f (x # xs) = bind_res (f x) (\<lambda>y. bind_res (map_res f xs) (\<lambda>ys. Inr (y # ys)))"

lemma map_res_Inr_iff: "map_res f xs = Inr ys \<longleftrightarrow> list_all2 (\<lambda>x y. f x = Inr y) xs ys"
proof (induction xs arbitrary: ys)
  case Nil
  show ?case by (cases ys) auto
next
  case (Cons x xs)
  then show ?case by (cases ys) (auto simp: res_simps)
qed


subsection \<open>Strings\<close>

definition starts_with :: "string \<Rightarrow> string \<Rightarrow> bool" where
  "starts_with p s \<longleftrightarrow> take (length p) s = p"

definition ends_with :: "string \<Rightarrow> string \<Rightarrow> bool" where
  "ends_with p s \<longleftrightarrow> length p \<le> length s \<and> drop (length s - length p) s = p"

lemma starts_with_iff: "starts_with p s \<longleftrightarrow> (\<exists>r. s = p @ r)"
  by (auto simp: starts_with_def) (metis append_take_drop_id)

lemma ends_with_iff: "ends_with p s \<longleftrightarrow> (\<exists>r. s = r @ p)"
  by (auto simp: ends_with_def) (metis append_take_drop_id)

lemma starts_with_Nil [simp]: "starts_with [] s"
  by (simp add: starts_with_def)

lemma starts_with_Cons [simp]:
  "starts_with (c # p) (d # s) \<longleftrightarrow> c = d \<and> starts_with p s" "\<not> starts_with (c # p) []"
  by (auto simp: starts_with_iff)

text \<open>\<open>s.split(c)\<close> at a single character: always at least one part.\<close>

fun split_char :: "char \<Rightarrow> string \<Rightarrow> string list" where
  "split_char c [] = [[]]"
| "split_char c (x # xs) =
     (if x = c then [] # split_char c xs
      else (case split_char c xs of [] \<Rightarrow> [[x]] | p # ps \<Rightarrow> (x # p) # ps))"

fun join_str :: "string \<Rightarrow> string list \<Rightarrow> string" where
  "join_str sep [] = []"
| "join_str sep [p] = p"
| "join_str sep (p # q # ps) = p @ sep @ join_str sep (q # ps)"

lemma split_char_nonempty [simp]: "split_char c s \<noteq> []"
  by (induction s) (auto split: list.splits)

lemma split_char_no_sep: "p \<in> set (split_char c s) \<Longrightarrow> c \<notin> set p"
  by (induction s arbitrary: p) (auto split: list.splits if_splits)

lemma split_char_id: "c \<notin> set s \<Longrightarrow> split_char c s = [s]"
  by (induction s) auto

lemma split_char_append:
  "c \<notin> set p \<Longrightarrow> split_char c (p @ c # s) = p # split_char c s"
  by (induction p) auto

lemma join_str_Cons: "ps \<noteq> [] \<Longrightarrow> join_str sep (p # ps) = p @ sep @ join_str sep ps"
  by (cases ps) auto

lemma join_str_hd: "join_str sep ((x # p) # ps) = x # join_str sep (p # ps)"
  by (cases ps) auto

lemma join_split: "join_str [c] (split_char c s) = s"
  by (induction s) (auto simp: join_str_Cons join_str_hd split: list.splits)

lemma split_join:
  assumes "ps \<noteq> []" and "\<forall>p \<in> set ps. c \<notin> set p"
  shows "split_char c (join_str [c] ps) = ps"
  using assms
proof (induction "[c]" ps rule: join_str.induct)
  case (3 p q ps)
  then show ?case by (simp add: split_char_append)
qed (simp_all add: split_char_id)

text \<open>\<open>s.includes(p)\<close> for a string \<open>p\<close>.\<close>

fun str_includes :: "string \<Rightarrow> string \<Rightarrow> bool" where
  "str_includes p [] = (p = [])"
| "str_includes p (x # xs) = (starts_with p (x # xs) \<or> str_includes p xs)"

definition is_digit :: "char \<Rightarrow> bool" where
  "is_digit c \<longleftrightarrow> 48 \<le> (of_char c :: nat) \<and> (of_char c :: nat) \<le> 57"

definition is_lower_hex :: "char \<Rightarrow> bool" where
  "is_lower_hex c \<longleftrightarrow> is_digit c \<or> 97 \<le> (of_char c :: nat) \<and> (of_char c :: nat) \<le> 102"

definition is_upper :: "char \<Rightarrow> bool" where
  "is_upper c \<longleftrightarrow> 65 \<le> (of_char c :: nat) \<and> (of_char c :: nat) \<le> 90"

definition is_lower :: "char \<Rightarrow> bool" where
  "is_lower c \<longleftrightarrow> 97 \<le> (of_char c :: nat) \<and> (of_char c :: nat) \<le> 122"

definition is_control :: "char \<Rightarrow> bool" where
  "is_control c \<longleftrightarrow> (of_char c :: nat) < 32 \<or> (of_char c :: nat) = 127"

definition lower_char :: "char \<Rightarrow> char" where
  "lower_char c = (if is_upper c then char_of ((of_char c :: nat) + 32) else c)"

definition to_lower :: "string \<Rightarrow> string" where
  "to_lower s = map lower_char s"

definition is_hex :: "char \<Rightarrow> bool" where
  "is_hex c \<longleftrightarrow> is_lower_hex (lower_char c)"

lemmas char_class_defs = is_digit_def is_lower_hex_def is_upper_def is_lower_def is_control_def
  is_hex_def lower_char_def

lemma lower_char_idem [simp]: "lower_char (lower_char c) = lower_char c"
  by (auto simp: lower_char_def is_upper_def)

lemma to_lower_idem [simp]: "to_lower (to_lower s) = to_lower s"
  by (simp add: to_lower_def)

lemma length_to_lower [simp]: "length (to_lower s) = length s"
  by (simp add: to_lower_def)

lemma str_includes_iff: "str_includes p s \<longleftrightarrow> (\<exists>a b. s = a @ p @ b)"
proof (induction s)
  case (Cons x xs)
  have "starts_with p (x # xs) \<longleftrightarrow> (\<exists>b. x # xs = [] @ p @ b)" by (simp add: starts_with_iff)
  moreover have "(\<exists>a b. xs = a @ p @ b) \<longleftrightarrow> (\<exists>a b. x # xs = (x # a) @ p @ b)" by simp
  ultimately show ?case unfolding str_includes.simps Cons by (metis append_eq_Cons_conv)
qed simp

lemma not_includes_suffix: "\<not> str_includes p (a @ s) \<Longrightarrow> \<not> str_includes p s"
  unfolding str_includes_iff by (metis append.assoc)

lemma to_lower_append: "to_lower (a @ b) = to_lower a @ to_lower b"
  by (simp add: to_lower_def)

lemma char_of_eq: "b < 256 \<Longrightarrow> char_of b = c \<longleftrightarrow> b = (of_char c :: nat)"
  by auto

lemma split_char_infix: "p \<in> set (split_char c s) \<Longrightarrow> \<exists>a b. s = a @ p @ b"
proof (induction s arbitrary: p)
  case (Cons x s)
  obtain q qs where q: "split_char c s = q # qs" by (cases "split_char c s") auto
  have tails: "\<exists>a b. x # s = a @ p' @ b" if "p' \<in> set (q # qs)" for p'
    using Cons.IH [of p'] that q by (metis append_Cons)
  have pre: "\<exists>b. s = q @ b"
    using join_split [of c s] q by (metis append.right_neutral join_str.simps(2) join_str_Cons)
  show ?case
  proof (cases "x = c")
    case True
    then show ?thesis using Cons.prems q tails by (metis append_Nil set_ConsD split_char.simps(2))
  next
    case False
    then have "p = x # q \<or> p \<in> set qs" using Cons.prems q by auto
    then show ?thesis
    proof
      assume "p = x # q"
      with pre show ?thesis by (metis append_Cons append_Nil)
    qed (use tails in auto)
  qed
qed simp


subsection \<open>Decimal numbers\<close>

definition digit_char :: "nat \<Rightarrow> char" where
  "digit_char n = char_of (48 + n)"

fun show_nat :: "nat \<Rightarrow> string" where
  "show_nat n = (if n < 10 then [digit_char n] else show_nat (n div 10) @ [digit_char (n mod 10)])"

declare show_nat.simps [simp del]

definition digit_val :: "char \<Rightarrow> nat" where
  "digit_val c = of_char c - 48"

definition digits_val :: "string \<Rightarrow> nat" where
  "digits_val s = foldl (\<lambda>a c. 10 * a + digit_val c) 0 s"

lemma is_digit_digit_char: "n < 10 \<Longrightarrow> is_digit (digit_char n)"
  by (simp add: is_digit_def digit_char_def)

lemma digit_val_digit_char: "n < 10 \<Longrightarrow> digit_val (digit_char n) = n"
  by (simp add: digit_val_def digit_char_def)

lemma digit_char_eval [str_simps]:
  "digit_char 0 = CHR ''0''" "digit_char (Suc 0) = CHR ''1''" "digit_char 2 = CHR ''2''"
  "digit_char 3 = CHR ''3''" "digit_char 4 = CHR ''4''" "digit_char 5 = CHR ''5''"
  "digit_char 6 = CHR ''6''" "digit_char 7 = CHR ''7''" "digit_char 8 = CHR ''8''"
  "digit_char 9 = CHR ''9''"
  by (simp_all add: digit_char_def char_of_def bit_0)

lemma digits_val_snoc: "digits_val (s @ [c]) = 10 * digits_val s + digit_val c"
  by (simp add: digits_val_def)

lemma show_nat_digits: "\<forall>c \<in> set (show_nat n). is_digit c"
proof (induction n rule: show_nat.induct)
  case (1 n)
  then show ?case
    by (cases "n < 10") (auto simp: show_nat.simps [of n] is_digit_digit_char)
qed

lemma show_nat_nonempty [simp]: "show_nat n \<noteq> []"
  by (subst show_nat.simps) simp

lemma digits_val_show_nat [simp]: "digits_val (show_nat n) = n"
proof (induction n rule: show_nat.induct)
  case (1 n)
  show ?case
  proof (cases "n < 10")
    case True
    then show ?thesis
      by (simp add: show_nat.simps [of n] digits_val_def digit_val_digit_char)
  next
    case False
    with 1 have "digits_val (show_nat (n div 10)) = n div 10" by simp
    with False show ?thesis
      by (simp add: show_nat.simps [of n] digits_val_snoc digit_val_digit_char)
  qed
qed

lemma length_show_nat: "n < 10 ^ Suc k \<Longrightarrow> length (show_nat n) \<le> Suc k"
proof (induction k arbitrary: n)
  case 0
  then show ?case by (subst show_nat.simps) simp
next
  case (Suc k)
  then have "n div 10 < 10 ^ Suc k" by simp
  then have "length (show_nat (n div 10)) \<le> Suc k" by (rule Suc.IH)
  then show ?case by (subst show_nat.simps) simp
qed


subsection \<open>Insertion-ordered maps\<close>

abbreviation keys :: "('k \<times> 'v) list \<Rightarrow> 'k list" where
  "keys m \<equiv> map fst m"

lemma map_of_AList_delete [simp]:
  "map_of (AList.delete k m) k' = (if k' = k then None else map_of m k')"
  by (simp add: AList.delete_conv')

lemma map_of_AList_update [simp]:
  "map_of (AList.update k v m) k' = (if k' = k then Some v else map_of m k')"
  by (simp add: AList.update_conv')

lemma map_of_filter_key: "map_of (filter (\<lambda>e. Q (fst e)) m) k = (if Q k then map_of m k else None)"
  by (induction m) auto

lemma keys_AList_delete: "keys (AList.delete k m) = filter (\<lambda>x. x \<noteq> k) (keys m)"
  by (induction m) auto

lemma AList_update_new: "k \<notin> set (keys m) \<Longrightarrow> AList.update k v m = m @ [(k, v)]"
  by (induction m) auto


subsection \<open>Sets in insertion order\<close>

text \<open>\<open>[...new Set(xs)]\<close>: the first occurrence of each element.\<close>

fun unique_first :: "'a list \<Rightarrow> 'a list" where
  "unique_first [] = []"
| "unique_first (x # xs) = x # unique_first (filter (\<lambda>y. y \<noteq> x) xs)"

lemma unique_first_set [simp]: "set (unique_first xs) = set xs"
  by (induction xs rule: unique_first.induct) auto

lemma unique_first_distinct [simp]: "distinct (unique_first xs)"
  by (induction xs rule: unique_first.induct) auto

lemma unique_first_id [simp]: "distinct xs \<Longrightarrow> unique_first xs = xs"
proof (induction xs)
  case (Cons x xs)
  then have "filter (\<lambda>y. y \<noteq> x) xs = xs" by (auto simp: filter_id_conv)
  with Cons show ?case by simp
qed simp

lemma length_unique_first: "length (unique_first xs) = card (set xs)"
  using distinct_card [OF unique_first_distinct, of xs] by simp


subsection \<open>Sequences of operations\<close>

text \<open>
  An operation interface: a transition function and an invariant that every operation keeps.
  The invariant then holds after every sequence of operations.
\<close>

locale preserved =
  fixes step :: "'s \<Rightarrow> 'op \<Rightarrow> 's"
    and inv :: "'s \<Rightarrow> bool"
  assumes step_inv: "inv s \<Longrightarrow> inv (step s x)"
begin

lemma run_inv: "inv s \<Longrightarrow> inv (foldl step s xs)"
  by (induction xs arbitrary: s) (auto intro: step_inv)

end

end
