(* ===== verification/Js_Value.thy ===== *)
theory Js_Value
  imports Prelude
begin

text \<open>
  The JavaScript values a JSON text denotes, and the standard functions the sources apply to them
  and to request paths.

  \<^item> \<open>json\<close>: what \<open>JSON.parse\<close> returns. A finite number is the rational it denotes, so \<open>===\<close> on
    numbers is equality; an object is the list of its own properties in enumeration order
    (\<open>Object.entries\<close>); reading an absent property is \<open>None\<close> (\<open>undefined\<close>).
  \<^item> \<open>decodeURIComponent\<close>, \<open>encodeURIComponent\<close> and \<open>URLSearchParams\<close> on UTF-8 bytes.
  \<^item> \<open>JSON.stringify\<close> of a string, which the sources put in messages.
\<close>

datatype json =
    JNull
  | JBool bool
  | JNum rat
  | JStr string
  | JArr "json list"
  | JObj "(string \<times> json) list"

type_synonym js_object = "(string \<times> json) list"

fun is_string :: "json \<Rightarrow> bool" where
  "is_string (JStr _) = True"
| "is_string _ = False"

fun is_boolean :: "json \<Rightarrow> bool" where
  "is_boolean (JBool _) = True"
| "is_boolean _ = False"

fun is_array :: "json \<Rightarrow> bool" where
  "is_array (JArr _) = True"
| "is_array _ = False"

text \<open>\<open>isRecord\<close>: an object that is neither \<open>null\<close> nor an array.\<close>

fun is_record :: "json \<Rightarrow> bool" where
  "is_record (JObj _) = True"
| "is_record _ = False"

text \<open>\<open>Number.isSafeInteger\<close>.\<close>

definition max_safe_integer :: int where
  "max_safe_integer = 9007199254740991"

definition safe_int :: "rat \<Rightarrow> int option" where
  "safe_int q = (let (n, d) = quotient_of q
     in if d = 1 \<and> \<bar>n\<bar> \<le> max_safe_integer then Some n else None)"

text \<open>\<open>===\<close> on two parsed values: objects and arrays of different documents are never identical.\<close>

fun strict_eq :: "json \<Rightarrow> json \<Rightarrow> bool" where
  "strict_eq (JObj _) _ = False"
| "strict_eq (JArr _) _ = False"
| "strict_eq a b = (a = b)"

text \<open>\<open>obj[key]\<close> and \<open>Object.hasOwn(obj, key)\<close>.\<close>

abbreviation js_get :: "js_object \<Rightarrow> string \<Rightarrow> json option" where
  "js_get obj key \<equiv> map_of obj key"

abbreviation has_own :: "('k \<times> 'v) list \<Rightarrow> 'k \<Rightarrow> bool" where
  "has_own obj key \<equiv> map_of obj key \<noteq> None"

text \<open>
  A parsed document: every object in it has distinct property names (\<open>JSON.parse\<close> keeps the last
  of several equal ones).
\<close>

fun wf_json :: "json \<Rightarrow> bool" where
  "wf_json (JArr xs) = list_all wf_json xs"
| "wf_json (JObj ps) = (distinct (keys ps) \<and> list_all (\<lambda>p. wf_json (snd p)) ps)"
| "wf_json _ = True"

lemma wf_json_prop: "\<lbrakk>wf_json (JObj ps); map_of ps k = Some v\<rbrakk> \<Longrightarrow> wf_json v"
  by (fastforce simp: list_all_iff dest: map_of_SomeD)

text \<open>\<open>value.key\<close>: a property of \<open>null\<close> throws; of another value that is no object it is undefined.\<close>

definition js_prop :: "json option \<Rightarrow> string \<Rightarrow> string + json option" where
  "js_prop v k = (case v of
     None \<Rightarrow> Inl ''Cannot read properties of undefined''
   | Some JNull \<Rightarrow> Inl ''Cannot read properties of null''
   | Some (JObj ps) \<Rightarrow> Inr (js_get ps k)
   | Some _ \<Rightarrow> Inr None)"

text \<open>\<open>value?.key\<close>.\<close>

definition js_opt_prop :: "json option \<Rightarrow> string \<Rightarrow> json option" where
  "js_opt_prop v k = (case v of Some (JObj ps) \<Rightarrow> js_get ps k | _ \<Rightarrow> None)"


subsection \<open>\<open>JSON.stringify\<close> of a string\<close>

definition hex_char :: "nat \<Rightarrow> char" where
  "hex_char n = (if n < 10 then char_of (48 + n) else char_of (87 + n))"

definition json_escape :: "char \<Rightarrow> string" where
  "json_escape c =
     (if c = CHR 0x22 then [CHR 0x5C, CHR 0x22]
      else if c = CHR 0x5C then [CHR 0x5C, CHR 0x5C]
      else if c = CHR 0x08 then [CHR 0x5C, CHR ''b'']
      else if c = CHR 0x09 then [CHR 0x5C, CHR ''t'']
      else if c = CHR 0x0A then [CHR 0x5C, CHR ''n'']
      else if c = CHR 0x0C then [CHR 0x5C, CHR ''f'']
      else if c = CHR 0x0D then [CHR 0x5C, CHR ''r'']
      else if (of_char c :: nat) < 32
        then [CHR 0x5C, CHR ''u'', CHR ''0'', CHR ''0'', hex_char (of_char c div 16),
              hex_char (of_char c mod 16)]
      else [c])"

definition json_string :: "string \<Rightarrow> string" where
  "json_string s = [CHR 0x22] @ concat (map json_escape s) @ [CHR 0x22]"


subsection \<open>URI components\<close>

definition hex_val :: "char \<Rightarrow> nat option" where
  "hex_val c =
     (if is_digit c then Some (of_char c - 48)
      else if is_lower_hex (lower_char c) then Some (of_char (lower_char c) - 87)
      else None)"

text \<open>The byte of a percent-encoded triple at the front of the text, and the rest.\<close>

fun take_percent :: "string \<Rightarrow> (nat \<times> string) option" where
  "take_percent (p # a # b # rest) =
     (if p = CHR ''%'' then
        (case (hex_val a, hex_val b) of (Some h, Some l) \<Rightarrow> Some (16 * h + l, rest) | _ \<Rightarrow> None)
      else None)"
| "take_percent _ = None"

lemma take_percent_length: "take_percent s = Some (b, r) \<Longrightarrow> length s = length r + 3"
  by (cases s rule: take_percent.cases) (auto split: if_splits option.splits)

text \<open>\<open>n\<close> encoded continuation bytes.\<close>

fun take_continuation :: "nat \<Rightarrow> string \<Rightarrow> (nat list \<times> string) option" where
  "take_continuation 0 s = Some ([], s)"
| "take_continuation (Suc n) s =
     (case take_percent s of
        Some (b, r) \<Rightarrow>
          if 128 \<le> b \<and> b < 192
          then (case take_continuation n r of Some (bs, r') \<Rightarrow> Some (b # bs, r') | None \<Rightarrow> None)
          else None
      | None \<Rightarrow> None)"

lemma take_continuation_length: "take_continuation n s = Some (bs, r) \<Longrightarrow> length r \<le> length s"
  by (induction n arbitrary: s bs r)
     (fastforce split: option.splits prod.splits if_splits dest: take_percent_length)+

text \<open>
  The number of continuation bytes that follow a lead byte, and the validity of the second byte
  (no overlong forms, no surrogates, nothing above U+10FFFF).
\<close>

definition utf8_extra :: "nat \<Rightarrow> nat option" where
  "utf8_extra b = (if 194 \<le> b \<and> b < 224 then Some 1 else if 224 \<le> b \<and> b < 240 then Some 2
     else if 240 \<le> b \<and> b < 245 then Some 3 else None)"

definition utf8_second_ok :: "nat \<Rightarrow> nat list \<Rightarrow> bool" where
  "utf8_second_ok b bs = (case bs of [] \<Rightarrow> True | c # _ \<Rightarrow>
     (b = 224 \<longrightarrow> 160 \<le> c) \<and> (b = 237 \<longrightarrow> c < 160) \<and> (b = 240 \<longrightarrow> 144 \<le> c) \<and> (b = 244 \<longrightarrow> c < 144))"

text \<open>\<open>decodeURIComponent\<close>; \<open>None\<close> is the \<open>URIError\<close> it throws.\<close>

function decode_uri_component :: "string \<Rightarrow> string option" where
  "decode_uri_component s =
     (case s of
        [] \<Rightarrow> Some []
      | c # rest \<Rightarrow>
          if c \<noteq> CHR ''%'' then map_option (Cons c) (decode_uri_component rest)
          else case take_percent s of
            None \<Rightarrow> None
          | Some (b, r) \<Rightarrow>
              if b < 128 then map_option (Cons (char_of b)) (decode_uri_component r)
              else case utf8_extra b of
                None \<Rightarrow> None
              | Some n \<Rightarrow> (case take_continuation n r of
                  None \<Rightarrow> None
                | Some (bs, r') \<Rightarrow>
                    if utf8_second_ok b bs
                    then map_option (\<lambda>t. map char_of (b # bs) @ t) (decode_uri_component r')
                    else None))"
  by pat_completeness auto
termination
  by (relation "measure length")
     (auto dest!: take_percent_length take_continuation_length)

declare decode_uri_component.simps [simp del]

lemma decode_uri_component_plain:
  "CHR ''%'' \<notin> set s \<Longrightarrow> decode_uri_component s = Some s"
  by (induction s) (auto simp: decode_uri_component.simps)

lemma hex_val_bound: "hex_val c = Some h \<Longrightarrow> h < 16 \<and> lower_char c = hex_char h"
proof -
  assume h: "hex_val c = Some h"
  show ?thesis
  proof (cases "is_digit c")
    case True
    then have "h = of_char c - 48" "48 \<le> (of_char c :: nat)" "(of_char c :: nat) \<le> 57"
      using h by (auto simp: hex_val_def is_digit_def)
    then have "h < 10" "48 + h = of_char c" "lower_char c = c"
      by (auto simp: lower_char_def is_upper_def)
    then show ?thesis by (simp add: hex_char_def)
  next
    case False
    then have l: "is_lower_hex (lower_char c)" "h = of_char (lower_char c) - 87"
      using h by (auto simp: hex_val_def split: if_split_asm)
    have nd: "\<not> is_digit (lower_char c)" using False by (auto simp: is_digit_def lower_char_def is_upper_def)
    then have "97 \<le> (of_char (lower_char c) :: nat)" "(of_char (lower_char c) :: nat) \<le> 102"
      using l(1) by (auto simp: is_lower_hex_def)
    with l(2) have "10 \<le> h" "h < 16" "87 + h = of_char (lower_char c)" by auto
    then show ?thesis by (simp add: hex_char_def)
  qed
qed

lemma take_percent_lower:
  assumes "take_percent s = Some (b, r)"
  obtains p where "s = p @ r" "to_lower p = [CHR ''%'', hex_char (b div 16), hex_char (b mod 16)]" "b < 256"
proof -
  obtain a c h l where s: "s = CHR ''%'' # a # c # r" "hex_val a = Some h" "hex_val c = Some l" "b = 16 * h + l"
    using assms by (cases s rule: take_percent.cases) (auto split: if_split_asm option.splits)
  have hl: "h < 16" "lower_char a = hex_char h" "l < 16" "lower_char c = hex_char l"
    using hex_val_bound s(2,3) by blast+
  have "lower_char (CHR ''%'') = CHR ''%''" by (simp add: lower_char_def is_upper_def)
  with hl s(4) have "to_lower [CHR ''%'', a, c] = [CHR ''%'', hex_char (b div 16), hex_char (b mod 16)]" "b < 256"
    by (simp_all add: to_lower_def)
  with s(1) that [of "[CHR ''%'', a, c]"] show thesis by simp
qed

lemma take_continuation_bytes:
  "take_continuation n s = Some (bs, r) \<Longrightarrow> (\<forall>y \<in> set bs. 128 \<le> y \<and> y < 256) \<and> (\<exists>q. s = q @ r)"
proof (induction n arbitrary: s bs)
  case (Suc n)
  then obtain b r' bs' where b: "take_percent s = Some (b, r')" "128 \<le> b" "b < 192"
      "take_continuation n r' = Some (bs', r)" "bs = b # bs'"
    by (auto split: option.splits prod.splits if_split_asm)
  obtain p where "s = p @ r'" using take_percent_lower [OF b(1)] by blast
  moreover obtain q where "r' = q @ r" using Suc.IH [OF b(4)] by blast
  ultimately have "s = (p @ q) @ r" by simp
  then show ?case using Suc.IH [OF b(4)] b by auto
qed simp

text \<open>
  The bytes of a decoded component: each is a byte of the text, or its percent triple is in the
  text, or it is not ASCII.
\<close>

lemma decode_byte:
  assumes "decode_uri_component s = Some d" "c \<in> set d" "(of_char c :: nat) < 128"
  shows "c \<in> set s \<or>
    str_includes [CHR ''%'', hex_char (of_char c div 16), hex_char (of_char c mod 16)] (to_lower s)"
  using assms(1,2)
proof (induction s arbitrary: d rule: decode_uri_component.induct)
  case (1 s)
  show ?case
  proof (cases s)
    case Nil
    then show ?thesis using 1 by (simp add: decode_uri_component.simps)
  next
    case (Cons x rest)
    let ?inc = "str_includes [CHR ''%'', hex_char (of_char c div 16), hex_char (of_char c mod 16)]"
    have up: "?inc (to_lower r) \<Longrightarrow> ?inc (to_lower (p @ r))" for p r
      using not_includes_suffix [of _ "to_lower p" "to_lower r"] by (auto simp: to_lower_append)
    show ?thesis
    proof (cases "x = CHR ''%''")
      case False
      with Cons 1(4) obtain d' where d: "decode_uri_component rest = Some d'" "d = x # d'"
        by (subst (asm) decode_uri_component.simps) auto
      show ?thesis using 1(5) d(2) 1(1) [OF Cons False d(1)] up [of rest "[x]"] Cons by auto
    next
      case True
      then obtain b r where b: "take_percent s = Some (b, r)"
        using 1(4) Cons by (subst (asm) decode_uri_component.simps) (auto split: option.splits)
      obtain p where p: "s = p @ r" "to_lower p = [CHR ''%'', hex_char (b div 16), hex_char (b mod 16)]" "b < 256"
        using take_percent_lower [OF b] by blast
      have here: "?inc (to_lower s)" if "b = of_char c"
        using p that unfolding str_includes_iff p(1) to_lower_append by (metis append.left_neutral)
      show ?thesis
      proof (cases "b < 128")
        case lt: True
        then obtain d' where d: "decode_uri_component r = Some d'" "d = char_of b # d'"
          using 1(4) Cons True b by (subst (asm) decode_uri_component.simps) auto
        show ?thesis using 1(5) d 1(2) [OF Cons _ b refl lt d(1)] True here p up char_of_eq [OF p(3)] by auto
      next
        case ge: False
        then obtain n bs r' d' where d: "utf8_extra b = Some n" "take_continuation n r = Some (bs, r')"
            "utf8_second_ok b bs" "decode_uri_component r' = Some d'" "d = map char_of (b # bs) @ d'"
          using 1(4) Cons True b
          by (subst (asm) decode_uri_component.simps) (auto split: option.splits if_split_asm)
        have bs: "\<forall>y \<in> set (b # bs). 128 \<le> y \<and> y < 256" "\<exists>q. r = q @ r'"
          using take_continuation_bytes [OF d(2)] ge p(3) by auto
        then obtain q where q: "r = q @ r'" by blast
        have "c \<notin> char_of ` set (b # bs)" using bs(1) assms(3) char_of_eq by fastforce
        then have "c \<in> set d'" using 1(5) d(5) by auto
        then show ?thesis using 1(3) [OF Cons _ b refl ge d(1,2) refl d(3,4)] True up [of r' "p @ q"] p(1) q by auto
      qed
    qed
  qed
qed


lemma decode_dots:
  assumes "decode_uri_component s = Some d" "set d \<subseteq> {CHR ''.''}" "\<not> str_includes ''%2e'' (to_lower s)"
  shows "s = d"
  using assms
proof (induction s arbitrary: d)
  case Nil
  then show ?case by (simp add: decode_uri_component.simps)
next
  case (Cons x rest)
  have suffix: "\<not> str_includes ''%2e'' (to_lower rest)"
    using Cons.prems(3) not_includes_suffix [of _ "to_lower [x]" "to_lower rest"]
    by (simp add: to_lower_def)
  show ?case
  proof (cases "x = CHR ''%''")
    case False
    with Cons.prems(1) obtain d' where "decode_uri_component rest = Some d'" "d = x # d'"
      by (subst (asm) decode_uri_component.simps) auto
    with Cons suffix show ?thesis by auto
  next
    case True
    then obtain b r where b: "take_percent (x # rest) = Some (b, r)"
      using Cons.prems(1) by (subst (asm) decode_uri_component.simps) (auto split: option.splits)
    obtain p where p: "x # rest = p @ r" "to_lower p = [CHR ''%'', hex_char (b div 16), hex_char (b mod 16)]" "b < 256"
      using take_percent_lower [OF b] by blast
    have "char_of b \<in> set d"
      using Cons.prems(1) True b
      by (subst (asm) decode_uri_component.simps) (auto split: option.splits if_split_asm)
    then have "char_of b = CHR ''.''" using Cons.prems(2) by blast
    then have "b = 46" using char_of_eq [OF p(3)] by simp
    then have "to_lower p = ''%2e''" using p(2) by (simp add: hex_char_def char_of_def bit_0)
    then have "str_includes ''%2e'' (to_lower (x # rest))"
      unfolding p(1) to_lower_append str_includes_iff by (metis append.left_neutral)
    with Cons.prems(3) show ?thesis by blast
  qed
qed

text \<open>\<open>encodeURIComponent\<close>: every byte outside the unreserved set is percent-encoded.\<close>

definition upper_hex_char :: "nat \<Rightarrow> char" where
  "upper_hex_char n = (if n < 10 then char_of (48 + n) else char_of (55 + n))"

definition uri_unreserved :: "char \<Rightarrow> bool" where
  "uri_unreserved c \<longleftrightarrow> is_digit c \<or> is_lower c \<or> is_upper c
     \<or> c \<in> {CHR ''-'', CHR ''_'', CHR ''.'', CHR ''!'', CHR ''~'', CHR ''*'', CHR 0x27,
            CHR ''('', CHR '')''}"

definition encode_uri_component :: "string \<Rightarrow> string" where
  "encode_uri_component s = concat (map (\<lambda>c.
     if uri_unreserved c then [c]
     else [CHR ''%'', upper_hex_char (of_char c div 16), upper_hex_char (of_char c mod 16)]) s)"


subsection \<open>Query strings\<close>

text \<open>
  \<open>new URLSearchParams(text)\<close>: \<open>&\<close>-separated pieces, empty ones skipped, split at the first
  \<open>=\<close>, \<open>+\<close> read as a space, percent triples decoded and other \<open>%\<close> kept. A byte sequence
  that is not UTF-8 stays as it is here where the source substitutes U+FFFD; neither is equal to
  an ASCII parameter name or value.
\<close>

function form_decode :: "string \<Rightarrow> string" where
  "form_decode s =
     (case s of
        [] \<Rightarrow> []
      | c # rest \<Rightarrow>
          if c = CHR ''+'' then CHR '' '' # form_decode rest
          else case take_percent s of
            Some (b, r) \<Rightarrow> char_of b # form_decode r
          | None \<Rightarrow> c # form_decode rest)"
  by pat_completeness auto
termination
  by (relation "measure length") (auto dest!: take_percent_length)

declare form_decode.simps [simp del]

definition search_params :: "string \<Rightarrow> (string \<times> string) list" where
  "search_params text = map (\<lambda>piece.
       (form_decode (takeWhile (\<lambda>c. c \<noteq> CHR ''='') piece),
        form_decode (tl (dropWhile (\<lambda>c. c \<noteq> CHR ''='') piece))))
     (filter (\<lambda>piece. piece \<noteq> []) (split_char (CHR ''&'') text))"

end
