(* ===== verification/Policy_Body.thy ===== *)
theory Policy_Body
  imports Js_Value
begin

text \<open>
  Names, body schemas and text checks the agent's policy is built from:
  the name patterns and the image server rule of \<open>packages/common/src/protocol/agent.ts\<close>, the
  forbidden mount roots of \<open>packages/common/src/protocol/rest-schema.ts\<close>, and
  \<open>packages/agent/src/policy-body.ts\<close>.

  A forwarded body is either the raw bytes of the request or the object it is serialized from
  (\<open>JsonBody obj\<close> stands for \<open>Buffer.from(JSON.stringify(obj))\<close>). \<open>JSON.parse\<close> and
  \<open>new URL\<close> are arguments; \<open>None\<close> is the exception they throw.
\<close>

subsection \<open>Name patterns\<close>

text \<open>\<open>/^<prefix>[0-9a-f]{n}$/\<close>.\<close>

definition hex_name :: "string \<Rightarrow> nat \<Rightarrow> string \<Rightarrow> bool" where
  "hex_name prefix n s \<longleftrightarrow> starts_with prefix s \<and> length s = length prefix + n
     \<and> list_all is_lower_hex (drop (length prefix) s)"

definition MANAGED_NIC_HOST_NAME_PATTERN :: "string \<Rightarrow> bool" where
  "MANAGED_NIC_HOST_NAME_PATTERN = hex_name ''nyh'' 12"

definition MANAGED_INSTANCE_NAME_PATTERN :: "string \<Rightarrow> bool" where
  "MANAGED_INSTANCE_NAME_PATTERN = hex_name ''nyc-'' 32"

definition MANAGED_VOLUME_NAME_PATTERN :: "string \<Rightarrow> bool" where
  "MANAGED_VOLUME_NAME_PATTERN = hex_name ''nyv-'' 32"

definition MANAGED_ATTACHMENT_DEVICE_PATTERN :: "string \<Rightarrow> bool" where
  "MANAGED_ATTACHMENT_DEVICE_PATTERN = hex_name ''nyd-'' 32"

definition GUEST_IPV6_DISABLE_SYSCTLS :: "string list" where
  "GUEST_IPV6_DISABLE_SYSCTLS =
     [''linux.sysctl.net.ipv6.conf.all.disable_ipv6'',
      ''linux.sysctl.net.ipv6.conf.default.disable_ipv6'']"

lemma hex_name_no_slash: "hex_name p n s \<Longrightarrow> CHR ''/'' \<notin> set p \<Longrightarrow> CHR ''/'' \<notin> set s"
proof -
  assume h: "hex_name p n s" and p: "CHR ''/'' \<notin> set p"
  then obtain r where s: "s = p @ r" by (auto simp: hex_name_def starts_with_iff)
  then have "list_all is_lower_hex r" using h by (simp add: hex_name_def)
  then have "CHR ''/'' \<notin> set r" by (auto simp: list_all_iff is_lower_hex_def is_digit_def)
  with s p show ?thesis by simp
qed


subsection \<open>Image servers\<close>

record url =
  protocol :: string
  username :: string
  password :: string
  search :: string
  hash :: string

definition imageSourceServerProblem :: "(string \<Rightarrow> url option) \<Rightarrow> string \<Rightarrow> string option" where
  "imageSourceServerProblem parse_url v =
     (case parse_url v of
        None \<Rightarrow> Some ''image source server must be a URL''
      | Some u \<Rightarrow>
          if protocol u \<noteq> ''https:'' then Some ''image source server must use https''
          else if username u \<noteq> [] \<or> password u \<noteq> []
            then Some ''image source server must not carry credentials''
          else if search u \<noteq> [] \<or> hash u \<noteq> [] \<or> CHR ''?'' \<in> set v \<or> CHR ''#'' \<in> set v
            then Some ''image source server must not carry a query or fragment''
          else None)"


subsection \<open>Mount paths\<close>

definition FORBIDDEN_CONTAINER_MOUNT_ROOTS :: "string list" where
  "FORBIDDEN_CONTAINER_MOUNT_ROOTS = [''/proc'', ''/sys'', ''/dev'']"

definition isForbiddenContainerMountPath :: "string \<Rightarrow> bool" where
  "isForbiddenContainerMountPath path =
     (let normalized = CHR ''/'' # join_str ''/''
            (filter (\<lambda>part. part \<noteq> [] \<and> part \<noteq> ''.'') (split_char (CHR ''/'') path))
      in \<exists>root \<in> set FORBIDDEN_CONTAINER_MOUNT_ROOTS.
           normalized = root \<or> starts_with (root @ ''/'') normalized)"

text \<open>
  The test on texts is a test on path components: the first component that counts names one of
  the three roots.
\<close>

lemma join_starts_component:
  assumes "CHR ''/'' \<notin> set r" "r \<noteq> []" "\<forall>p \<in> set ps. CHR ''/'' \<notin> set p \<and> p \<noteq> []"
  shows "join_str ''/'' ps = r \<or> starts_with (r @ ''/'') (join_str ''/'' ps)
    \<longleftrightarrow> (\<exists>qs. ps = r # qs)"
proof (cases ps)
  case Nil
  then show ?thesis using assms(2) by (simp add: starts_with_iff)
next
  case (Cons p qs)
  show ?thesis
  proof
    assume "join_str ''/'' ps = r \<or> starts_with (r @ ''/'') (join_str ''/'' ps)"
    then obtain t where t: "join_str ''/'' ps = r \<or> join_str ''/'' ps = r @ CHR ''/'' # t"
      by (auto simp: starts_with_iff)
    have "split_char (CHR ''/'') (join_str ''/'' ps) = ps"
      using Cons assms(3) by (intro split_join) auto
    with t have "ps = split_char (CHR ''/'') r \<or> ps = split_char (CHR ''/'') (r @ CHR ''/'' # t)"
      by auto
    then show "\<exists>qs. ps = r # qs"
      using assms(1) by (auto simp: split_char_id split_char_append)
  next
    assume "\<exists>qs. ps = r # qs"
    then show "join_str ''/'' ps = r \<or> starts_with (r @ ''/'') (join_str ''/'' ps)"
      by (metis append.assoc join_str.simps(2) join_str_Cons starts_with_iff)
  qed
qed

definition path_components :: "string \<Rightarrow> string list" where
  "path_components path = filter (\<lambda>part. part \<noteq> [] \<and> part \<noteq> ''.'') (split_char (CHR ''/'') path)"

lemma isForbiddenContainerMountPath_iff:
  "isForbiddenContainerMountPath path \<longleftrightarrow>
     (\<exists>r qs. path_components path = r # qs \<and> r \<in> {''proc'', ''sys'', ''dev''})"
proof -
  have ps: "\<forall>p \<in> set (path_components path). CHR ''/'' \<notin> set p \<and> p \<noteq> []"
    by (auto simp: path_components_def dest: split_char_no_sep)
  have one: "CHR ''/'' # join_str ''/'' (path_components path) = CHR ''/'' # r
      \<or> starts_with ((CHR ''/'' # r) @ ''/'') (CHR ''/'' # join_str ''/'' (path_components path))
      \<longleftrightarrow> (\<exists>qs. path_components path = r # qs)"
    if "CHR ''/'' \<notin> set r" "r \<noteq> []" for r
    using join_starts_component [OF that ps] by simp
  show ?thesis
    using one [of "''proc''"] one [of "''sys''"] one [of "''dev''"]
    by (simp add: isForbiddenContainerMountPath_def FORBIDDEN_CONTAINER_MOUNT_ROOTS_def Let_def
        path_components_def [symmetric]) auto
qed


subsection \<open>Body schemas\<close>

type_synonym field_schema = "(string \<times> (json \<Rightarrow> bool)) list"

definition is_empty_array :: "json \<Rightarrow> bool" where
  "is_empty_array v \<longleftrightarrow> v = JArr []"

definition is_count :: "json \<Rightarrow> bool" where
  "is_count v \<longleftrightarrow> (case v of JNum q \<Rightarrow> (case safe_int q of Some n \<Rightarrow> n \<ge> 0 | None \<Rightarrow> False) | _ \<Rightarrow> False)"

definition is_command :: "json \<Rightarrow> bool" where
  "is_command v \<longleftrightarrow> (case v of JArr xs \<Rightarrow> length xs > 0 \<and> list_all is_string xs | _ \<Rightarrow> False)"

definition INSTANCE_CREATE_FIELDS :: field_schema where
  "INSTANCE_CREATE_FIELDS = [(''name'', is_string), (''type'', is_string), (''profiles'', is_array),
     (''source'', is_record), (''config'', is_record), (''devices'', is_record), (''start'', is_boolean)]"

definition INSTANCE_SOURCE_FIELDS :: field_schema where
  "INSTANCE_SOURCE_FIELDS = [(''type'', is_string), (''fingerprint'', is_string), (''alias'', is_string),
     (''server'', is_string), (''protocol'', is_string), (''project'', is_string)]"

definition INSTANCE_UPDATE_FIELDS :: field_schema where
  "INSTANCE_UPDATE_FIELDS = [(''architecture'', is_string), (''config'', is_record),
     (''description'', is_string), (''devices'', is_record), (''ephemeral'', is_boolean),
     (''profiles'', is_array), (''stateful'', is_boolean)]"

definition INSTANCE_RENAME_FIELDS :: field_schema where
  "INSTANCE_RENAME_FIELDS = [(''name'', is_string)]"

definition INSTANCE_STATE_FIELDS :: field_schema where
  "INSTANCE_STATE_FIELDS = [(''action'', is_string), (''force'', is_boolean)]"

definition INSTANCE_EXEC_FIELDS :: field_schema where
  "INSTANCE_EXEC_FIELDS = [(''command'', is_command), (''record-output'', is_boolean),
     (''interactive'', is_boolean), (''wait-for-websocket'', is_boolean), (''width'', is_count),
     (''height'', is_count), (''user'', is_count), (''group'', is_count)]"

definition VOLUME_CREATE_FIELDS :: field_schema where
  "VOLUME_CREATE_FIELDS = [(''name'', is_string), (''type'', is_string),
     (''content_type'', is_string), (''config'', is_record)]"

definition VOLUME_UPDATE_FIELDS :: field_schema where
  "VOLUME_UPDATE_FIELDS = [(''config'', is_record), (''description'', is_string)]"

definition IMAGE_PULL_FIELDS :: field_schema where
  "IMAGE_PULL_FIELDS = [(''aliases'', is_empty_array), (''source'', is_record)]"

definition IMAGE_SOURCE_FIELDS :: field_schema where
  "IMAGE_SOURCE_FIELDS = [(''type'', is_string), (''alias'', is_string), (''fingerprint'', is_string),
     (''protocol'', is_string), (''server'', is_string), (''image_type'', is_string)]"

definition IMAGE_ALIAS_FIELDS :: field_schema where
  "IMAGE_ALIAS_FIELDS = [(''name'', is_string), (''target'', is_string), (''type'', is_string)]"

lemmas field_schemas = INSTANCE_CREATE_FIELDS_def INSTANCE_SOURCE_FIELDS_def
  INSTANCE_UPDATE_FIELDS_def INSTANCE_RENAME_FIELDS_def INSTANCE_STATE_FIELDS_def
  INSTANCE_EXEC_FIELDS_def VOLUME_CREATE_FIELDS_def VOLUME_UPDATE_FIELDS_def IMAGE_PULL_FIELDS_def
  IMAGE_SOURCE_FIELDS_def IMAGE_ALIAS_FIELDS_def

fun fieldsProblem :: "js_object \<Rightarrow> field_schema \<Rightarrow> string \<Rightarrow> string option" where
  "fieldsProblem [] schema label = None"
| "fieldsProblem ((key, v) # rest) schema label =
     (case map_of schema key of
        None \<Rightarrow> Some (label @ '' field '' @ json_string key @ '' is not allowed'')
      | Some check \<Rightarrow>
          if \<not> check v then Some (label @ '' field '' @ key @ '' is malformed'')
          else fieldsProblem rest schema label)"

lemma fieldsProblem_None_iff:
  "fieldsProblem r schema label = None \<longleftrightarrow>
     (\<forall>(key, v) \<in> set r. \<exists>check. map_of schema key = Some check \<and> check v)"
  by (induction r schema label rule: fieldsProblem.induct) (auto split: option.splits)

lemma fieldsProblem_keys:
  assumes "fieldsProblem r schema label = None"
  shows "set (keys r) \<subseteq> set (keys schema)"
proof
  fix k assume "k \<in> set (keys r)"
  then obtain v where "(k, v) \<in> set r" by auto
  with assms obtain c where "map_of schema k = Some c" unfolding fieldsProblem_None_iff by blast
  then show "k \<in> set (keys schema)" by (force dest: map_of_SomeD)
qed

lemma fieldsProblem_value:
  assumes "fieldsProblem r schema label = None" "map_of r key = Some v"
  obtains check where "map_of schema key = Some check" "check v"
  using assms by (fastforce simp: fieldsProblem_None_iff dest: map_of_SomeD)

definition jsonBody :: "(string \<Rightarrow> json option) \<Rightarrow> string option \<Rightarrow> js_object option" where
  "jsonBody parse body =
     (case body of
        None \<Rightarrow> None
      | Some bytes \<Rightarrow>
          if length bytes = 0 then None
          else (case parse bytes of Some (JObj obj) \<Rightarrow> Some obj | _ \<Rightarrow> None))"

datatype forwarded = NoBody | RawBody string | JsonBody js_object

definition serialize :: "js_object \<Rightarrow> forwarded" where
  "serialize body = JsonBody body"

end
