(* ===== verification/Incus_Policy.thy ===== *)
theory Incus_Policy
  imports Policy_Body
begin

text \<open>
  What the Backend may ask the local Incus to do: \<open>packages/agent/src/policy.ts\<close>.

  \<open>policy_env\<close> bundles what the policy calls: \<open>JSON.parse\<close> of a decoded body, \<open>new URL\<close>,
  and the reader of the current Incus document (\<open>None\<close> for a resource Incus does not have). The
  lookup of operations (\<open>operations.knows\<close>) changes the ledger it reads, so it is threaded as a
  state. Bytes are UTF-8 texts.
\<close>

subsection \<open>Verdicts\<close>

datatype verdict =
    Allowed (fwd: forwarded) (nic_up: bool)
  | Denied (reason: string) (not_found: bool)

fun is_allowed :: "verdict \<Rightarrow> bool" where
  "is_allowed (Allowed _ _) = True"
| "is_allowed (Denied _ _) = False"

definition ALLOW :: verdict where
  "ALLOW = Allowed NoBody False"

definition deny :: "string \<Rightarrow> verdict" where
  "deny r = Denied r False"

definition forward :: "js_object \<Rightarrow> bool \<Rightarrow> verdict" where
  "forward body bringsUpGuestNic = Allowed (serialize body) bringsUpGuestNic"

lemma verdict_simps [simp]:
  "is_allowed ALLOW" "\<not> is_allowed (deny r)" "is_allowed (forward b n)"
  "ALLOW \<noteq> deny r" "deny r \<noteq> ALLOW" "deny r \<noteq> Allowed f n" "Allowed f n \<noteq> deny r"
  "forward b n \<noteq> deny r" "deny r \<noteq> forward b n"
  by (simp_all add: ALLOW_def deny_def forward_def)

lemma ALLOW_eq [simp]: "ALLOW = Allowed f n \<longleftrightarrow> f = NoBody \<and> \<not> n"
  by (auto simp: ALLOW_def)

lemma forward_eq [simp]: "forward b up = Allowed f n \<longleftrightarrow> f = JsonBody b \<and> n = up"
  by (auto simp: forward_def serialize_def)

text \<open>A loop that returns the first refusal: \<open>if (!verdict.allowed) return verdict\<close>.\<close>

fun first_denied :: "('a \<Rightarrow> verdict) \<Rightarrow> 'a list \<Rightarrow> verdict" where
  "first_denied check [] = ALLOW"
| "first_denied check (x # xs) =
     (if is_allowed (check x) then first_denied check xs else check x)"

lemma first_denied_allowed:
  "is_allowed (first_denied check xs) \<longleftrightarrow> (\<forall>x \<in> set xs. is_allowed (check x))"
  by (induction xs) auto

datatype http_method = GET | POST | PUT | PATCH | DELETE

record policy_request =
  req_method :: http_method
  req_path :: string
  req_body :: "string option"

record policy_env =
  parse_json :: "string \<Rightarrow> json option"
  parse_url :: "string \<Rightarrow> url option"
  read_current :: "string \<Rightarrow> js_object option"


subsection \<open>Paths\<close>

definition PROBE_INSTANCE_PATTERN :: "string \<Rightarrow> bool" where
  "PROBE_INSTANCE_PATTERN = hex_name ''nyabase-preflight-'' 32"

definition IMAGE_FINGERPRINT_PATTERN :: "string \<Rightarrow> bool" where
  "IMAGE_FINGERPRINT_PATTERN = hex_name [] 64"

definition OPERATION_ID_PATTERN :: "string \<Rightarrow> bool" where
  "OPERATION_ID_PATTERN s \<longleftrightarrow> length s = 36 \<and> list_all (\<lambda>c. is_lower_hex c \<or> c = CHR ''-'') s"

definition ALLOWED_QUERY_KEYS :: "string list" where
  "ALLOWED_QUERY_KEYS = [''recursion'', ''path'', ''timeout'', ''secret'', ''project'']"

definition POWER_ACTIONS :: "string list" where
  "POWER_ACTIONS = [''start'', ''stop'', ''restart'', ''freeze'', ''unfreeze'']"

definition NIC_UP_ACTIONS :: "string list" where
  "NIC_UP_ACTIONS = [''start'', ''restart'', ''unfreeze'']"

definition BOOLEAN_VALUES :: "string list" where
  "BOOLEAN_VALUES = [''true'', ''false'']"

type_synonym parsed_path = "string list \<times> (string \<times> string) list"

text \<open>\<open>[\<dots>].map((segment) => decodeURIComponent(segment))\<close>, \<open>None\<close> if one throws.\<close>

fun decode_segments :: "string list \<Rightarrow> string list option" where
  "decode_segments [] = Some []"
| "decode_segments (s # ss) =
     (case decode_uri_component s of
        None \<Rightarrow> None
      | Some d \<Rightarrow> map_option (Cons d) (decode_segments ss))"

definition query_ok :: "(string \<times> string) list \<Rightarrow> bool" where
  "query_ok q = list_all (\<lambda>(key, v).
     key \<in> set ALLOWED_QUERY_KEYS \<and> \<not> (key = ''project'' \<and> v \<noteq> ''default'')) q"

definition parseIncusPath :: "string \<Rightarrow> parsed_path option" where
  "parseIncusPath path =
     (let parts = split_char (CHR ''?'') path;
          rawPath = hd parts;
          rawQuery = (case tl parts of [] \<Rightarrow> [] | q # _ \<Rightarrow> q);
          extra = tl (tl parts)
      in if length extra > 0
           \<or> \<not> starts_with ''/1.0'' rawPath
           \<or> (\<exists>c \<in> set path. is_control c \<or> c = CHR 0x5C \<or> c = CHR ''#'')
           \<or> (str_includes ''%2e'' (to_lower rawPath) \<or> str_includes ''%5c'' (to_lower rawPath)
              \<or> str_includes ''%00'' (to_lower rawPath))
           \<or> (\<exists>segment \<in> set (split_char (CHR ''/'') rawPath). segment = ''.'' \<or> segment = ''..'')
           \<or> str_includes ''//'' rawPath
         then None
         else case decode_segments (tl (split_char (CHR ''/'') rawPath)) of
           None \<Rightarrow> None
         | Some segments \<Rightarrow>
             let query = search_params rawQuery
             in if query_ok query then Some (segments, query) else None)"

definition isManagedInstance :: "string option \<Rightarrow> bool" where
  "isManagedInstance name \<longleftrightarrow> (case name of None \<Rightarrow> False
     | Some n \<Rightarrow> MANAGED_INSTANCE_NAME_PATTERN n \<or> PROBE_INSTANCE_PATTERN n)"


subsection \<open>Small helpers\<close>

definition stringField :: "js_object \<Rightarrow> string \<Rightarrow> string option" where
  "stringField r key = (case js_get r key of Some (JStr s) \<Rightarrow> Some s | _ \<Rightarrow> None)"

text \<open>\<open>stringMap\<close>: the string-valued properties of an object, nothing for any other value.\<close>

fun string_entries :: "js_object \<Rightarrow> (string \<times> string) list" where
  "string_entries [] = []"
| "string_entries ((k, JStr s) # ps) = (k, s) # string_entries ps"
| "string_entries (_ # ps) = string_entries ps"

definition stringMap :: "json option \<Rightarrow> (string \<times> string) list" where
  "stringMap v = (case v of Some (JObj ps) \<Rightarrow> string_entries ps | _ \<Rightarrow> [])"

definition onlyKeys :: "(string \<times> string) list \<Rightarrow> string list \<Rightarrow> bool" where
  "onlyKeys r allowed = list_all (\<lambda>key. key \<in> set allowed) (keys r)"

text \<open>\<open>r[key] ?? ''\<close>, and \<open>!r[key]\<close> for string-valued records.\<close>

definition text_or_empty :: "(string \<times> string) list \<Rightarrow> string \<Rightarrow> string" where
  "text_or_empty r key = (case map_of r key of Some s \<Rightarrow> s | None \<Rightarrow> [])"

definition sameStringMap :: "js_object \<Rightarrow> json option \<Rightarrow> bool" where
  "sameStringMap left right =
     (case right of
        Some (JObj r) \<Rightarrow> length (keys left) = length (keys r)
          \<and> list_all (\<lambda>key. case (js_get r key, js_get left key) of
               (Some a, Some b) \<Rightarrow> strict_eq a b | _ \<Rightarrow> False) (keys left)
      | _ \<Rightarrow> False)"

text \<open>
  \<open>String(value).toLowerCase() === 'stopped'\<close>: a string, or an array whose only element reads so
  (\<open>String([x])\<close> is \<open>String(x)\<close>); the text of any other value differs.
\<close>

fun reads_stopped :: "json \<Rightarrow> bool" where
  "reads_stopped (JStr s) = (to_lower s = ''stopped'')"
| "reads_stopped (JArr [x]) = reads_stopped x"
| "reads_stopped _ = False"

definition bringsNicUp :: "js_object \<Rightarrow> js_object \<Rightarrow> bool" where
  "bringsNicUp body current =
     (case js_get body ''devices'' of
        Some (JObj devices) \<Rightarrow>
          if (case js_get current ''status'' of Some s \<Rightarrow> reads_stopped s | None \<Rightarrow> False) then False
          else
            (let before = (case js_get current ''devices'' of Some (JObj ds) \<Rightarrow> ds | _ \<Rightarrow> [])
             in \<exists>(name, device) \<in> set devices.
                  (case device of
                     JObj d \<Rightarrow> js_get d ''type'' = Some (JStr ''nic'') \<and> \<not> sameStringMap d (js_get before name)
                   | _ \<Rightarrow> False))
      | _ \<Rightarrow> False)"

text \<open>\<open>Object.hasOwn(current, key) && current[key] === value\<close>; \<open>None\<close> where there is no current config.\<close>

definition unchanged :: "(string \<times> string) list option \<Rightarrow> string \<Rightarrow> string \<Rightarrow> bool" where
  "unchanged current key v = (case current of None \<Rightarrow> False | Some c \<Rightarrow> map_of c key = Some v)"

definition checkJson ::
    "policy_env \<Rightarrow> string option \<Rightarrow> field_schema \<Rightarrow> string \<Rightarrow> (js_object \<Rightarrow> verdict) \<Rightarrow> verdict" where
  "checkJson E raw schema label check =
     (case jsonBody (parse_json E) raw of
        None \<Rightarrow> deny (label @ '' needs a JSON body'')
      | Some body \<Rightarrow> (case fieldsProblem body schema label of
          Some problem \<Rightarrow> deny problem
        | None \<Rightarrow> check body))"

definition volatile_key :: "string \<Rightarrow> bool" where
  "volatile_key key = starts_with ''volatile.'' key"

definition withCurrentVolatile ::
    "js_object \<Rightarrow> (string \<times> string) list \<Rightarrow> bool \<Rightarrow> verdict" where
  "withCurrentVolatile body current bringsUpGuestNic =
     (case js_get body ''config'' of
        Some (JObj cfg) \<Rightarrow>
          (let config = concat (map (\<lambda>(key, v).
                 if \<not> volatile_key key then [(key, v)]
                 else (case map_of current key of Some c \<Rightarrow> [(key, JStr c)] | None \<Rightarrow> [])) cfg)
           in forward (AList.update ''config'' (JObj config) body) bringsUpGuestNic)
      | _ \<Rightarrow> forward body bringsUpGuestNic)"


subsection \<open>Instance documents\<close>

text \<open>
  \<open>CPUSET_PATTERN\<close>: one or more ranges, or at least two items that are numbers or ranges,
  separated by commas.
\<close>

definition all_digits :: "string \<Rightarrow> bool" where
  "all_digits s \<longleftrightarrow> s \<noteq> [] \<and> list_all is_digit s"

definition is_cpu_range :: "string \<Rightarrow> bool" where
  "is_cpu_range s = (case split_char (CHR ''-'') s of [a, b] \<Rightarrow> all_digits a \<and> all_digits b | _ \<Rightarrow> False)"

definition CPUSET_PATTERN :: "string \<Rightarrow> bool" where
  "CPUSET_PATTERN v =
     (let items = split_char (CHR '','') v
      in list_all is_cpu_range items
         \<or> length items \<ge> 2 \<and> list_all (\<lambda>i. all_digits i \<or> is_cpu_range i) items)"

text \<open>\<open>/^[0-9]+(?:[KMGT]i?B)?$/\<close>.\<close>

definition is_limit_value :: "string \<Rightarrow> bool" where
  "is_limit_value v =
     (let ds = takeWhile is_digit v; unit = dropWhile is_digit v
      in ds \<noteq> [] \<and> (unit = [] \<or>
           (\<exists>c \<in> set ''KMGT''. unit = [c, CHR ''B''] \<or> unit = [c, CHR ''i'', CHR ''B''])))"

definition checkConfigEntry :: "string \<Rightarrow> string \<Rightarrow> verdict" where
  "checkConfigEntry key v =
     (if volatile_key key then ALLOW
      else if starts_with ''user.nyabase.'' key \<or> starts_with ''image.'' key then ALLOW
      else if key = ''limits.cpu'' then
        (if CPUSET_PATTERN v then ALLOW else deny ''limits.cpu must be an explicit CPU set'')
      else if key = ''limits.memory'' \<or> key = ''limits.processes'' then
        (if is_limit_value v then ALLOW else deny (key @ '' is malformed''))
      else if key = ''security.privileged'' then
        (if v = ''false'' then ALLOW else deny ''privileged containers are refused'')
      else if key = ''security.idmap.isolated'' then
        (if v = ''true'' then ALLOW else deny ''security.idmap.isolated must be true'')
      else if key \<in> set [''security.nesting'', ''security.syscalls.intercept.mknod'',
                     ''security.syscalls.intercept.setxattr'', ''nvidia.runtime''] then
        (if v \<in> set BOOLEAN_VALUES then ALLOW else deny (key @ '' must be a boolean''))
      else if key \<in> set GUEST_IPV6_DISABLE_SYSCTLS then
        (if v = ''1'' then ALLOW else deny (key @ '' must be 1''))
      else deny (''config '' @ key @ '' is not allowed''))"

record document_check_options =
  full :: bool
  current :: "(string \<times> string) list option"

text \<open>One round of the loop over the entries of a config.\<close>

definition config_round :: "(string \<times> string) list option \<Rightarrow> string \<Rightarrow> json \<Rightarrow> verdict" where
  "config_round cur key v =
     (case v of
        JStr s \<Rightarrow> if unchanged cur key s then ALLOW else checkConfigEntry key s
      | _ \<Rightarrow> deny (''config '' @ key @ '' must be a string''))"

definition checkInstanceConfig :: "js_object \<Rightarrow> document_check_options \<Rightarrow> verdict" where
  "checkInstanceConfig config options =
     (let v = first_denied (\<lambda>(key, v). config_round (current options) key v) config
      in if \<not> is_allowed v then v
         else if full options \<and> js_get config ''security.idmap.isolated'' \<noteq> Some (JStr ''true'')
           then deny ''security.idmap.isolated must be true''
         else if full options \<and> js_get config ''security.privileged'' \<noteq> None
             \<and> js_get config ''security.privileged'' \<noteq> Some (JStr ''false'')
           then deny ''privileged containers are refused''
         else ALLOW)"

definition DISK_KEYS :: "string list" where
  "DISK_KEYS = [''type'', ''path'', ''pool'', ''source'', ''size'', ''readonly'', ''limits.read'',
     ''limits.write'']"

definition NIC_KEYS :: "string list" where
  "NIC_KEYS = [''type'', ''nictype'', ''parent'', ''name'', ''hwaddr'', ''host_name'', ''ipv4.address'',
     ''security.ipv4_filtering'', ''security.mac_filtering'', ''security.port_isolation'',
     ''limits.ingress'', ''limits.egress'']"

definition GPU_KEYS :: "string list" where
  "GPU_KEYS = [''type'', ''gputype'', ''pci'']"

definition checkDisk :: "string \<Rightarrow> (string \<times> string) list \<Rightarrow> verdict" where
  "checkDisk name device =
     (if \<not> onlyKeys device DISK_KEYS then deny (''disk '' @ name @ '' has refused keys'')
      else if text_or_empty device ''pool'' = []
        then deny (''disk '' @ name @ '' must live in a storage pool'')
      else if name = ''root'' then
        (if map_of device ''path'' = Some ''/'' \<and> map_of device ''source'' = None then ALLOW
         else deny ''root disk is malformed'')
      else if \<not> MANAGED_ATTACHMENT_DEVICE_PATTERN name
        then deny (''disk '' @ name @ '' is not a nyabase attachment'')
      else if \<not> MANAGED_VOLUME_NAME_PATTERN (text_or_empty device ''source'')
        then deny (''disk '' @ name @ '' must mount a nyabase volume'')
      else
        (let path = text_or_empty device ''path''
         in if \<not> starts_with ''/'' path \<or> path = ''/'' \<or> (\<exists>c \<in> set path. is_control c)
              \<or> (\<exists>segment \<in> set (split_char (CHR ''/'') path). segment = ''.'' \<or> segment = ''..'')
            then deny (''disk '' @ name @ '' path is malformed'')
            else if isForbiddenContainerMountPath path
              then deny (''disk '' @ name @ '' must not be mounted under /proc, /sys or /dev'')
            else ALLOW))"

definition checkNic :: "string \<Rightarrow> (string \<times> string) list \<Rightarrow> verdict" where
  "checkNic name device =
     (if name \<noteq> ''eth0'' then deny ''the only NIC is eth0''
      else if \<not> onlyKeys device NIC_KEYS then deny ''eth0 has refused keys''
      else if map_of device ''nictype'' \<noteq> Some ''bridged'' \<or> text_or_empty device ''parent'' = []
        then deny ''eth0 must be a bridged NIC''
      else if map_of device ''security.port_isolation'' \<notin> {None, Some ''true'', Some ''false''}
        then deny ''eth0 security.port_isolation must be true or false''
      else if \<not> MANAGED_NIC_HOST_NAME_PATTERN (text_or_empty device ''host_name'')
        then deny ''eth0 host_name must carry the IPv6 guard prefix''
      else if map_of device ''security.ipv4_filtering'' \<noteq> Some ''true''
          \<or> map_of device ''security.mac_filtering'' \<noteq> Some ''true''
        then deny ''eth0 must filter IPv4 and MAC spoofing''
      else if text_or_empty device ''ipv4.address'' = []
        then deny ''eth0 needs its IPv4 filter identity''
      else ALLOW)"

text \<open>\<open>/^gpu[0-9]+$/\<close> and \<open>/^[0-9a-f:.]{7,16}$/i\<close>.\<close>

definition is_gpu_name :: "string \<Rightarrow> bool" where
  "is_gpu_name name \<longleftrightarrow> starts_with ''gpu'' name \<and> all_digits (drop 3 name)"

definition is_pci_text :: "string \<Rightarrow> bool" where
  "is_pci_text s \<longleftrightarrow> 7 \<le> length s \<and> length s \<le> 16
     \<and> list_all (\<lambda>c. is_hex c \<or> c = CHR '':'' \<or> c = CHR ''.'') s"

definition checkDevice :: "string \<Rightarrow> json \<Rightarrow> verdict" where
  "checkDevice name device =
     (case device of
        JObj d \<Rightarrow>
          (let entries = stringMap (Some (JObj d))
           in if length (keys entries) \<noteq> length (keys d)
                then deny (''device '' @ name @ '' values must be strings'')
              else if map_of entries ''type'' = Some ''disk'' then checkDisk name entries
              else if map_of entries ''type'' = Some ''nic'' then checkNic name entries
              else if map_of entries ''type'' = Some ''gpu'' then
                (if \<not> is_gpu_name name then deny (''gpu device '' @ name @ '' is misnamed'')
                 else if \<not> onlyKeys entries GPU_KEYS
                   then deny (''gpu device '' @ name @ '' has refused keys'')
                 else if map_of entries ''gputype'' = Some ''physical''
                     \<and> is_pci_text (text_or_empty entries ''pci'') then ALLOW
                 else deny (''gpu device '' @ name @ '' must be a physical card by PCI address''))
              else deny (''device '' @ name @ '' of type '' @
                (case map_of entries ''type'' of Some t \<Rightarrow> t | None \<Rightarrow> ''none'') @ '' is not allowed''))
      | _ \<Rightarrow> deny (''device '' @ name @ '' must be an object''))"

definition config_part :: "js_object \<Rightarrow> document_check_options \<Rightarrow> verdict" where
  "config_part body options =
     (if js_get body ''config'' \<noteq> None \<or> full options then
        (case js_get body ''config'' of
           Some (JObj cfg) \<Rightarrow> checkInstanceConfig cfg options
         | _ \<Rightarrow> deny ''instance config must be an object'')
      else ALLOW)"

definition devices_part :: "js_object \<Rightarrow> document_check_options \<Rightarrow> verdict" where
  "devices_part body options =
     (if js_get body ''devices'' \<noteq> None \<or> full options then
        (case js_get body ''devices'' of
           Some (JObj ds) \<Rightarrow> first_denied (\<lambda>(name, device). checkDevice name device) ds
         | _ \<Rightarrow> deny ''instance devices must be an object'')
      else ALLOW)"

definition checkInstanceDocument :: "js_object \<Rightarrow> document_check_options \<Rightarrow> verdict" where
  "checkInstanceDocument body options =
     (if (js_get body ''profiles'' \<noteq> None \<or> full options) \<and> js_get body ''profiles'' \<noteq> Some (JArr [])
        then deny ''instances must not use profiles''
      else if js_get body ''ephemeral'' = Some (JBool True) then deny ''ephemeral instances are refused''
      else if js_get body ''stateful'' = Some (JBool True) then deny ''stateful instances are refused''
      else if \<not> is_allowed (config_part body options) then config_part body options
      else if \<not> is_allowed (devices_part body options) then devices_part body options
      else ALLOW)"



subsection \<open>Instances\<close>

definition imageServerProblem :: "policy_env \<Rightarrow> js_object \<Rightarrow> string option" where
  "imageServerProblem E source =
     (case js_get source ''server'' of
        None \<Rightarrow> None
      | Some (JStr server) \<Rightarrow>
          if js_get source ''protocol'' \<noteq> Some (JStr ''simplestreams'')
          then Some ''remote images must use the simplestreams protocol''
          else imageSourceServerProblem (parse_url E) server
      | Some _ \<Rightarrow> Some ''image source server must be a string'')"

text \<open>\<open>a ?? b\<close> on optional problems.\<close>

fun or_else :: "'a option \<Rightarrow> 'a option \<Rightarrow> 'a option" where
  "or_else (Some a) b = Some a"
| "or_else None b = b"

lemma or_else_None [simp]: "or_else a b = None \<longleftrightarrow> a = None \<and> b = None"
  by (cases a) auto

text \<open>\<open>isRecord(body.config) && Object.keys(body.config).some((key) => key.startsWith('volatile.'))\<close>.\<close>

definition sets_volatile :: "js_object \<Rightarrow> bool" where
  "sets_volatile body = (case js_get body ''config'' of
     Some (JObj cfg) \<Rightarrow> \<exists>key \<in> set (keys cfg). volatile_key key | _ \<Rightarrow> False)"

definition checkInstanceCreate :: "policy_env \<Rightarrow> string option \<Rightarrow> verdict" where
  "checkInstanceCreate E raw =
     (case jsonBody (parse_json E) raw of
        None \<Rightarrow> deny ''instance create needs a JSON body''
      | Some body \<Rightarrow> (case fieldsProblem body INSTANCE_CREATE_FIELDS ''instance'' of
          Some problem \<Rightarrow> deny problem
        | None \<Rightarrow>
          if \<not> isManagedInstance (stringField body ''name'')
            then deny ''only nyabase instances may be created''
          else if js_get body ''type'' \<noteq> None \<and> js_get body ''type'' \<noteq> Some (JStr ''container'')
            then deny ''only containers may be created''
          else (case js_get body ''source'' of
            Some (JObj source) \<Rightarrow>
              if js_get source ''type'' \<noteq> Some (JStr ''image'')
                then deny ''instances may only be created from an image''
              else (case or_else (fieldsProblem source INSTANCE_SOURCE_FIELDS ''instance source'')
                           (imageServerProblem E source) of
                Some problem \<Rightarrow> deny problem
              | None \<Rightarrow>
                if sets_volatile body then deny ''volatile keys may not be set on create''
                else
                  (let v = checkInstanceDocument body \<lparr>full = True, current = None\<rparr>
                   in if is_allowed v then forward body (js_get body ''start'' = Some (JBool True))
                      else v))
          | _ \<Rightarrow> deny ''instances may only be created from an image'')))"

definition checkInstanceUpdate :: "policy_env \<Rightarrow> policy_request \<Rightarrow> string \<Rightarrow> verdict" where
  "checkInstanceUpdate E request instancePath =
     (case jsonBody (parse_json E) (req_body request) of
        None \<Rightarrow> deny ''instance update needs a JSON body''
      | Some body \<Rightarrow> (case fieldsProblem body INSTANCE_UPDATE_FIELDS ''instance'' of
          Some problem \<Rightarrow> deny problem
        | None \<Rightarrow> (case read_current E instancePath of
            None \<Rightarrow> deny ''instance to update does not exist''
          | Some cur \<Rightarrow>
              (let currentConfig = stringMap (js_get cur ''config'');
                   v = checkInstanceDocument body
                         \<lparr>full = (req_method request = PUT), current = Some currentConfig\<rparr>
               in if \<not> is_allowed v then v
                  else withCurrentVolatile body currentConfig (bringsNicUp body cur)))))"

text \<open>\<open>String(body.action)\<close>, after the schema: the action, or the text of \<open>undefined\<close>.\<close>

definition action_text :: "js_object \<Rightarrow> string" where
  "action_text body = (case js_get body ''action'' of Some (JStr s) \<Rightarrow> s | _ \<Rightarrow> ''undefined'')"

definition checkInstanceLeaf :: "policy_env \<Rightarrow> policy_request \<Rightarrow> string \<Rightarrow> verdict" where
  "checkInstanceLeaf E request leaf =
     (if leaf = ''state'' then
        (if req_method request = GET then ALLOW
         else if req_method request \<noteq> PUT then deny ''instance state only supports read and change''
         else checkJson E (req_body request) INSTANCE_STATE_FIELDS ''instance state'' (\<lambda>body.
           if action_text body \<in> set POWER_ACTIONS
           then forward body (action_text body \<in> set NIC_UP_ACTIONS)
           else deny ''unknown power action''))
      else if leaf = ''exec'' then
        (if req_method request \<noteq> POST then deny ''exec only supports POST''
         else checkJson E (req_body request) INSTANCE_EXEC_FIELDS ''exec'' (\<lambda>body.
           if js_get body ''command'' = None then deny ''exec needs a command'' else forward body False))
      else if leaf = ''files'' then
        (if req_method request = GET \<or> req_method request = DELETE then ALLOW
         else if req_method request = POST
           then Allowed (case req_body request of None \<Rightarrow> NoBody | Some b \<Rightarrow> RawBody b) False
         else deny ''instance files support read, write and delete'')
      else deny (''instance '' @ leaf @ '' is not reachable through the agent''))"

definition checkInstances :: "policy_env \<Rightarrow> policy_request \<Rightarrow> string list \<Rightarrow> verdict" where
  "checkInstances E request rest =
     (case rest of
        [] \<Rightarrow>
          if req_method request = GET then ALLOW
          else if req_method request \<noteq> POST then deny ''instance collection only supports list and create''
          else checkInstanceCreate E (req_body request)
      | name # leaves \<Rightarrow>
          if \<not> isManagedInstance (Some name) then deny ''only nyabase instances are reachable''
          else if length leaves > 1 then deny ''instance path is too deep''
          else
            (let instancePath = ''/1.0/instances/'' @ encode_uri_component name
             in case leaves of
               [] \<Rightarrow>
                 if req_method request = GET \<or> req_method request = DELETE then ALLOW
                 else if req_method request = POST then
                   checkJson E (req_body request) INSTANCE_RENAME_FIELDS ''instance rename'' (\<lambda>body.
                     if isManagedInstance (stringField body ''name'') then forward body False
                     else deny ''instances may only be renamed to another nyabase name'')
                 else checkInstanceUpdate E request instancePath
             | leaf # _ \<Rightarrow> checkInstanceLeaf E request leaf))"


subsection \<open>Storage pools, images, operations\<close>

definition volume_config_round :: "(string \<times> string) list option \<Rightarrow> string \<Rightarrow> json \<Rightarrow> verdict" where
  "volume_config_round cur key v =
     (case v of
        JStr s \<Rightarrow>
          if volatile_key key then ALLOW
          else if key = ''security.shifted'' then
            (if s \<noteq> ''true'' then deny ''volumes must stay shifted'' else ALLOW)
          else if unchanged cur key s then ALLOW
          else if key = ''size'' \<or> starts_with ''block.'' key \<or> starts_with ''initial.'' key then ALLOW
          else if starts_with ''user.nyabase.'' key then ALLOW
          else deny (''volume config '' @ key @ '' is not allowed'')
      | _ \<Rightarrow> deny (''volume config '' @ key @ '' must be a string''))"

definition checkVolumeConfig :: "json \<Rightarrow> (string \<times> string) list option \<Rightarrow> verdict" where
  "checkVolumeConfig config cur =
     (case config of
        JObj cfg \<Rightarrow> first_denied (\<lambda>(key, v). volume_config_round cur key v) cfg
      | _ \<Rightarrow> deny ''volume config must be an object'')"

text \<open>\<open>value ?? fallback\<close> on parsed values.\<close>

definition nullish :: "json option \<Rightarrow> json \<Rightarrow> json" where
  "nullish v d = (case v of None \<Rightarrow> d | Some JNull \<Rightarrow> d | Some x \<Rightarrow> x)"

definition checkVolumeCreate :: "policy_env \<Rightarrow> string option \<Rightarrow> verdict" where
  "checkVolumeCreate E raw =
     (case jsonBody (parse_json E) raw of
        None \<Rightarrow> deny ''volume create needs a JSON body''
      | Some body \<Rightarrow> (case fieldsProblem body VOLUME_CREATE_FIELDS ''volume'' of
          Some problem \<Rightarrow> deny problem
        | None \<Rightarrow>
          if \<not> MANAGED_VOLUME_NAME_PATTERN (case stringField body ''name'' of Some n \<Rightarrow> n | None \<Rightarrow> [])
            then deny ''only nyabase volumes may be created''
          else if nullish (js_get body ''type'') (JStr ''custom'') \<noteq> JStr ''custom''
            then deny ''only custom volumes may be created''
          else if nullish (js_get body ''content_type'') (JStr ''filesystem'') \<noteq> JStr ''filesystem''
            then deny ''only filesystem volumes may be created''
          else if sets_volatile body then deny ''volatile keys may not be set on create''
          else
            (let v = checkVolumeConfig (nullish (js_get body ''config'') (JObj [])) None
             in if is_allowed v then forward body False else v)))"

definition volume_path :: "string \<Rightarrow> string \<Rightarrow> string" where
  "volume_path pool name = ''/1.0/storage-pools/'' @ encode_uri_component pool
     @ ''/volumes/custom/'' @ encode_uri_component name"

definition checkVolumeUpdate :: "policy_env \<Rightarrow> policy_request \<Rightarrow> string \<Rightarrow> string \<Rightarrow> verdict" where
  "checkVolumeUpdate E request pool name =
     (case jsonBody (parse_json E) (req_body request) of
        None \<Rightarrow> deny ''volume update needs a JSON body''
      | Some body \<Rightarrow> (case fieldsProblem body VOLUME_UPDATE_FIELDS ''volume'' of
          Some problem \<Rightarrow> deny problem
        | None \<Rightarrow> (case read_current E (volume_path pool name) of
            None \<Rightarrow> deny ''volume to update does not exist''
          | Some cur \<Rightarrow>
              if req_method request = PUT \<and>
                  (case js_get body ''config'' of
                     Some (JObj cfg) \<Rightarrow> js_get cfg ''security.shifted'' \<noteq> Some (JStr ''true'')
                   | _ \<Rightarrow> True)
                then deny ''volumes must stay shifted''
              else
                (let currentConfig = stringMap (js_get cur ''config'');
                     v = checkVolumeConfig (nullish (js_get body ''config'') (JObj [])) (Some currentConfig)
                 in if \<not> is_allowed v then v else withCurrentVolatile body currentConfig False))))"

text \<open>\<open>xs[i]\<close> of a list of path segments.\<close>

definition seg :: "string list \<Rightarrow> nat \<Rightarrow> string option" where
  "seg xs i = (if i < length xs then Some (xs ! i) else None)"

definition checkStoragePools :: "policy_env \<Rightarrow> policy_request \<Rightarrow> string list \<Rightarrow> verdict" where
  "checkStoragePools E request rest =
     (if req_method request = GET then (if length rest \<le> 5 then ALLOW else deny ''storage path is too deep'')
      else if seg rest 0 \<in> {None, Some []} \<or> seg rest 1 \<noteq> Some ''volumes'' \<or> length rest > 4
        then deny ''storage pools are read-only''
      else if seg rest 2 = None \<or> (seg rest 2 = Some ''custom'' \<and> seg rest 3 = None) then
        (if req_method request \<noteq> POST then deny ''volume collection only supports create''
         else checkVolumeCreate E (req_body request))
      else if seg rest 2 \<noteq> Some ''custom''
          \<or> \<not> MANAGED_VOLUME_NAME_PATTERN (case seg rest 3 of Some n \<Rightarrow> n | None \<Rightarrow> [])
        then deny ''only nyabase custom volumes are writable''
      else if req_method request = DELETE then ALLOW
      else if req_method request \<noteq> PUT \<and> req_method request \<noteq> PATCH
        then deny ''volumes support update and delete''
      else checkVolumeUpdate E request (rest ! 0) (rest ! 3))"

definition checkImages :: "policy_env \<Rightarrow> policy_request \<Rightarrow> string list \<Rightarrow> verdict" where
  "checkImages E request rest =
     (if req_method request = GET then ALLOW
      else if seg rest 0 = Some ''aliases'' then
        (if length rest = 1 \<and> req_method request = POST then
           checkJson E (req_body request) IMAGE_ALIAS_FIELDS ''image alias'' (\<lambda>body.
             if stringField body ''name'' \<noteq> None \<and> stringField body ''target'' \<noteq> None
             then forward body False else deny ''an image alias needs a name and a target'')
         else if length rest = 2 \<and> req_method request = DELETE then ALLOW
         else deny ''image aliases support create and delete'')
      else if length rest = 0 then
        (if req_method request \<noteq> POST then deny ''image collection only supports remote pulls''
         else checkJson E (req_body request) IMAGE_PULL_FIELDS ''image'' (\<lambda>body.
           case js_get body ''source'' of
             Some (JObj source) \<Rightarrow>
               if js_get source ''type'' \<noteq> Some (JStr ''image'') \<or> stringField source ''server'' = None
                 then deny ''images may only be pulled from a remote image server''
               else (case or_else (fieldsProblem source IMAGE_SOURCE_FIELDS ''image source'')
                            (imageServerProblem E source) of
                 Some problem \<Rightarrow> deny problem
               | None \<Rightarrow> forward body False)
           | _ \<Rightarrow> deny ''images may only be pulled from a remote image server''))
      else if length rest \<noteq> 1 \<or> \<not> IMAGE_FINGERPRINT_PATTERN (rest ! 0)
        then deny ''image path is malformed''
      else if req_method request = DELETE then ALLOW
      else deny ''images support read and delete'')"

definition checkOperations ::
    "('l \<Rightarrow> string \<Rightarrow> bool \<times> 'l) \<Rightarrow> http_method \<Rightarrow> string list \<Rightarrow> 'l \<Rightarrow> verdict \<times> 'l" where
  "checkOperations knows method rest l =
     (case rest of
        [] \<Rightarrow> (deny ''operations support read and wait'', l)
      | oid # leaves \<Rightarrow>
          if method \<noteq> GET then (deny ''operations support read and wait'', l)
          else if \<not> OPERATION_ID_PATTERN oid
              \<or> (case leaves of [] \<Rightarrow> False | leaf # _ \<Rightarrow> leaf \<noteq> ''wait'') \<or> length leaves > 1
            then (deny ''operation path is malformed'', l)
          else (let (known, l') = knows l oid
                in (if known then ALLOW
                    else Denied ''operation was not started through the agent'' True, l')))"

definition checkIncusHttp ::
    "policy_env \<Rightarrow> ('l \<Rightarrow> string \<Rightarrow> bool \<times> 'l) \<Rightarrow> policy_request \<Rightarrow> 'l \<Rightarrow> verdict \<times> 'l" where
  "checkIncusHttp E knows request l =
     (case parseIncusPath (req_path request) of
        None \<Rightarrow> (deny ''path is malformed or uses a refused query parameter'', l)
      | Some (segments, _) \<Rightarrow>
          if seg segments 0 \<noteq> Some ''1.0'' then (deny ''only the 1.0 API is reachable'', l)
          else (case tl segments of
            [] \<Rightarrow> (if req_method request = GET then ALLOW else deny ''server configuration is read-only'', l)
          | collection # rest \<Rightarrow>
              if collection = ''resources'' then
                (if req_method request = GET \<and> length rest = 0 then ALLOW
                 else deny ''resources are read-only'', l)
              else if collection = ''networks'' then
                (if req_method request = GET \<and> length rest \<le> 2
                     \<and> (length rest < 2 \<or> rest ! 1 = ''state'') then ALLOW
                 else deny ''networks are read-only'', l)
              else if collection = ''instances'' then (checkInstances E request rest, l)
              else if collection = ''storage-pools'' then (checkStoragePools E request rest, l)
              else if collection = ''images'' then (checkImages E request rest, l)
              else if collection = ''operations'' then checkOperations knows (req_method request) rest l
              else (deny (''/1.0/'' @ collection @ '' is not reachable through the agent''), l)))"


subsection \<open>WebSockets and events\<close>

datatype websocket_kind = Events | Operation

datatype websocket_verdict = WsAllowed websocket_kind | WsDenied string

definition EVENTS_DIAL_PATH :: string where
  "EVENTS_DIAL_PATH = ''/1.0/events?type=lifecycle''"

definition checkIncusWebSocket ::
    "('l \<Rightarrow> string \<Rightarrow> bool \<times> 'l) \<Rightarrow> string \<Rightarrow> 'l \<Rightarrow> websocket_verdict \<times> 'l" where
  "checkIncusWebSocket knows path l =
     (case parseIncusPath path of
        None \<Rightarrow> (WsDenied ''path is malformed'', l)
      | Some (segments, query) \<Rightarrow>
          if seg segments 0 \<noteq> Some ''1.0'' then (WsDenied ''only the 1.0 API is reachable'', l)
          else if seg segments 1 = Some ''events'' \<and> length segments = 2 then (WsAllowed Events, l)
          else if seg segments 1 = Some ''operations''
              \<and> OPERATION_ID_PATTERN (case seg segments 2 of Some i \<Rightarrow> i | None \<Rightarrow> [])
              \<and> seg segments 3 = Some ''websocket'' \<and> length segments = 4
              \<and> has_own query ''secret''
            then (let (known, l') = knows l (segments ! 2)
                  in (if known then WsAllowed Operation
                      else WsDenied ''operation was not started through the agent'', l'))
          else (WsDenied ''only events and operation websockets are reachable'', l))"

definition isManagedSource :: "string \<Rightarrow> bool" where
  "isManagedSource source =
     (case parseIncusPath source of
        None \<Rightarrow> False
      | Some (segments, _) \<Rightarrow>
          if seg segments 0 \<noteq> Some ''1.0'' then False
          else if seg segments 1 = Some ''instances'' then isManagedInstance (seg segments 2)
          else seg segments 1 = Some ''storage-pools'' \<and> seg segments 3 = Some ''volumes''
             \<and> seg segments 4 = Some ''custom''
             \<and> MANAGED_VOLUME_NAME_PATTERN (case seg segments 5 of Some n \<Rightarrow> n | None \<Rightarrow> []))"

text \<open>\<open>filterIncusEvent\<close>: the object whose serialization is relayed (an undefined property is left out).\<close>

definition filterIncusEvent :: "(string \<Rightarrow> json option) \<Rightarrow> string \<Rightarrow> js_object option" where
  "filterIncusEvent parse text =
     (case parse text of
        Some (JObj event) \<Rightarrow>
          if js_get event ''type'' \<noteq> Some (JStr ''lifecycle'') then None
          else (case js_get event ''metadata'' of
            Some (JObj metadata) \<Rightarrow>
              (case (stringField metadata ''action'', stringField metadata ''source'') of
                 (Some action, Some source) \<Rightarrow>
                   if \<not> isManagedSource source then None
                   else Some ([(''type'', JStr ''lifecycle'')]
                     @ (case stringField event ''timestamp'' of
                          Some t \<Rightarrow> [(''timestamp'', JStr t)] | None \<Rightarrow> [])
                     @ [(''metadata'', JObj [(''action'', JStr action), (''source'', JStr source)])])
               | _ \<Rightarrow> None)
          | _ \<Rightarrow> None)
      | _ \<Rightarrow> None)"

end
