(* ===== verification/Incus_Policy_Safety.thy ===== *)
theory Incus_Policy_Safety
  imports Incus_Policy
begin

text \<open>
  What the agent's policy guarantees: specifications of confined instances, devices and volumes,
  and the proofs that every forwarded document meets them, whatever the request says.
\<close>

subsection \<open>What an allowed document may say\<close>

text \<open>
  Specification: the settings an instance config may carry, and the shapes of devices. These are
  stated over the JSON document Incus will decode, not over the checks.
\<close>

definition permitted_setting :: "string \<Rightarrow> string \<Rightarrow> bool" where
  "permitted_setting k v \<longleftrightarrow>
     starts_with ''user.nyabase.'' k \<or> starts_with ''image.'' k
   \<or> k = ''limits.cpu'' \<and> CPUSET_PATTERN v
   \<or> k \<in> {''limits.memory'', ''limits.processes''} \<and> is_limit_value v
   \<or> k = ''security.privileged'' \<and> v = ''false''
   \<or> k = ''security.idmap.isolated'' \<and> v = ''true''
   \<or> k \<in> {''security.nesting'', ''security.syscalls.intercept.mknod'',
          ''security.syscalls.intercept.setxattr'', ''nvidia.runtime''} \<and> v \<in> {''true'', ''false''}
   \<or> k \<in> {''linux.sysctl.net.ipv6.conf.all.disable_ipv6'',
          ''linux.sysctl.net.ipv6.conf.default.disable_ipv6''} \<and> v = ''1''"

definition confined_disk :: "string \<Rightarrow> js_object \<Rightarrow> bool" where
  "confined_disk name d \<longleftrightarrow> stringField d ''pool'' \<notin> {None, Some []} \<and>
     (if name = ''root'' then stringField d ''path'' = Some ''/'' \<and> js_get d ''source'' = None
      else \<exists>volume path. stringField d ''source'' = Some volume \<and> MANAGED_VOLUME_NAME_PATTERN volume
        \<and> CHR ''/'' \<notin> set volume \<and> stringField d ''path'' = Some path \<and> starts_with ''/'' path
        \<and> ''..'' \<notin> set (path_components path)
        \<and> (\<forall>r qs. path_components path = r # qs \<longrightarrow> r \<notin> {''proc'', ''sys'', ''dev''}))"

definition confined_nic :: "string \<Rightarrow> js_object \<Rightarrow> bool" where
  "confined_nic name d \<longleftrightarrow> name = ''eth0'' \<and> stringField d ''nictype'' = Some ''bridged''
     \<and> (\<exists>h. stringField d ''host_name'' = Some h \<and> MANAGED_NIC_HOST_NAME_PATTERN h)
     \<and> stringField d ''security.ipv4_filtering'' = Some ''true''
     \<and> stringField d ''security.mac_filtering'' = Some ''true''
     \<and> stringField d ''ipv4.address'' \<notin> {None, Some []}"

definition confined_device :: "string \<Rightarrow> json \<Rightarrow> bool" where
  "confined_device name device \<longleftrightarrow>
     (case device of
        JObj d \<Rightarrow> list_all (\<lambda>(k, v). is_string v) d \<and>
          (stringField d ''type'' = Some ''disk'' \<and> set (keys d) \<subseteq> set DISK_KEYS \<and> confined_disk name d
           \<or> stringField d ''type'' = Some ''nic'' \<and> set (keys d) \<subseteq> set NIC_KEYS \<and> confined_nic name d
           \<or> stringField d ''type'' = Some ''gpu'' \<and> set (keys d) \<subseteq> set GPU_KEYS
             \<and> stringField d ''gputype'' = Some ''physical'')
      | _ \<Rightarrow> False)"


subsection \<open>Lemmas\<close>

lemma checkConfigEntry_permitted:
  assumes "is_allowed (checkConfigEntry k v)" "\<not> volatile_key k"
  shows "permitted_setting k v"
  using assms
  by (simp add: checkConfigEntry_def permitted_setting_def GUEST_IPV6_DISABLE_SYSCTLS_def
      BOOLEAN_VALUES_def split: if_split_asm; elim disjE; simp)

text \<open>When every value is a string, \<open>stringMap\<close> loses nothing.\<close>

lemma length_string_entries: "length (string_entries d) \<le> length d"
  by (induction d rule: string_entries.induct) auto

lemma string_entries_full:
  "length (string_entries d) = length d \<Longrightarrow> d = map (\<lambda>(k, s). (k, JStr s)) (string_entries d)"
proof (induction d)
  case (Cons e d)
  obtain k v where e: "e = (k, v)" by (cases e)
  show ?case using Cons length_string_entries [of d] by (cases v) (simp_all add: e)
qed simp

lemma map_of_JStr: "map_of (map (\<lambda>(k, s). (k, JStr s)) es) k = map_option JStr (map_of es k)"
  by (induction es) auto

lemma string_object:
  assumes "d = map (\<lambda>(k, s). (k, JStr s)) es"
  shows "js_get d k = map_option JStr (map_of es k)" "stringField d k = map_of es k"
    "set (keys d) = set (keys es)" "list_all (\<lambda>(k, v). is_string v) d"
proof -
  show g: "js_get d k = map_option JStr (map_of es k)" unfolding assms by (rule map_of_JStr)
  show "stringField d k = map_of es k" by (simp add: stringField_def g split: option.splits)
  show "set (keys d) = set (keys es)" unfolding assms by force
  show "list_all (\<lambda>(k, v). is_string v) d" unfolding assms by (auto simp: list_all_iff)
qed

lemma text_or_empty_eq: "text_or_empty r k = s \<Longrightarrow> s \<noteq> [] \<Longrightarrow> map_of r k = Some s"
  by (auto simp: text_or_empty_def split: option.splits)

lemma onlyKeys_iff: "onlyKeys r allowed \<longleftrightarrow> set (keys r) \<subseteq> set allowed"
  by (auto simp: onlyKeys_def list_all_iff)

lemma hex_name_nonempty: "hex_name p n s \<Longrightarrow> 0 < n \<Longrightarrow> s \<noteq> []"
  by (auto simp: hex_name_def)

lemma checkDisk_confined:
  assumes "is_allowed (checkDisk name es)" "d = map (\<lambda>(k, s). (k, JStr s)) es"
  shows "set (keys d) \<subseteq> set DISK_KEYS \<and> confined_disk name d"
proof -
  note d = string_object [OF assms(2)]
  have a: "onlyKeys es DISK_KEYS" "text_or_empty es ''pool'' \<noteq> []"
    and root: "name = ''root'' \<Longrightarrow> map_of es ''path'' = Some ''/'' \<and> map_of es ''source'' = None"
    using assms(1) by (auto simp: checkDisk_def split: if_split_asm)
  have pool: "stringField d ''pool'' \<notin> {None, Some []}"
    using a(2) by (auto simp: d text_or_empty_def split: option.splits)
  show ?thesis
  proof (cases "name = ''root''")
    case True
    with root a(1) pool show ?thesis
      by (simp add: confined_disk_def d(1,2) d(3) [unfolded set_map] onlyKeys_iff)
  next
    case False
    define path where "path = text_or_empty es ''path''"
    have v: "MANAGED_VOLUME_NAME_PATTERN (text_or_empty es ''source'')"
      and p: "starts_with ''/'' path" "''..'' \<notin> set (split_char (CHR ''/'') path)"
        "\<not> isForbiddenContainerMountPath path"
      using assms(1) False
      by (auto simp: checkDisk_def Let_def path_def split: if_split_asm)
    have vol: "map_of es ''source'' = Some (text_or_empty es ''source'')"
      using v hex_name_nonempty [of "''nyv-''" 32 "text_or_empty es ''source''"]
      by (intro text_or_empty_eq) (simp_all add: MANAGED_VOLUME_NAME_PATTERN_def)
    have noslash: "CHR ''/'' \<notin> set (text_or_empty es ''source'')"
      using v hex_name_no_slash [of "''nyv-''" 32] by (simp add: MANAGED_VOLUME_NAME_PATTERN_def)
    have "path \<noteq> []" using p(1) by (auto simp: starts_with_iff)
    then have pt: "map_of es ''path'' = Some path"
      by (intro text_or_empty_eq) (simp_all add: path_def)
    have dots: "''..'' \<notin> set (path_components path)" using p(2) by (auto simp: path_components_def)
    have roots: "\<forall>r qs. path_components path = r # qs \<longrightarrow> r \<notin> {''proc'', ''sys'', ''dev''}"
      using p(3) unfolding isForbiddenContainerMountPath_iff by blast
    have "\<exists>volume path. stringField d ''source'' = Some volume \<and> MANAGED_VOLUME_NAME_PATTERN volume
        \<and> CHR ''/'' \<notin> set volume \<and> stringField d ''path'' = Some path \<and> starts_with ''/'' path
        \<and> ''..'' \<notin> set (path_components path)
        \<and> (\<forall>r qs. path_components path = r # qs \<longrightarrow> r \<notin> {''proc'', ''sys'', ''dev''})"
      unfolding d(2) using vol v noslash pt p(1) dots roots by blast
    with a(1) pool False show ?thesis
      by (simp add: confined_disk_def onlyKeys_iff d(3) [unfolded set_map])
  qed
qed

lemma checkNic_confined:
  assumes "is_allowed (checkNic name es)" "d = map (\<lambda>(k, s). (k, JStr s)) es"
  shows "set (keys d) \<subseteq> set NIC_KEYS \<and> confined_nic name d"
proof -
  note d = string_object [OF assms(2)]
  have h: "MANAGED_NIC_HOST_NAME_PATTERN (text_or_empty es ''host_name'')"
    and r: "name = ''eth0''" "onlyKeys es NIC_KEYS" "map_of es ''nictype'' = Some ''bridged''"
      "map_of es ''security.ipv4_filtering'' = Some ''true''"
      "map_of es ''security.mac_filtering'' = Some ''true''" "text_or_empty es ''ipv4.address'' \<noteq> []"
    using assms(1) by (auto simp: checkNic_def split: if_split_asm)
  have "map_of es ''host_name'' = Some (text_or_empty es ''host_name'')"
    using h hex_name_nonempty [of "''nyh''" 12 "text_or_empty es ''host_name''"]
    by (intro text_or_empty_eq) (simp_all add: MANAGED_NIC_HOST_NAME_PATTERN_def)
  moreover have "map_of es ''ipv4.address'' \<notin> {None, Some []}"
    using r(6) by (auto simp: text_or_empty_def split: option.splits)
  ultimately show ?thesis
    using h r by (simp add: confined_nic_def d(2) onlyKeys_iff d(3) [unfolded set_map])
qed

lemma checkDevice_confined:
  assumes "is_allowed (checkDevice name device)"
  shows "confined_device name device"
proof -
  obtain d where d: "device = JObj d" using assms by (cases device) (auto simp: checkDevice_def)
  define es where "es = string_entries d"
  have sm: "stringMap (Some (JObj d)) = es" by (simp add: stringMap_def es_def)
  have len: "length es = length d" using assms by (auto simp: checkDevice_def d sm Let_def split: if_split_asm)
  have full: "d = map (\<lambda>(k, s). (k, JStr s)) es"
    using string_entries_full len unfolding es_def by blast
  note o = string_object [OF full]
  consider "map_of es ''type'' = Some ''disk''" "is_allowed (checkDisk name es)"
    | "map_of es ''type'' = Some ''nic''" "is_allowed (checkNic name es)"
    | "map_of es ''type'' = Some ''gpu''" "onlyKeys es GPU_KEYS" "map_of es ''gputype'' = Some ''physical''"
    using assms by (simp add: checkDevice_def d sm Let_def split: if_split_asm)
  then show ?thesis
  proof cases
    case 1
    then show ?thesis using checkDisk_confined [OF 1(2) full] o(4)
      by (simp add: confined_device_def d o(2))
  next
    case 2
    then show ?thesis using checkNic_confined [OF 2(2) full] o(4)
      by (simp add: confined_device_def d o(2))
  next
    case 3
    then show ?thesis using o(4)
      by (simp add: confined_device_def d o(2) onlyKeys_iff o(3) [unfolded set_map])
  qed
qed


text \<open>
  An entry of an allowed config is a string that is either what Incus holds, a volatile key, or a
  permitted setting.
\<close>

lemma checkInstanceConfig_entry:
  assumes "is_allowed (checkInstanceConfig cfg opts)" "(k, v) \<in> set cfg"
  obtains t where "v = JStr t"
    "unchanged (current opts) k t \<or> volatile_key k \<or> permitted_setting k t"
proof -
  have "is_allowed (config_round (current opts) k v)"
    using assms by (auto simp: checkInstanceConfig_def Let_def first_denied_allowed split: if_split_asm)
  then obtain t where "v = JStr t"
      "is_allowed (if unchanged (current opts) k t then ALLOW else checkConfigEntry k t)"
    by (cases v) (auto simp: config_round_def)
  then show ?thesis using that checkConfigEntry_permitted [of k t] by (auto split: if_split_asm)
qed

lemma checkInstanceConfig_full:
  assumes "is_allowed (checkInstanceConfig cfg opts)" "full opts"
  shows "js_get cfg ''security.idmap.isolated'' = Some (JStr ''true'')"
    "js_get cfg ''security.privileged'' \<in> {None, Some (JStr ''false'')}"
  using assms by (auto simp: checkInstanceConfig_def Let_def split: if_split_asm)

lemma checkInstanceDocument_parts:
  assumes "is_allowed (checkInstanceDocument body opts)"
  shows "js_get body ''profiles'' = None \<and> \<not> full opts \<or> js_get body ''profiles'' = Some (JArr [])"
    "js_get body ''ephemeral'' \<noteq> Some (JBool True)" "js_get body ''stateful'' \<noteq> Some (JBool True)"
    "is_allowed (config_part body opts)" "is_allowed (devices_part body opts)"
  using assms by (auto simp: checkInstanceDocument_def split: if_split_asm)

lemma config_part_allowed:
  assumes "is_allowed (config_part body opts)"
  shows "js_get body ''config'' = None \<and> \<not> full opts \<or>
    (\<exists>cfg. js_get body ''config'' = Some (JObj cfg) \<and> is_allowed (checkInstanceConfig cfg opts))"
  using assms by (auto simp: config_part_def split: if_split_asm option.splits json.splits)

lemma devices_part_allowed:
  assumes "is_allowed (devices_part body opts)"
  shows "js_get body ''devices'' = None \<and> \<not> full opts \<or>
    (\<exists>ds. js_get body ''devices'' = Some (JObj ds) \<and> (\<forall>(n, d) \<in> set ds. confined_device n d))"
  using assms checkDevice_confined
  by (fastforce simp: devices_part_def first_denied_allowed split: if_split_asm option.splits json.splits)

text \<open>The config \<open>withCurrentVolatile\<close> forwards.\<close>

definition restore_volatile :: "(string \<times> string) list \<Rightarrow> js_object \<Rightarrow> js_object" where
  "restore_volatile cur cfg = concat (map (\<lambda>(key, v).
     if \<not> volatile_key key then [(key, v)]
     else (case map_of cur key of Some c \<Rightarrow> [(key, JStr c)] | None \<Rightarrow> [])) cfg)"

lemma withCurrentVolatile_eq:
  "withCurrentVolatile body cur up =
     (case js_get body ''config'' of
        Some (JObj cfg) \<Rightarrow> forward (AList.update ''config'' (JObj (restore_volatile cur cfg)) body) up
      | _ \<Rightarrow> forward body up)"
  by (simp add: withCurrentVolatile_def restore_volatile_def Let_def split: option.splits json.splits)

lemma restore_volatile_get:
  "js_get (restore_volatile cur cfg) k =
     (if volatile_key k then if has_own cfg k then map_option JStr (map_of cur k) else None
      else js_get cfg k)"
  by (induction cfg) (auto simp: restore_volatile_def split: option.splits)

lemma restore_volatile_entry:
  assumes "(k, v) \<in> set (restore_volatile cur cfg)"
  shows "volatile_key k \<and> (\<exists>c. map_of cur k = Some c \<and> v = JStr c) \<or> \<not> volatile_key k \<and> (k, v) \<in> set cfg"
  using assms by (auto simp: restore_volatile_def split: if_split_asm option.splits)

lemma stringField_get: "stringField r k = Some t \<longleftrightarrow> js_get r k = Some (JStr t)"
  by (auto simp: stringField_def split: option.splits json.splits)

lemma checkInstanceCreate_allowed:
  assumes "checkInstanceCreate E raw = Allowed f up"
  obtains body where "jsonBody (parse_json E) raw = Some body"
    "fieldsProblem body INSTANCE_CREATE_FIELDS ''instance'' = None"
    "isManagedInstance (stringField body ''name'')"
    "js_get body ''type'' \<in> {None, Some (JStr ''container'')}" "\<not> sets_volatile body"
    "is_allowed (checkInstanceDocument body \<lparr>full = True, current = None\<rparr>)"
    "f = JsonBody body" "up = (js_get body ''start'' = Some (JBool True))"
    "\<exists>source. js_get body ''source'' = Some (JObj source) \<and> js_get source ''type'' = Some (JStr ''image'')
      \<and> imageServerProblem E source = None"
  using assms
  by (auto simp: checkInstanceCreate_def Let_def split: option.splits if_split_asm json.splits)

lemma checkInstanceUpdate_allowed:
  assumes "checkInstanceUpdate E request path = Allowed f up"
  obtains body cur where "jsonBody (parse_json E) (req_body request) = Some body"
    "fieldsProblem body INSTANCE_UPDATE_FIELDS ''instance'' = None" "read_current E path = Some cur"
    "is_allowed (checkInstanceDocument body \<lparr>full = (req_method request = PUT),
       current = Some (stringMap (js_get cur ''config''))\<rparr>)"
    "withCurrentVolatile body (stringMap (js_get cur ''config'')) (bringsNicUp body cur) = Allowed f up"
  using assms
  by (auto simp: checkInstanceUpdate_def Let_def split: option.splits if_split_asm)


subsection \<open>Properties of instance requests\<close>

text \<open>The settings a config that Incus has not seen yet may carry: no privileges, no host paths.\<close>

definition confined_config :: "js_object \<Rightarrow> bool" where
  "confined_config cfg \<longleftrightarrow> js_get cfg ''security.idmap.isolated'' = Some (JStr ''true'')
     \<and> js_get cfg ''security.privileged'' \<in> {None, Some (JStr ''false'')}
     \<and> (\<forall>(k, v) \<in> set cfg. \<exists>t. v = JStr t \<and> permitted_setting k t)"

text \<open>C2. Whatever a POST to \<open>/1.0/instances\<close> says, what the agent forwards is a nyabase container:
  a managed name, no profiles, uid isolation on and privileges off, every config entry a permitted
  setting, every device confined (pool disks and managed volumes away from \<open>/proc\<close>, \<open>/sys\<close>
  and \<open>/dev\<close>, one filtered NIC, physical GPUs), only known fields; and it is flagged as raising a
  NIC exactly when it starts the instance.\<close>

theorem created_instance_confined:
  assumes "checkInstances E request [] = Allowed f up" "req_method request = POST"
  shows "\<exists>body cfg ds name. f = JsonBody body \<and> js_get body ''name'' = Some (JStr name)
      \<and> isManagedInstance (Some name)
      \<and> js_get body ''type'' \<in> {None, Some (JStr ''container'')}
      \<and> js_get body ''profiles'' = Some (JArr [])
      \<and> js_get body ''config'' = Some (JObj cfg) \<and> confined_config cfg
      \<and> js_get body ''devices'' = Some (JObj ds) \<and> (\<forall>(n, d) \<in> set ds. confined_device n d)
      \<and> set (keys body) \<subseteq> set (keys INSTANCE_CREATE_FIELDS)
      \<and> (up \<longleftrightarrow> js_get body ''start'' = Some (JBool True))"
proof -
  have "checkInstanceCreate E (req_body request) = Allowed f up"
    using assms by (simp add: checkInstances_def)
  then obtain body where b: "fieldsProblem body INSTANCE_CREATE_FIELDS ''instance'' = None"
      "isManagedInstance (stringField body ''name'')"
      "js_get body ''type'' \<in> {None, Some (JStr ''container'')}" "\<not> sets_volatile body"
      "is_allowed (checkInstanceDocument body \<lparr>full = True, current = None\<rparr>)"
      "f = JsonBody body" "up = (js_get body ''start'' = Some (JBool True))"
    by (rule checkInstanceCreate_allowed)
  obtain name where name: "js_get body ''name'' = Some (JStr name)" "isManagedInstance (Some name)"
    using b(2) by (cases "stringField body ''name''") (auto simp: isManagedInstance_def stringField_get)
  note parts = checkInstanceDocument_parts [OF b(5)]
  obtain cfg where cfg: "js_get body ''config'' = Some (JObj cfg)"
      "is_allowed (checkInstanceConfig cfg \<lparr>full = True, current = None\<rparr>)"
    using config_part_allowed [OF parts(4)] by auto
  obtain ds where ds: "js_get body ''devices'' = Some (JObj ds)" "\<forall>(n, d) \<in> set ds. confined_device n d"
    using devices_part_allowed [OF parts(5)] by auto
  have "\<exists>t. v = JStr t \<and> permitted_setting k t" if "(k, v) \<in> set cfg" for k v
  proof -
    have "\<not> volatile_key k" using b(4) cfg(1) that by (force simp: sets_volatile_def)
    then show ?thesis by (rule_tac checkInstanceConfig_entry [OF cfg(2) that]) (auto simp: unchanged_def)
  qed
  then have "confined_config cfg"
    using checkInstanceConfig_full [OF cfg(2)] by (auto simp: confined_config_def)
  moreover have "set (keys body) \<subseteq> set (keys INSTANCE_CREATE_FIELDS)"
    by (rule fieldsProblem_keys [OF b(1)])
  moreover have "js_get body ''profiles'' = Some (JArr [])" using parts(1) by simp
  ultimately show ?thesis using b(3,6,7) name cfg(1) ds by blast
qed


lemma restored_entry:
  assumes "is_allowed (checkInstanceConfig cfg opts)" "current opts = Some now" "(k, v) \<in> set (restore_volatile now cfg)"
  shows "\<exists>t. v = JStr t \<and> (map_of now k = Some t \<or> \<not> volatile_key k \<and> permitted_setting k t)"
  using restore_volatile_entry [OF assms(3)]
proof
  assume k: "\<not> volatile_key k \<and> (k, v) \<in> set cfg"
  show ?thesis
    by (rule checkInstanceConfig_entry [OF assms(1) conjunct2 [OF k]])
       (use k assms(2) in \<open>auto simp: unchanged_def\<close>)
qed auto

lemma restored_whole:
  assumes "is_allowed (checkInstanceConfig cfg opts)" "full opts"
  shows "js_get (restore_volatile now cfg) ''security.idmap.isolated'' = Some (JStr ''true'')
    \<and> js_get (restore_volatile now cfg) ''security.privileged'' \<in> {None, Some (JStr ''false'')}"
  using checkInstanceConfig_full [OF assms] by (simp add: restore_volatile_get volatile_key_def)

text \<open>C6. Whatever an update of an instance says, what the agent forwards carries only config entries
  that are exactly what Incus holds now or permitted settings that are not volatile (so no update can
  remap the container, whatever volatile keys it echoes), only confined devices and no profiles; a
  whole-document update keeps uid isolation on and privileges off.\<close>

theorem updated_instance_confined:
  assumes "checkInstances E request [name] = Allowed f up" "req_method request \<in> {PUT, PATCH}"
  shows "\<exists>body cur. isManagedInstance (Some name)
      \<and> read_current E (''/1.0/instances/'' @ encode_uri_component name) = Some cur
      \<and> f = JsonBody body
      \<and> js_get body ''profiles'' \<in> {None, Some (JArr [])}
      \<and> (\<forall>cfg. js_get body ''config'' = Some (JObj cfg) \<longrightarrow> (\<forall>(k, v) \<in> set cfg. \<exists>t. v = JStr t \<and>
            (map_of (stringMap (js_get cur ''config'')) k = Some t
             \<or> \<not> volatile_key k \<and> permitted_setting k t)))
      \<and> (\<forall>ds. js_get body ''devices'' = Some (JObj ds) \<longrightarrow> (\<forall>(n, d) \<in> set ds. confined_device n d))
      \<and> (req_method request = PUT \<longrightarrow>
           (\<exists>cfg ds. js_get body ''config'' = Some (JObj cfg) \<and> js_get body ''devices'' = Some (JObj ds)
              \<and> js_get cfg ''security.idmap.isolated'' = Some (JStr ''true'')
              \<and> js_get cfg ''security.privileged'' \<in> {None, Some (JStr ''false'')}))"
proof -
  have m: "isManagedInstance (Some name)"
    and u: "checkInstanceUpdate E request (''/1.0/instances/'' @ encode_uri_component name) = Allowed f up"
    using assms by (auto simp: checkInstances_def Let_def split: if_split_asm)
  from u obtain body cur where b: "jsonBody (parse_json E) (req_body request) = Some body"
      "fieldsProblem body INSTANCE_UPDATE_FIELDS ''instance'' = None"
      "read_current E (''/1.0/instances/'' @ encode_uri_component name) = Some cur"
      "is_allowed (checkInstanceDocument body \<lparr>full = (req_method request = PUT),
         current = Some (stringMap (js_get cur ''config''))\<rparr>)"
      "withCurrentVolatile body (stringMap (js_get cur ''config'')) (bringsNicUp body cur) = Allowed f up"
    by (rule checkInstanceUpdate_allowed)
  define now where "now = stringMap (js_get cur ''config'')"
  define opts where "opts = \<lparr>full = (req_method request = PUT), current = Some now\<rparr>"
  note parts = checkInstanceDocument_parts [OF b(4) [folded now_def, folded opts_def]]
  note dev = devices_part_allowed [OF parts(5)]
  define body' where "body' = (case js_get body ''config'' of
      Some (JObj cfg) \<Rightarrow> AList.update ''config'' (JObj (restore_volatile now cfg)) body | _ \<Rightarrow> body)"
  have f: "f = JsonBody body'"
    using b(5) by (auto simp: withCurrentVolatile_eq body'_def now_def split: option.splits json.splits)
  have other: "js_get body' k = js_get body k" if "k \<noteq> ''config''" for k
    using that by (simp add: body'_def split: option.splits json.splits)
  have config: "js_get body' ''config'' = None \<and> js_get body ''config'' = None \<and> \<not> full opts \<or>
      (\<exists>cfg. js_get body ''config'' = Some (JObj cfg) \<and> is_allowed (checkInstanceConfig cfg opts)
         \<and> js_get body' ''config'' = Some (JObj (restore_volatile now cfg)))"
    using config_part_allowed [OF parts(4)] by (auto simp: body'_def)
  have opts: "current opts = Some now" by (simp add: opts_def)
  note entry = restored_entry [OF _ opts]
  have "\<forall>cfg. js_get body' ''config'' = Some (JObj cfg) \<longrightarrow> (\<forall>(k, v) \<in> set cfg. \<exists>t. v = JStr t \<and>
      (map_of now k = Some t \<or> \<not> volatile_key k \<and> permitted_setting k t))"
    using config entry by fastforce
  moreover have "\<exists>cfg ds. js_get body' ''config'' = Some (JObj cfg) \<and> js_get body' ''devices'' = Some (JObj ds)
      \<and> js_get cfg ''security.idmap.isolated'' = Some (JStr ''true'')
      \<and> js_get cfg ''security.privileged'' \<in> {None, Some (JStr ''false'')}" if "req_method request = PUT"
  proof -
    have full: "full opts" using that by (simp add: opts_def)
    then show ?thesis using config dev restored_whole [of _ opts now] other by fastforce
  qed
  moreover have "\<forall>ds. js_get body' ''devices'' = Some (JObj ds) \<longrightarrow> (\<forall>(n, d) \<in> set ds. confined_device n d)"
    using dev other by auto
  moreover have "js_get body' ''profiles'' \<in> {None, Some (JArr [])}" using parts(1) other by auto
  ultimately show ?thesis using m b(3) f unfolding now_def by blast
qed

text \<open>An unchanged NIC: same keys with the same values.\<close>

lemma sameStringMap_eq:
  assumes "sameStringMap l (Some (JObj r))" "distinct (keys l)" "distinct (keys r)"
  shows "map_of r = map_of l"
proof
  fix k
  have len: "length l = length r" using assms(1) by (simp add: sameStringMap_def)
  have all: "\<exists>a b. map_of r k = Some a \<and> map_of l k = Some b \<and> strict_eq a b" if "k \<in> set (keys l)" for k
  proof -
    have "case (js_get r k, js_get l k) of (Some a, Some b) \<Rightarrow> strict_eq a b | _ \<Rightarrow> False"
      using assms(1) that unfolding sameStringMap_def list_all_iff by auto
    then show ?thesis by (cases "js_get r k"; cases "js_get l k") auto
  qed
  have sub: "set (keys l) \<subseteq> set (keys r)"
  proof
    fix x assume "x \<in> set (keys l)"
    then obtain a where "map_of r x = Some a" using all by blast
    then show "x \<in> set (keys r)" by (force dest: map_of_SomeD)
  qed
  have "card (set (keys l)) = card (set (keys r))"
    using len assms(2,3) by (simp only: distinct_card length_map)
  with sub have keys: "set (keys l) = set (keys r)" by (simp add: card_subset_eq)
  have eq: "a = b" if "strict_eq a b" for a b using that by (cases a) auto
  show "map_of r k = map_of l k"
  proof (cases "k \<in> set (keys l)")
    case True
    then show ?thesis using all eq by fastforce
  next
    case False
    then show ?thesis using keys by (simp add: map_of_eq_None_iff [THEN iffD2])
  qed
qed

lemma bringsNicUp_False:
  assumes "\<not> bringsNicUp body cur" "js_get body ''devices'' = Some (JObj ds)"
    and "(n, JObj d) \<in> set ds" "js_get d ''type'' = Some (JStr ''nic'')"
  shows "(\<exists>st. js_get cur ''status'' = Some st \<and> reads_stopped st) \<or>
    (\<exists>before. js_get cur ''devices'' = Some (JObj before) \<and> sameStringMap d (js_get before n))"
proof (cases "\<exists>st. js_get cur ''status'' = Some st \<and> reads_stopped st")
  case False
  then have "sameStringMap d (js_get (case js_get cur ''devices'' of Some (JObj b) \<Rightarrow> b | _ \<Rightarrow> []) n)"
    using assms by (fastforce simp: bringsNicUp_def Let_def split: if_split_asm option.splits)
  moreover have "\<not> sameStringMap d (js_get [] n)" by (simp add: sameStringMap_def)
  ultimately show ?thesis by (auto split: option.splits json.splits)
qed simp


lemma jsonBody_wf:
  assumes "jsonBody parse raw = Some body" "\<forall>b j. parse b = Some j \<longrightarrow> wf_json j"
  shows "wf_json (JObj body)"
proof -
  obtain b where "parse b = Some (JObj body)"
    using assms(1) by (auto simp: jsonBody_def split: option.splits if_split_asm json.splits)
  with assms(2) show ?thesis by blast
qed

lemma wf_json_device:
  assumes "wf_json (JObj body)" "js_get body k = Some (JObj ds)" "(n, JObj d) \<in> set ds"
  shows "distinct (keys d)"
proof -
  have "wf_json (JObj ds)" by (rule wf_json_prop [OF assms(1,2)])
  with assms(3) show ?thesis by (fastforce simp: list_all_iff)
qed

text \<open>An update, a state change or a creation that is not flagged leaves every NIC as it is.\<close>

lemma checkInstances_unflagged:
  assumes "checkInstances E request rest = Allowed f False"
    and "\<forall>b j. parse_json E b = Some j \<longrightarrow> wf_json j"
    and "\<forall>p doc. read_current E p = Some doc \<longrightarrow> wf_json (JObj doc)"
  shows "(rest = [] \<and> req_method request = POST \<longrightarrow>
           (\<exists>body. f = JsonBody body \<and> js_get body ''start'' \<noteq> Some (JBool True)))
     \<and> (\<forall>name. rest = [name, ''state''] \<and> req_method request = PUT \<longrightarrow>
           (\<exists>body a. f = JsonBody body \<and> js_get body ''action'' = Some (JStr a) \<and> a \<in> {''stop'', ''freeze''}))
     \<and> (\<forall>name. rest = [name] \<and> req_method request \<in> {PUT, PATCH} \<longrightarrow>
           (\<exists>body cur. f = JsonBody body
              \<and> read_current E (''/1.0/instances/'' @ encode_uri_component name) = Some cur
              \<and> ((\<exists>st. js_get cur ''status'' = Some st \<and> reads_stopped st)
                 \<or> (\<forall>ds n d. js_get body ''devices'' = Some (JObj ds) \<longrightarrow> (n, JObj d) \<in> set ds \<longrightarrow>
                      js_get d ''type'' = Some (JStr ''nic'') \<longrightarrow>
                      (\<exists>before nic. js_get cur ''devices'' = Some (JObj before)
                         \<and> js_get before n = Some (JObj nic) \<and> map_of nic = map_of d)))))"
proof (intro conjI allI impI; elim conjE)
  assume "rest = []" "req_method request = POST"
  then have "checkInstanceCreate E (req_body request) = Allowed f False"
    using assms(1) by (simp add: checkInstances_def)
  then show "\<exists>body. f = JsonBody body \<and> js_get body ''start'' \<noteq> Some (JBool True)"
    by (rule checkInstanceCreate_allowed) blast
next
  fix name assume "rest = [name, ''state'']" "req_method request = PUT"
  then show "\<exists>body a. f = JsonBody body \<and> js_get body ''action'' = Some (JStr a) \<and> a \<in> {''stop'', ''freeze''}"
    using assms(1)
    by (auto simp: checkInstances_def checkInstanceLeaf_def Let_def checkJson_def action_text_def
        POWER_ACTIONS_def NIC_UP_ACTIONS_def split: if_split_asm option.splits json.splits)
next
  fix name assume r: "rest = [name]" "req_method request \<in> {PUT, PATCH}"
  then have "checkInstanceUpdate E request (''/1.0/instances/'' @ encode_uri_component name) = Allowed f False"
    using assms(1) by (auto simp: checkInstances_def Let_def split: if_split_asm)
  then obtain body cur where b: "jsonBody (parse_json E) (req_body request) = Some body"
      "read_current E (''/1.0/instances/'' @ encode_uri_component name) = Some cur"
      "withCurrentVolatile body (stringMap (js_get cur ''config'')) (bringsNicUp body cur) = Allowed f False"
    by (rule checkInstanceUpdate_allowed)
  obtain body' where f: "f = JsonBody body'" "js_get body' ''devices'' = js_get body ''devices''"
      "\<not> bringsNicUp body cur"
    using b(3) by (auto simp: withCurrentVolatile_eq split: option.splits json.splits)
  have wf: "wf_json (JObj body)" "wf_json (JObj cur)"
    using jsonBody_wf [OF b(1) assms(2)] b(2) assms(3) by blast+
  have "\<exists>before nic. js_get cur ''devices'' = Some (JObj before)
      \<and> js_get before n = Some (JObj nic) \<and> map_of nic = map_of d"
    if "\<nexists>st. js_get cur ''status'' = Some st \<and> reads_stopped st"
      "js_get body ''devices'' = Some (JObj ds)" "(n, JObj d) \<in> set ds"
      "js_get d ''type'' = Some (JStr ''nic'')" for ds n d
  proof -
    note h = that
    obtain before where before: "js_get cur ''devices'' = Some (JObj before)" "sameStringMap d (js_get before n)"
      using bringsNicUp_False [OF f(3) h(2-4)] h(1) by blast
    then obtain nic where nic: "js_get before n = Some (JObj nic)"
      by (cases "js_get before n") (auto simp: sameStringMap_def split: json.splits)
    have "map_of nic = map_of d"
      by (rule sameStringMap_eq [OF before(2) [unfolded nic] wf_json_device [OF wf(1) h(2,3)]
            wf_json_device [OF wf(2) before(1) map_of_SomeD [OF nic]]])
    with before nic show ?thesis by blast
  qed
  then show "\<exists>body cur. f = JsonBody body
              \<and> read_current E (''/1.0/instances/'' @ encode_uri_component name) = Some cur
              \<and> ((\<exists>st. js_get cur ''status'' = Some st \<and> reads_stopped st)
                 \<or> (\<forall>ds n d. js_get body ''devices'' = Some (JObj ds) \<longrightarrow> (n, JObj d) \<in> set ds \<longrightarrow>
                      js_get d ''type'' = Some (JStr ''nic'') \<longrightarrow>
                      (\<exists>before nic. js_get cur ''devices'' = Some (JObj before)
                         \<and> js_get before n = Some (JObj nic) \<and> map_of nic = map_of d)))"
    using f(1,2) b(2) by metis
qed

text \<open>C11. A request the agent forwards without its guard check raises no guest NIC: a create does not
  start the instance, a power change is a stop or a freeze, and an update of an instance that is not
  stopped leaves every NIC of the forwarded document exactly as Incus has it.\<close>

theorem unflagged_raises_no_nic:
  assumes "checkInstances E request rest = Allowed f False"
    and "\<forall>b j. parse_json E b = Some j \<longrightarrow> wf_json j"
    and "\<forall>p doc. read_current E p = Some doc \<longrightarrow> wf_json (JObj doc)"
  shows "(rest = [] \<and> req_method request = POST \<longrightarrow>
           (\<exists>body. f = JsonBody body \<and> js_get body ''start'' \<noteq> Some (JBool True)))
     \<and> (\<forall>name. rest = [name, ''state''] \<and> req_method request = PUT \<longrightarrow>
           (\<exists>body a. f = JsonBody body \<and> js_get body ''action'' = Some (JStr a) \<and> a \<in> {''stop'', ''freeze''}))
     \<and> (\<forall>name. rest = [name] \<and> req_method request \<in> {PUT, PATCH} \<longrightarrow>
           (\<exists>body cur. f = JsonBody body
              \<and> read_current E (''/1.0/instances/'' @ encode_uri_component name) = Some cur
              \<and> ((\<exists>st. js_get cur ''status'' = Some st \<and> reads_stopped st)
                 \<or> (\<forall>ds n d. js_get body ''devices'' = Some (JObj ds) \<longrightarrow> (n, JObj d) \<in> set ds \<longrightarrow>
                      js_get d ''type'' = Some (JStr ''nic'') \<longrightarrow>
                      (\<exists>before nic. js_get cur ''devices'' = Some (JObj before)
                         \<and> js_get before n = Some (JObj nic) \<and> map_of nic = map_of d)))))"
  using checkInstances_unflagged [OF assms] .


subsection \<open>Reachable targets\<close>

text \<open>The only Incus resources a request other than GET can address.\<close>

definition writable_target :: "http_method \<Rightarrow> string list \<Rightarrow> bool" where
  "writable_target m segs \<longleftrightarrow>
     segs = [''1.0'', ''instances''] \<and> m = POST
   \<or> (\<exists>name. isManagedInstance (Some name) \<and>
        (segs = [''1.0'', ''instances'', name]
         \<or> (\<exists>leaf \<in> {''state'', ''exec'', ''files''}. segs = [''1.0'', ''instances'', name, leaf])))
   \<or> (\<exists>pool. segs = [''1.0'', ''storage-pools'', pool, ''volumes''] \<and> m = POST)
   \<or> (\<exists>pool. segs = [''1.0'', ''storage-pools'', pool, ''volumes'', ''custom''] \<and> m = POST)
   \<or> (\<exists>pool name. segs = [''1.0'', ''storage-pools'', pool, ''volumes'', ''custom'', name]
        \<and> MANAGED_VOLUME_NAME_PATTERN name \<and> m \<noteq> POST)
   \<or> segs = [''1.0'', ''images''] \<and> m = POST
   \<or> segs = [''1.0'', ''images'', ''aliases''] \<and> m = POST
   \<or> (\<exists>al. segs = [''1.0'', ''images'', ''aliases'', al] \<and> m = DELETE)
   \<or> (\<exists>fp. segs = [''1.0'', ''images'', fp] \<and> IMAGE_FINGERPRINT_PATTERN fp \<and> m = DELETE)"

lemma checkInstances_target:
  assumes "checkInstances E request rest = Allowed f up" "req_method request \<noteq> GET"
  shows "writable_target (req_method request) (''1.0'' # ''instances'' # rest)"
proof (cases rest)
  case Nil
  then show ?thesis using assms by (auto simp: checkInstances_def writable_target_def split: if_split_asm)
next
  case (Cons name leaves)
  have m: "isManagedInstance (Some name)" "length leaves \<le> 1"
    using assms Cons by (auto simp: checkInstances_def split: if_split_asm)
  show ?thesis
  proof (cases leaves)
    case Nil
    with m Cons show ?thesis by (simp add: writable_target_def)
  next
    case (Cons leaf tail)
    with m \<open>rest = name # leaves\<close> assms have "leaf \<in> {''state'', ''exec'', ''files''}" "tail = []"
      by (auto simp: checkInstances_def checkInstanceLeaf_def Let_def split: if_split_asm)
    with m Cons \<open>rest = name # leaves\<close> show ?thesis by (simp add: writable_target_def)
  qed
qed

lemma seg_Some: "seg xs i = Some x \<longleftrightarrow> i < length xs \<and> xs ! i = x"
  by (auto simp: seg_def)

lemma list_upto4:
  assumes "length xs \<le> 4" "1 < length xs"
  shows "xs = [xs ! 0, xs ! 1] \<or> xs = [xs ! 0, xs ! 1, xs ! 2] \<or> xs = [xs ! 0, xs ! 1, xs ! 2, xs ! 3]"
proof -
  obtain a b ys where "xs = a # b # ys" using assms(2) by (cases xs; cases "tl xs") auto
  moreover from this assms(1) have "ys = [] \<or> (\<exists>c. ys = [c]) \<or> (\<exists>c d. ys = [c, d])"
    by (cases ys; cases "tl ys") auto
  ultimately show ?thesis by auto
qed


lemma checkStoragePools_target:
  assumes "checkStoragePools E request rest = Allowed f up" "req_method request \<noteq> GET"
  shows "writable_target (req_method request) (''1.0'' # ''storage-pools'' # rest)"
proof -
  have len: "length rest \<le> 4" "1 < length rest" "rest ! 1 = ''volumes''"
    using assms by (auto simp: checkStoragePools_def seg_Some split: if_split_asm)
  consider "rest = [rest ! 0, ''volumes'']" | "rest = [rest ! 0, ''volumes'', rest ! 2]"
    | "rest = [rest ! 0, ''volumes'', rest ! 2, rest ! 3]"
    using list_upto4 [OF len(1,2)] len(3) by metis
  then show ?thesis
  proof cases
    case 1
    have "req_method request = POST"
      using assms by (subst (asm) 1) (auto simp: checkStoragePools_def seg_def split: if_split_asm)
    then show ?thesis by (subst 1) (simp add: writable_target_def)
  next
    case 2
    have "req_method request = POST" "rest ! 2 = ''custom''"
      using assms by (subst (asm) 2, force simp: checkStoragePools_def seg_def split: if_split_asm)+
    then show ?thesis by (subst 2) (simp add: writable_target_def)
  next
    case 3
    have "rest ! 2 = ''custom''" "MANAGED_VOLUME_NAME_PATTERN (rest ! 3)" "req_method request \<noteq> POST"
      using assms by (subst (asm) 3, force simp: checkStoragePools_def seg_def split: if_split_asm)+
    then show ?thesis by (subst 3) (simp add: writable_target_def)
  qed
qed

lemma checkImages_target:
  assumes "checkImages E request rest = Allowed f up" "req_method request \<noteq> GET"
  shows "writable_target (req_method request) (''1.0'' # ''images'' # rest)"
proof -
  consider "rest = []" | a where "rest = [a]" | a b where "rest = [a, b]" | "2 < length rest"
    by (cases rest; cases "tl rest"; cases "tl (tl rest)") auto
  then show ?thesis
    using assms by cases (auto simp: checkImages_def seg_def writable_target_def split: if_split_asm)
qed

lemma checkOperations_target:
  assumes "fst (checkOperations knows m rest l) = Allowed f up"
  shows "m = GET \<and> f = NoBody \<and> \<not> up \<and> (\<exists>oid. (rest = [oid] \<or> rest = [oid, ''wait''])
    \<and> OPERATION_ID_PATTERN oid \<and> fst (knows l oid))"
proof (cases rest)
  case Nil
  then show ?thesis using assms by (simp add: checkOperations_def)
next
  case (Cons oid leaves)
  then show ?thesis using assms
    by (cases leaves) (auto simp: checkOperations_def split: if_split_asm prod.splits)
qed

text \<open>Where an allowed request goes: the collection's own check allowed it.\<close>

lemma checkIncusHttp_allowed:
  assumes "fst (checkIncusHttp E knows request l) = Allowed f up"
  obtains segs query where "parseIncusPath (req_path request) = Some (segs, query)"
    "segs = ''1.0'' # tl segs"
    "\<And>rest. tl segs = ''instances'' # rest \<Longrightarrow> checkInstances E request rest = Allowed f up"
    "\<And>rest. tl segs = ''storage-pools'' # rest \<Longrightarrow> checkStoragePools E request rest = Allowed f up"
    "\<And>rest. tl segs = ''images'' # rest \<Longrightarrow> checkImages E request rest = Allowed f up"
    "\<And>rest. tl segs = ''operations'' # rest \<Longrightarrow>
       fst (checkOperations knows (req_method request) rest l) = Allowed f up"
    "req_method request \<noteq> GET \<Longrightarrow> \<exists>c rest. tl segs = c # rest
       \<and> c \<in> {''instances'', ''storage-pools'', ''images'', ''operations''}"
    "up \<Longrightarrow> \<exists>c rest. tl segs = c # rest \<and> c \<in> {''instances'', ''storage-pools'', ''images'', ''operations''}"
proof -
  obtain segs query where p: "parseIncusPath (req_path request) = Some (segs, query)"
    using assms by (auto simp: checkIncusHttp_def split: option.splits)
  have "seg segs 0 = Some ''1.0''" using assms p by (auto simp: checkIncusHttp_def split: if_split_asm)
  moreover from this have "segs = ''1.0'' # tl segs" by (cases segs) (auto simp: seg_Some)
  ultimately show thesis using assms p that [of segs query]
    by (cases "tl segs") (auto simp: checkIncusHttp_def ALLOW_eq split: if_split_asm)
qed

lemma checkIncusHttp_writes:
  assumes "fst (checkIncusHttp E knows request l) = Allowed f up" "req_method request \<noteq> GET"
    and "parseIncusPath (req_path request) = Some (segs, query)"
  shows "writable_target (req_method request) segs"
proof -
  obtain segs' query' where p: "parseIncusPath (req_path request) = Some (segs', query')"
      and hd: "segs' = ''1.0'' # tl segs'"
      and checks: "\<And>rest. tl segs' = ''instances'' # rest \<Longrightarrow> checkInstances E request rest = Allowed f up"
        "\<And>rest. tl segs' = ''storage-pools'' # rest \<Longrightarrow> checkStoragePools E request rest = Allowed f up"
        "\<And>rest. tl segs' = ''images'' # rest \<Longrightarrow> checkImages E request rest = Allowed f up"
        "\<And>rest. tl segs' = ''operations'' # rest \<Longrightarrow>
           fst (checkOperations knows (req_method request) rest l) = Allowed f up"
      and c: "\<exists>c rest. tl segs' = c # rest
        \<and> c \<in> {''instances'', ''storage-pools'', ''images'', ''operations''}"
    using assms(1) by (rule checkIncusHttp_allowed) (use assms(2) in blast)
  obtain c rest where t: "tl segs' = c # rest" "c \<in> {''instances'', ''storage-pools'', ''images'', ''operations''}"
    using c by blast
  have segs: "segs' = ''1.0'' # c # rest" using hd t by simp
  have "writable_target (req_method request) segs'"
    unfolding segs using t checks assms(2) checkOperations_target [of knows "req_method request" rest l f up]
    by (auto simp: checkInstances_target checkStoragePools_target checkImages_target)
  with p assms(3) show ?thesis by simp
qed

text \<open>C12. A request that is not a GET is only ever forwarded to a managed instance or one of its
  state, exec and files leaves, to the creation of an instance, a volume, an image or an alias, to a
  managed custom volume, or to the deletion of an image or an alias: no other target is forwarded,
  in the segments as the policy decodes them.\<close>

theorem writes_stay_on_managed_resources:
  assumes "fst (checkIncusHttp E knows request l) = Allowed f up" "req_method request \<noteq> GET"
  shows "\<exists>segs query. parseIncusPath (req_path request) = Some (segs, query)
    \<and> writable_target (req_method request) segs"
proof -
  obtain segs query where "parseIncusPath (req_path request) = Some (segs, query)"
    using assms(1) by (rule checkIncusHttp_allowed)
  with checkIncusHttp_writes [OF assms] show ?thesis by blast
qed


subsection \<open>Paths\<close>

lemma decode_segments_elem:
  "decode_segments ss = Some ds \<Longrightarrow> d \<in> set ds \<Longrightarrow> \<exists>s \<in> set ss. decode_uri_component s = Some d"
  by (induction ss arbitrary: ds) (auto split: option.splits)

lemma parseIncusPath_Some:
  assumes "parseIncusPath path = Some (segs, query)"
  obtains raw where "raw \<in> set (split_char (CHR ''?'') path)" "starts_with ''/1.0'' raw"
    "\<forall>c \<in> set path. \<not> is_control c \<and> c \<noteq> CHR 0x5C \<and> c \<noteq> CHR ''#''"
    "\<not> str_includes ''%2e'' (to_lower raw)" "\<not> str_includes ''%5c'' (to_lower raw)"
    "\<not> str_includes ''%00'' (to_lower raw)"
    "\<forall>p \<in> set (split_char (CHR ''/'') raw). p \<notin> {''.'', ''..''}"
    "decode_segments (tl (split_char (CHR ''/'') raw)) = Some segs" "query_ok query"
proof -
  define raw where "raw = hd (split_char (CHR ''?'') path)"
  have "raw \<in> set (split_char (CHR ''?'') path)" by (simp add: raw_def)
  moreover have "starts_with ''/1.0'' raw"
    "\<forall>c \<in> set path. \<not> is_control c \<and> c \<noteq> CHR 0x5C \<and> c \<noteq> CHR ''#''"
    "\<not> str_includes ''%2e'' (to_lower raw)" "\<not> str_includes ''%5c'' (to_lower raw)"
    "\<not> str_includes ''%00'' (to_lower raw)"
    "\<forall>p \<in> set (split_char (CHR ''/'') raw). p \<notin> {''.'', ''..''}"
    "decode_segments (tl (split_char (CHR ''/'') raw)) = Some segs" "query_ok query"
    using assms unfolding parseIncusPath_def Let_def raw_def [symmetric]
    by (auto split: if_split_asm option.splits)
  ultimately show thesis by (rule that)
qed

lemma encoded_slash_climbs:
  "parseIncusPath ''/1.0/storage-pools/..%2F..%2Fcertificates'' = Some ([''1.0'', ''storage-pools'', ''../../certificates''], [])"
  by code_simp

text \<open>The policy lets a read of that path through.\<close>

lemma climbing_read_allowed:
  "req_method request = GET \<Longrightarrow> req_path request = ''/1.0/storage-pools/..%2F..%2Fcertificates'' \<Longrightarrow>
    fst (checkIncusHttp E lk request l) = Allowed NoBody False"
  by (simp add: checkIncusHttp_def encoded_slash_climbs checkStoragePools_def seg_def)

text \<open>C25. What the parser keeps out of a path, whatever percent-encoding the request used: no decoded segment contains a
  backslash or a NUL byte, and every query parameter is one of the allowed ones, with the default project only. Dot segments
  are kept out only as far as slashes are written as such: a decoded segment that has \<open>.\<close> or \<open>..\<close> between its slashes was
  written with an encoded slash, and such a path is accepted.\<close>

theorem parsed_path_safe:
  assumes "parseIncusPath path = Some (segs, query)"
  shows "(\<forall>s \<in> set segs. s \<notin> {''.'', ''..''} \<and> CHR 0x5C \<notin> set s \<and> CHR 0x00 \<notin> set s
       \<and> (CHR ''/'' \<in> set s \<longrightarrow> str_includes ''%2f'' (to_lower path))
       \<and> (set (split_char (CHR ''/'') s) \<inter> {''.'', ''..''} \<noteq> {} \<longrightarrow> CHR ''/'' \<in> set s))
    \<and> (\<forall>(key, v) \<in> set query. key \<in> set ALLOWED_QUERY_KEYS \<and> (key = ''project'' \<longrightarrow> v = ''default''))
    \<and> parseIncusPath ''/1.0/storage-pools/..%2F..%2Fcertificates'' = Some ([''1.0'', ''storage-pools'', ''../../certificates''], [])"
proof -
  obtain raw where raw: "raw \<in> set (split_char (CHR ''?'') path)"
      "\<forall>c \<in> set path. \<not> is_control c \<and> c \<noteq> CHR 0x5C \<and> c \<noteq> CHR ''#''"
      "\<not> str_includes ''%2e'' (to_lower raw)" "\<not> str_includes ''%5c'' (to_lower raw)"
      "\<not> str_includes ''%00'' (to_lower raw)"
      "\<forall>p \<in> set (split_char (CHR ''/'') raw). p \<notin> {''.'', ''..''}"
      "decode_segments (tl (split_char (CHR ''/'') raw)) = Some segs" "query_ok query"
    using assms by (rule parseIncusPath_Some)
  have "s \<notin> {''.'', ''..''} \<and> CHR 0x5C \<notin> set s \<and> CHR 0x00 \<notin> set s
      \<and> (CHR ''/'' \<in> set s \<longrightarrow> str_includes ''%2f'' (to_lower path))
      \<and> (set (split_char (CHR ''/'') s) \<inter> {''.'', ''..''} \<noteq> {} \<longrightarrow> CHR ''/'' \<in> set s)" if s: "s \<in> set segs" for s
  proof -
    obtain p where p: "p \<in> set (tl (split_char (CHR ''/'') raw))" "decode_uri_component p = Some s"
      using decode_segments_elem [OF raw(7) s] by blast
    then have p': "p \<in> set (split_char (CHR ''/'') raw)" by (metis list.set_sel(2) split_char_nonempty)
    then obtain a b where ab: "raw = a @ p @ b" using split_char_infix by blast
    obtain a' b' where ab': "path = a' @ raw @ b'" using split_char_infix [OF raw(1)] by blast
    have inc: "\<not> str_includes w (to_lower p)" if "\<not> str_includes w (to_lower raw)" for w
      using that unfolding ab to_lower_append str_includes_iff by (metis append.assoc)
    have sub: "set p \<subseteq> set path" unfolding ab' ab by auto
    have "p = s" if "s \<in> {''.'', ''..''}"
      by (rule decode_dots [OF p(2) _ inc [OF raw(3)]]) (use that in auto)
    then have "s \<notin> {''.'', ''..''}" using raw(6) p' by blast
    moreover have "CHR 0x5C \<notin> set s"
      using decode_byte [OF p(2), of "CHR 0x5C"] inc [OF raw(4)] sub raw(2)
      by (auto simp: hex_char_def char_of_def bit_0)
    moreover have "CHR 0x00 \<notin> set s"
    proof
      assume z: "CHR 0x00 \<in> set s"
      have "is_control (CHR 0x00)" by (simp add: is_control_def)
      then have "CHR 0x00 \<notin> set p" using sub raw(2) by blast
      moreover have "[CHR ''%'', hex_char (of_char (CHR 0x00) div 16), hex_char (of_char (CHR 0x00) mod 16)] = ''%00''"
        by (simp add: hex_char_def char_of_def bit_0)
      ultimately show False using decode_byte [OF p(2) z] inc [OF raw(5)] by simp
    qed
    moreover have "str_includes ''%2f'' (to_lower path)" if "CHR ''/'' \<in> set s"
    proof -
      have "str_includes ''%2f'' (to_lower p)"
        using decode_byte [OF p(2) that] split_char_no_sep [OF p'] by (simp add: hex_char_def char_of_def bit_0)
      then show ?thesis unfolding ab' ab to_lower_append str_includes_iff by (metis append.assoc)
    qed
    moreover have "CHR ''/'' \<in> set s" if "set (split_char (CHR ''/'') s) \<inter> {''.'', ''..''} \<noteq> {}"
      using that \<open>s \<notin> {''.'', ''..''}\<close> by (cases "CHR ''/'' \<in> set s") (auto simp: split_char_id)
    ultimately show ?thesis by blast
  qed
  moreover have "\<forall>(key, v) \<in> set query. key \<in> set ALLOWED_QUERY_KEYS \<and> (key = ''project'' \<longrightarrow> v = ''default'')"
    using raw(8) by (auto simp: query_ok_def list_all_iff)
  ultimately show ?thesis using encoded_slash_climbs by blast
qed



subsection \<open>Volumes\<close>

definition permitted_volume_key :: "string \<Rightarrow> bool" where
  "permitted_volume_key k \<longleftrightarrow> k \<in> {''size'', ''security.shifted''} \<or> starts_with ''block.'' k
     \<or> starts_with ''initial.'' k \<or> starts_with ''user.nyabase.'' k"

lemma checkVolumeConfig_entry:
  assumes "is_allowed (checkVolumeConfig (JObj cfg) cur)" "(k, v) \<in> set cfg"
  obtains t where "v = JStr t" "k = ''security.shifted'' \<longrightarrow> t = ''true''"
    "unchanged cur k t \<or> volatile_key k \<or> permitted_volume_key k"
proof -
  have "is_allowed (volume_config_round cur k v)"
    using assms by (auto simp: checkVolumeConfig_def first_denied_allowed)
  then obtain t where "v = JStr t" "is_allowed (volume_config_round cur k (JStr t))"
    by (cases v) (auto simp: volume_config_round_def)
  then show thesis using that [of t]
    by (cases "k = ''security.shifted''")
       (auto simp: volume_config_round_def permitted_volume_key_def volatile_key_def split: if_split_asm)
qed

lemma checkVolumeUpdate_allowed:
  assumes "checkVolumeUpdate E request pool name = Allowed f up"
  obtains body cur where "jsonBody (parse_json E) (req_body request) = Some body"
    "fieldsProblem body VOLUME_UPDATE_FIELDS ''volume'' = None"
    "read_current E (volume_path pool name) = Some cur"
    "req_method request = PUT \<longrightarrow> (\<exists>cfg. js_get body ''config'' = Some (JObj cfg)
        \<and> js_get cfg ''security.shifted'' = Some (JStr ''true''))"
    "is_allowed (checkVolumeConfig (nullish (js_get body ''config'') (JObj []))
       (Some (stringMap (js_get cur ''config''))))"
    "withCurrentVolatile body (stringMap (js_get cur ''config'')) False = Allowed f up"
proof -
  obtain body cur where b: "jsonBody (parse_json E) (req_body request) = Some body"
    "fieldsProblem body VOLUME_UPDATE_FIELDS ''volume'' = None"
    "read_current E (volume_path pool name) = Some cur"
    using assms by (auto simp: checkVolumeUpdate_def split: option.splits)
  have "req_method request = PUT \<longrightarrow> (\<exists>cfg. js_get body ''config'' = Some (JObj cfg)
        \<and> js_get cfg ''security.shifted'' = Some (JStr ''true''))"
    using assms by (auto simp: checkVolumeUpdate_def b split: if_split_asm option.splits json.splits)
  moreover have "is_allowed (checkVolumeConfig (nullish (js_get body ''config'') (JObj []))
       (Some (stringMap (js_get cur ''config''))))"
    "withCurrentVolatile body (stringMap (js_get cur ''config'')) False = Allowed f up"
    using assms by (auto simp: checkVolumeUpdate_def b Let_def split: if_split_asm)
  ultimately show thesis using that b by blast
qed

text \<open>Whatever an update of a volume says, what the agent forwards carries only config entries
  that are exactly what Incus holds now or keys a tenant volume may set, never anything but a shifted
  volume, and a whole-config update keeps the volume shifted.\<close>

theorem updated_volume_confined:
  assumes "checkStoragePools E request [pool, ''volumes'', ''custom'', name] = Allowed f up"
    and "req_method request \<in> {PUT, PATCH}"
  shows "\<exists>body cur. MANAGED_VOLUME_NAME_PATTERN name \<and> f = JsonBody body \<and> \<not> up
      \<and> read_current E (volume_path pool name) = Some cur
      \<and> (\<forall>cfg. js_get body ''config'' = Some (JObj cfg) \<longrightarrow> (\<forall>(k, v) \<in> set cfg. \<exists>t. v = JStr t
           \<and> (k = ''security.shifted'' \<longrightarrow> t = ''true'')
           \<and> (map_of (stringMap (js_get cur ''config'')) k = Some t
              \<or> \<not> volatile_key k \<and> permitted_volume_key k)))
      \<and> (req_method request = PUT \<longrightarrow> (\<exists>cfg. js_get body ''config'' = Some (JObj cfg)
           \<and> js_get cfg ''security.shifted'' = Some (JStr ''true'')))"
proof -
  have m: "MANAGED_VOLUME_NAME_PATTERN name" and "checkVolumeUpdate E request pool name = Allowed f up"
    using assms by (auto simp: checkStoragePools_def seg_def split: if_split_asm)
  from this(2) obtain body cur where b: "fieldsProblem body VOLUME_UPDATE_FIELDS ''volume'' = None"
    "read_current E (volume_path pool name) = Some cur"
    "req_method request = PUT \<longrightarrow> (\<exists>cfg. js_get body ''config'' = Some (JObj cfg)
        \<and> js_get cfg ''security.shifted'' = Some (JStr ''true''))"
    "is_allowed (checkVolumeConfig (nullish (js_get body ''config'') (JObj []))
       (Some (stringMap (js_get cur ''config''))))"
    "withCurrentVolatile body (stringMap (js_get cur ''config'')) False = Allowed f up"
    by (rule checkVolumeUpdate_allowed)
  define now where "now = stringMap (js_get cur ''config'')"
  have shifted: "\<not> volatile_key ''security.shifted''" by (simp add: volatile_key_def)
  have entry: "\<exists>t. v = JStr t \<and> (k = ''security.shifted'' \<longrightarrow> t = ''true'')
      \<and> (map_of now k = Some t \<or> \<not> volatile_key k \<and> permitted_volume_key k)"
    if "js_get body ''config'' = Some (JObj cfg)" "(k, v) \<in> set (restore_volatile now cfg)" for cfg k v
    using restore_volatile_entry [OF that(2)]
  proof
    assume k: "\<not> volatile_key k \<and> (k, v) \<in> set cfg"
    have "is_allowed (checkVolumeConfig (JObj cfg) (Some now))"
      using b(4) that(1) by (simp add: nullish_def now_def)
    then show ?thesis
      by (rule checkVolumeConfig_entry [OF _ conjunct2 [OF k]]) (use k in \<open>auto simp: unchanged_def\<close>)
  qed (use shifted in auto)
  show ?thesis
  proof (cases "\<exists>cfg. js_get body ''config'' = Some (JObj cfg)")
    case True
    then obtain cfg where c: "js_get body ''config'' = Some (JObj cfg)" by blast
    define body' where "body' = AList.update ''config'' (JObj (restore_volatile now cfg)) body"
    have f: "f = JsonBody body'" "\<not> up" using b(5) c by (auto simp: withCurrentVolatile_eq body'_def now_def)
    have c': "js_get body' ''config'' = Some (JObj (restore_volatile now cfg))" by (simp add: body'_def)
    have put: "req_method request = PUT \<longrightarrow> js_get (restore_volatile now cfg) ''security.shifted'' = Some (JStr ''true'')"
      using b(3) c shifted by (auto simp: restore_volatile_get)
    have "\<forall>(k, v) \<in> set (restore_volatile now cfg). \<exists>t. v = JStr t \<and> (k = ''security.shifted'' \<longrightarrow> t = ''true'')
      \<and> (map_of now k = Some t \<or> \<not> volatile_key k \<and> permitted_volume_key k)"
      using entry [OF c] by blast
    then show ?thesis using m f b(2) c' put unfolding now_def by (intro exI [of _ body'] exI [of _ cur]) simp
  next
    case False
    then have "withCurrentVolatile body (stringMap (js_get cur ''config'')) False = forward body False"
      by (auto simp: withCurrentVolatile_eq split: option.splits json.splits)
    then have "f = JsonBody body" "\<not> up" using b(5) by (auto simp: forward_def serialize_def)
    then show ?thesis using m b(2,3) False by blast
  qed
qed

text \<open>The encoded slash: a decoded segment can contain a path separator.\<close>

theorem encoded_slash_accepted:
  "parseIncusPath ''/1.0/storage-pools/a%2Fb'' = Some ([''1.0'', ''storage-pools'', ''a/b''], [])"
  by (simp add: parseIncusPath_def Let_def is_control_def to_lower_def lower_char_def is_upper_def
      decode_uri_component.simps hex_val_def is_digit_def is_lower_hex_def char_of_def bit_0
      search_params_def query_ok_def)


subsection \<open>Witnesses\<close>

text \<open>A start of a managed instance, its document, and a volume.\<close>

definition sample_id :: string where
  "sample_id = ''0123456789abcdef0123456789abcdef''"

definition sample_nic :: json where
  "sample_nic = JObj [(''type'', JStr ''nic''), (''nictype'', JStr ''bridged''), (''parent'', JStr ''br0''),
     (''host_name'', JStr ''nyh0123456789ab''), (''ipv4.address'', JStr ''10.0.0.2''),
     (''security.ipv4_filtering'', JStr ''true''), (''security.mac_filtering'', JStr ''true'')]"

definition sample_devices :: js_object where
  "sample_devices = [(''root'', JObj [(''type'', JStr ''disk''), (''path'', JStr ''/''), (''pool'', JStr ''p'')]),
     (''eth0'', sample_nic),
     (''nyd-'' @ sample_id, JObj [(''type'', JStr ''disk''), (''path'', JStr ''/data''), (''pool'', JStr ''p''),
        (''source'', JStr (''nyv-'' @ sample_id))])]"

definition sample_config :: js_object where
  "sample_config = [(''security.idmap.isolated'', JStr ''true''), (''limits.cpu'', JStr ''0-3''),
     (''limits.memory'', JStr ''4GiB'')]"

definition sample_create :: js_object where
  "sample_create = [(''name'', JStr (''nyc-'' @ sample_id)), (''profiles'', JArr []),
     (''source'', JObj [(''type'', JStr ''image''), (''fingerprint'', JStr ''ab'')]),
     (''config'', JObj sample_config), (''devices'', JObj sample_devices), (''start'', JBool True)]"

definition sample_update :: js_object where
  "sample_update = [(''config'', JObj ((''volatile.idmap.base'', JStr ''0'') # sample_config)),
     (''devices'', JObj sample_devices), (''profiles'', JArr [])]"

definition sample_volume_update :: js_object where
  "sample_volume_update = [(''config'', JObj [(''size'', JStr ''1GiB''), (''security.shifted'', JStr ''true'')])]"

definition sample_current :: js_object where
  "sample_current = [(''config'', JObj [(''volatile.idmap.base'', JStr ''1000000'')]),
     (''devices'', JObj sample_devices), (''status'', JStr ''Running'')]"

definition sample_env :: "js_object \<Rightarrow> policy_env" where
  "sample_env doc = \<lparr>parse_json = (\<lambda>_. Some (JObj doc)), parse_url = (\<lambda>_. None),
     read_current = (\<lambda>_. Some sample_current)\<rparr>"

definition sample_request :: "http_method \<Rightarrow> string \<Rightarrow> policy_request" where
  "sample_request m p = \<lparr>req_method = m, req_path = p, req_body = Some ''{}''\<rparr>"

lemma sample_hex: "list_all is_lower_hex sample_id" "length sample_id = 32" "starts_with [] s"
  by (simp_all add: sample_id_def is_lower_hex_def is_digit_def)

lemma sample_names:
  "MANAGED_INSTANCE_NAME_PATTERN (''nyc-'' @ sample_id)" "MANAGED_VOLUME_NAME_PATTERN (''nyv-'' @ sample_id)"
  "MANAGED_ATTACHMENT_DEVICE_PATTERN (''nyd-'' @ sample_id)" "MANAGED_NIC_HOST_NAME_PATTERN ''nyh0123456789ab''"
  by (simp_all add: MANAGED_INSTANCE_NAME_PATTERN_def MANAGED_VOLUME_NAME_PATTERN_def
      MANAGED_ATTACHMENT_DEVICE_PATTERN_def MANAGED_NIC_HOST_NAME_PATTERN_def hex_name_def sample_hex
      is_lower_hex_def is_digit_def)

lemma sample_devices_allowed:
  "is_allowed (devices_part [(''devices'', JObj sample_devices)] opts)"
  using sample_names
  by (simp add: devices_part_def sample_devices_def sample_nic_def checkDevice_def stringMap_def Let_def
      checkDisk_def checkNic_def onlyKeys_def DISK_KEYS_def NIC_KEYS_def text_or_empty_def
      isForbiddenContainerMountPath_def FORBIDDEN_CONTAINER_MOUNT_ROOTS_def is_control_def)

lemma devices_part_cong: "js_get b ''devices'' = js_get b' ''devices'' \<Longrightarrow> devices_part b opts = devices_part b' opts"
  by (simp add: devices_part_def)

lemma sample_config_allowed:
  "is_allowed (checkInstanceConfig sample_config opts)"
  "is_allowed (checkInstanceConfig ((''volatile.idmap.base'', JStr ''0'') # sample_config) opts)"
  by (simp_all add: sample_config_def checkInstanceConfig_def Let_def config_round_def checkConfigEntry_def
      volatile_key_def CPUSET_PATTERN_def is_cpu_range_def all_digits_def is_limit_value_def is_digit_def)

lemma sample_create_allowed:
  "checkInstances (sample_env sample_create) (sample_request POST p) [] = Allowed (JsonBody sample_create) True"
proof -
  have d: "is_allowed (devices_part sample_create \<lparr>full = True, current = None\<rparr>)"
    by (subst devices_part_cong [of _ "[(''devices'', JObj sample_devices)]"])
       (simp_all add: sample_create_def sample_devices_allowed)
  have c: "is_allowed (config_part sample_create \<lparr>full = True, current = None\<rparr>)"
    by (simp add: config_part_def sample_create_def sample_config_allowed)
  have doc: "is_allowed (checkInstanceDocument sample_create \<lparr>full = True, current = None\<rparr>)"
    using c d by (simp add: checkInstanceDocument_def) (simp add: sample_create_def)
  have v: "\<not> sets_volatile sample_create"
    by (simp add: sets_volatile_def sample_create_def sample_config_def volatile_key_def)
  show ?thesis using doc v sample_names
    by (simp add: checkInstances_def checkInstanceCreate_def sample_env_def sample_request_def jsonBody_def Let_def)
       (simp add: sample_create_def INSTANCE_CREATE_FIELDS_def INSTANCE_SOURCE_FIELDS_def stringField_def
         isManagedInstance_def imageServerProblem_def)
qed

theorem created_instance_confined_witness:
  "\<exists>body cfg ds name. JsonBody sample_create = JsonBody body \<and> js_get body ''name'' = Some (JStr name)
      \<and> isManagedInstance (Some name)
      \<and> js_get body ''type'' \<in> {None, Some (JStr ''container'')}
      \<and> js_get body ''profiles'' = Some (JArr [])
      \<and> js_get body ''config'' = Some (JObj cfg) \<and> confined_config cfg
      \<and> js_get body ''devices'' = Some (JObj ds) \<and> (\<forall>(n, d) \<in> set ds. confined_device n d)
      \<and> set (keys body) \<subseteq> set (keys INSTANCE_CREATE_FIELDS)
      \<and> (True \<longleftrightarrow> js_get body ''start'' = Some (JBool True))"
  by (rule created_instance_confined [OF sample_create_allowed [of "''/1.0/instances''"]])
     (simp add: sample_request_def)


definition sample_forwarded :: js_object where
  "sample_forwarded = [(''config'', JObj ((''volatile.idmap.base'', JStr ''1000000'') # sample_config)),
     (''devices'', JObj sample_devices), (''profiles'', JArr [])]"

lemma same_sample_nic: "sameStringMap (case sample_nic of JObj d \<Rightarrow> d) (Some sample_nic)"
  by (simp add: sample_nic_def sameStringMap_def)

lemma sample_update_keeps_nic: "\<not> bringsNicUp sample_update sample_current"
  using same_sample_nic
  by (auto simp: bringsNicUp_def sample_update_def sample_current_def sample_devices_def to_lower_def
      lower_char_def is_upper_def char_of_def bit_0 Let_def sample_nic_def)

lemma sample_update_allowed:
  "checkInstances (sample_env sample_update) (sample_request PUT p) [''nyc-'' @ sample_id]
     = Allowed (JsonBody sample_forwarded) False"
proof -
  define opts where "opts = \<lparr>full = True, current = Some (stringMap (js_get sample_current ''config''))\<rparr>"
  have d: "is_allowed (devices_part sample_update opts)"
    by (subst devices_part_cong [of _ "[(''devices'', JObj sample_devices)]"])
       (simp_all add: sample_update_def sample_devices_allowed)
  have c: "is_allowed (config_part sample_update opts)"
    by (simp add: config_part_def sample_update_def sample_config_allowed)
  have doc: "is_allowed (checkInstanceDocument sample_update opts)"
    using c d by (simp add: checkInstanceDocument_def) (simp add: sample_update_def)
  have w: "withCurrentVolatile sample_update (stringMap (js_get sample_current ''config'')) False
      = Allowed (JsonBody sample_forwarded) False"
    by (simp add: withCurrentVolatile_def sample_update_def sample_current_def stringMap_def sample_config_def
        volatile_key_def sample_forwarded_def)
  show ?thesis using doc w sample_names sample_update_keeps_nic
    by (simp add: checkInstances_def checkInstanceUpdate_def sample_env_def sample_request_def jsonBody_def
        Let_def opts_def isManagedInstance_def)
       (simp add: sample_update_def INSTANCE_UPDATE_FIELDS_def)
qed

theorem updated_instance_confined_witness:
  "\<exists>body cur. isManagedInstance (Some (''nyc-'' @ sample_id))
      \<and> read_current (sample_env sample_update)
          (''/1.0/instances/'' @ encode_uri_component (''nyc-'' @ sample_id)) = Some cur
      \<and> JsonBody sample_forwarded = JsonBody body
      \<and> js_get body ''profiles'' \<in> {None, Some (JArr [])}
      \<and> (\<forall>cfg. js_get body ''config'' = Some (JObj cfg) \<longrightarrow> (\<forall>(k, v) \<in> set cfg. \<exists>t. v = JStr t \<and>
            (map_of (stringMap (js_get cur ''config'')) k = Some t
             \<or> \<not> volatile_key k \<and> permitted_setting k t)))
      \<and> (\<forall>ds. js_get body ''devices'' = Some (JObj ds) \<longrightarrow> (\<forall>(n, d) \<in> set ds. confined_device n d))
      \<and> (req_method (sample_request PUT []) = PUT \<longrightarrow>
           (\<exists>cfg ds. js_get body ''config'' = Some (JObj cfg) \<and> js_get body ''devices'' = Some (JObj ds)
              \<and> js_get cfg ''security.idmap.isolated'' = Some (JStr ''true'')
              \<and> js_get cfg ''security.privileged'' \<in> {None, Some (JStr ''false'')}))"
  by (rule updated_instance_confined [OF sample_update_allowed]) (simp add: sample_request_def)

lemma sample_wf:
  "parse_json (sample_env sample_update) b = Some j \<Longrightarrow> wf_json j"
  "read_current (sample_env sample_update) q = Some doc \<Longrightarrow> wf_json (JObj doc)"
  by (auto simp: sample_env_def sample_update_def sample_current_def sample_devices_def sample_nic_def
      sample_config_def)

theorem unflagged_raises_no_nic_witness:
  "\<exists>body cur. JsonBody sample_forwarded = JsonBody body
      \<and> read_current (sample_env sample_update) (''/1.0/instances/'' @ encode_uri_component (''nyc-'' @ sample_id))
          = Some cur
      \<and> ((\<exists>st. js_get cur ''status'' = Some st \<and> reads_stopped st)
         \<or> (\<forall>ds n d. js_get body ''devices'' = Some (JObj ds) \<longrightarrow> (n, JObj d) \<in> set ds \<longrightarrow>
              js_get d ''type'' = Some (JStr ''nic'') \<longrightarrow>
              (\<exists>before nic. js_get cur ''devices'' = Some (JObj before)
                 \<and> js_get before n = Some (JObj nic) \<and> map_of nic = map_of d)))"
proof -
  have "\<forall>b j. parse_json (sample_env sample_update) b = Some j \<longrightarrow> wf_json j"
    "\<forall>p doc. read_current (sample_env sample_update) p = Some doc \<longrightarrow> wf_json (JObj doc)"
    using sample_wf by blast+
  from unflagged_raises_no_nic [OF sample_update_allowed [of "[]"] this, THEN conjunct2, THEN conjunct2,
      THEN spec [of _ "''nyc-'' @ sample_id"]]
  show ?thesis by (simp add: sample_request_def del: wf_json.simps)
qed

lemma sample_path:
  "parseIncusPath (''/1.0/instances/nyc-0123456789abcdef0123456789abcdef?project=default'')
     = Some ([''1.0'', ''instances'', ''nyc-'' @ sample_id], [(''project'', ''default'')])"
  by (simp add: parseIncusPath_def Let_def is_control_def to_lower_def lower_char_def is_upper_def
      decode_uri_component_plain search_params_def query_ok_def form_decode.simps ALLOWED_QUERY_KEYS_def
      sample_id_def char_of_def bit_0)

theorem writes_stay_on_managed_resources_witness:
  "\<exists>segs query. parseIncusPath (req_path (sample_request DELETE
        ''/1.0/instances/nyc-0123456789abcdef0123456789abcdef?project=default'')) = Some (segs, query)
    \<and> writable_target (req_method (sample_request DELETE
        ''/1.0/instances/nyc-0123456789abcdef0123456789abcdef?project=default'')) segs"
  by (rule writes_stay_on_managed_resources [of "sample_env []" "\<lambda>l oid. (False, l)" _ "()" NoBody False])
     (use sample_path sample_names in \<open>simp_all add: checkIncusHttp_def sample_request_def seg_def
        checkInstances_def isManagedInstance_def Let_def\<close>)

theorem parsed_path_safe_witness:
  "parseIncusPath ''/1.0/instances/nyc-0123456789abcdef0123456789abcdef?project=default''
     = Some ([''1.0'', ''instances'', ''nyc-'' @ sample_id], [(''project'', ''default'')])
   \<and> CHR 0x5C \<notin> set (''nyc-'' @ sample_id) \<and> CHR 0x00 \<notin> set (''nyc-'' @ sample_id)
   \<and> ''nyc-'' @ sample_id \<notin> {''.'', ''..''} \<and> ''project'' \<in> set ALLOWED_QUERY_KEYS"
  using sample_path parsed_path_safe [OF sample_path] by simp

theorem updated_volume_confined_witness:
  "\<exists>body cur. MANAGED_VOLUME_NAME_PATTERN (''nyv-'' @ sample_id)
      \<and> JsonBody sample_volume_update = JsonBody body \<and> \<not> False
      \<and> read_current (sample_env sample_volume_update) (volume_path ''p'' (''nyv-'' @ sample_id)) = Some cur
      \<and> (\<forall>cfg. js_get body ''config'' = Some (JObj cfg) \<longrightarrow> (\<forall>(k, v) \<in> set cfg. \<exists>t. v = JStr t
           \<and> (k = ''security.shifted'' \<longrightarrow> t = ''true'')
           \<and> (map_of (stringMap (js_get cur ''config'')) k = Some t
              \<or> \<not> volatile_key k \<and> permitted_volume_key k)))
      \<and> (req_method (sample_request PUT []) = PUT \<longrightarrow> (\<exists>cfg. js_get body ''config'' = Some (JObj cfg)
           \<and> js_get cfg ''security.shifted'' = Some (JStr ''true'')))"
  by (rule updated_volume_confined)
     (use sample_names in \<open>simp_all add: checkStoragePools_def sample_request_def seg_def checkVolumeUpdate_def
        sample_env_def jsonBody_def sample_volume_update_def VOLUME_UPDATE_FIELDS_def nullish_def
        checkVolumeConfig_def volume_config_round_def volatile_key_def withCurrentVolatile_def Let_def\<close>)

end
