(* ===== verification/Ipv4.thy ===== *)
theory Ipv4
  imports Prelude "HOL-Library.Word"
begin

text \<open>
  IPv4 addresses and CIDR blocks, \<open>packages/common/src/utils.ts\<close>.

  Parsing shifts and adds in 32-bit integers (\<open><<\<close>, \<open>>>>\<close>), so the accumulator of \<open>ipToNum\<close> is a
  \<open>32 word\<close>; everything after that is arithmetic on numbers below \<open>2 ^ 53\<close>, exact in the
  source, and on \<open>nat\<close> here. The regular expressions are read as conditions on the parts of the
  split text.
\<close>

datatype ip_error =
    InvalidAddress string
  | InvalidOctet string
  | InvalidNumber int
  | InvalidCidr string
  | InvalidPrefixLength string


subsection \<open>Addresses\<close>

definition is_octet_text :: "string \<Rightarrow> bool" where
  "is_octet_text p \<longleftrightarrow> 1 \<le> length p \<and> length p \<le> 3 \<and> list_all is_digit p"

text \<open>\<open>IPV4_REGEX.exec(ip)\<close>: the four captured groups.\<close>

definition match_ipv4 :: "string \<Rightarrow> string list option" where
  "match_ipv4 ip = (let ps = split_char (CHR ''.'') ip
     in if length ps = 4 \<and> list_all is_octet_text ps then Some ps else None)"

text \<open>The loop of \<open>ipToNum\<close> over the groups.\<close>

fun ip_accumulate :: "string \<Rightarrow> string list \<Rightarrow> 32 word \<Rightarrow> ip_error + 32 word" where
  "ip_accumulate ip [] v = Inr v"
| "ip_accumulate ip (p # ps) v =
     (let octet = digits_val p
      in if octet > 255 then Inl (InvalidOctet ip)
         else ip_accumulate ip ps (push_bit 8 v + of_nat octet))"

definition ipToNum :: "string \<Rightarrow> ip_error + nat" where
  "ipToNum ip = (case match_ipv4 ip of
     None \<Rightarrow> Inl (InvalidAddress ip)
   | Some ps \<Rightarrow> bind_res (ip_accumulate ip ps 0) (\<lambda>v. Inr (unat v)))"

definition numToIp :: "int \<Rightarrow> ip_error + string" where
  "numToIp value =
     (if value < 0 \<or> value > 0xffffffff then Inl (InvalidNumber value)
      else let v = nat value
           in Inr (join_str ''.'' [show_nat (v div 2 ^ 24 mod 256), show_nat (v div 2 ^ 16 mod 256),
                show_nat (v div 2 ^ 8 mod 256), show_nat (v mod 256)]))"

definition canonicalIpv4Address :: "string \<Rightarrow> ip_error + string" where
  "canonicalIpv4Address ip = bind_res (ipToNum ip) (\<lambda>n. numToIp (int n))"


subsection \<open>CIDR blocks\<close>

text \<open>\<open>CIDR_REGEX.exec(cidr)\<close>: the address text and the prefix-length text.\<close>

definition match_cidr :: "string \<Rightarrow> (string \<times> string) option" where
  "match_cidr cidr = (case split_char (CHR ''/'') cidr of
     [base, len] \<Rightarrow>
       if match_ipv4 base \<noteq> None \<and> 1 \<le> length len \<and> length len \<le> 2 \<and> list_all is_digit len
       then Some (base, len) else None
   | _ \<Rightarrow> None)"

definition parseCidr :: "string \<Rightarrow> ip_error + string \<times> nat" where
  "parseCidr cidr = (case match_cidr cidr of
     None \<Rightarrow> Inl (InvalidCidr cidr)
   | Some (base, len) \<Rightarrow>
       let prefixLen = digits_val len
       in if prefixLen > 32 then Inl (InvalidPrefixLength cidr)
          else bind_res (ipToNum base) (\<lambda>_. Inr (base, prefixLen)))"

record bounds =
  networkAddr :: nat
  broadcastAddr :: nat
  usableHosts :: nat

definition cidrBounds :: "string \<Rightarrow> nat \<Rightarrow> ip_error + bounds" where
  "cidrBounds base prefixLen = bind_res (ipToNum base) (\<lambda>baseNum.
     let hostBits = 32 - prefixLen;
         size = 2 ^ hostBits;
         network = baseNum div size * size
     in Inr \<lparr>networkAddr = network, broadcastAddr = network + size - 1,
             usableHosts = (if hostBits \<le> 1 then 0 else size - 2)\<rparr>)"

definition canonicalIpv4Cidr :: "string \<Rightarrow> ip_error + string" where
  "canonicalIpv4Cidr cidr = bind_res (parseCidr cidr) (\<lambda>(base, prefixLen).
     bind_res (cidrBounds base prefixLen) (\<lambda>b.
     bind_res (numToIp (int (networkAddr b))) (\<lambda>addr.
     Inr (addr @ ''/'' @ show_nat prefixLen))))"

definition ipv4CidrsOverlap :: "string \<Rightarrow> string \<Rightarrow> ip_error + bool" where
  "ipv4CidrsOverlap left right =
     bind_res (parseCidr left) (\<lambda>(lbase, llen).
     bind_res (parseCidr right) (\<lambda>(rbase, rlen).
     bind_res (cidrBounds lbase llen) (\<lambda>lb.
     bind_res (cidrBounds rbase rlen) (\<lambda>rb.
     Inr (networkAddr lb \<le> broadcastAddr rb \<and> networkAddr rb \<le> broadcastAddr lb)))))"

definition ipv4CidrContains :: "string \<Rightarrow> string \<Rightarrow> ip_error + bool" where
  "ipv4CidrContains outer inner =
     bind_res (parseCidr outer) (\<lambda>(obase, olen).
     bind_res (parseCidr inner) (\<lambda>(ibase, ilen).
     if ilen < olen then Inr False
     else bind_res (cidrBounds obase olen) (\<lambda>ob.
          bind_res (cidrBounds ibase ilen) (\<lambda>ib.
          Inr (networkAddr ib \<ge> networkAddr ob \<and> broadcastAddr ib \<le> broadcastAddr ob)))))"

definition isUsableHostInCidr :: "string \<Rightarrow> string \<Rightarrow> bool" where
  "isUsableHostInCidr cidr ip =
     (case bind_res (parseCidr cidr) (\<lambda>(base, prefixLen).
           bind_res (cidrBounds base prefixLen) (\<lambda>b.
           bind_res (ipToNum ip) (\<lambda>numeric.
           Inr (numeric > networkAddr b \<and> numeric < broadcastAddr b)))) of
        Inl _ \<Rightarrow> False
      | Inr r \<Rightarrow> r)"

lemmas ip_eval = ipToNum_def match_ipv4_def is_octet_text_def is_digit_def digits_val_def
  digit_val_def match_cidr_def parseCidr_def cidrBounds_def Let_def ipv4CidrsOverlap_def
  ipv4CidrContains_def isUsableHostInCidr_def canonicalIpv4Cidr_def numToIp_def digit_char_eval
  show_nat.simps


subsection \<open>The addresses of a block\<close>

text \<open>
  The specification side: a block denotes the set of 32-bit numbers that agree with its base
  address on the first \<open>prefixLen\<close> bits.
\<close>

definition block :: "nat \<Rightarrow> nat \<Rightarrow> nat set" where
  "block n len = {a. a < 2 ^ 32 \<and> a div 2 ^ (32 - len) = n div 2 ^ (32 - len)}"

definition cidr_addresses :: "string \<Rightarrow> nat set" where
  "cidr_addresses cidr = (case parseCidr cidr of
     Inl _ \<Rightarrow> {}
   | Inr (base, len) \<Rightarrow> (case ipToNum base of Inl _ \<Rightarrow> {} | Inr n \<Rightarrow> block n len))"

lemma ip_accumulate_octets:
  "\<lbrakk>\<forall>p \<in> set ps. digits_val p \<le> 255\<rbrakk> \<Longrightarrow>
   ip_accumulate ip ps v = Inr (foldl (\<lambda>v p. push_bit 8 v + of_nat (digits_val p)) v ps)"
  by (induction ps arbitrary: v) auto

lemma unat_lt32: "unat (w :: 32 word) < 2 ^ 32"
  using unsigned_less [of w] by simp

lemma ipToNum_lt: "ipToNum ip = Inr n \<Longrightarrow> n < 2 ^ 32"
  using unat_lt32 by (auto simp: ipToNum_def res_simps split: option.splits)

lemma unat_shift_add:
  assumes "unat v * 256 + d < 2 ^ 32"
  shows "unat (push_bit 8 v + of_nat d :: 32 word) = unat v * 256 + d"
proof -
  have "(push_bit 8 v + of_nat d :: 32 word) = of_nat (unat v * 256 + d)"
    by (simp add: push_bit_eq_mult mult.commute)
  with assms show ?thesis
    by (simp add: unat_of_nat take_bit_eq_mod del: of_nat_add of_nat_mult)
qed

lemma dotted_value:
  fixes v :: nat
  assumes "v < 2 ^ 32"
  shows "((v div 2 ^ 24 mod 256 * 256 + v div 2 ^ 16 mod 256) * 256 + v div 2 ^ 8 mod 256) * 256
           + v mod 256 = v"
proof -
  have top: "v div 2 ^ 24 mod 256 = v div 2 ^ 8 div 256 div 256"
    using assms by (simp flip: div_mult2_eq)
  have mid: "v div 2 ^ 16 = v div 2 ^ 8 div 256" by (simp flip: div_mult2_eq)
  have low: "v div 2 ^ 8 * 256 + v mod 256 = v" by simp
  show ?thesis by (simp only: top mid low div_mult_mod_eq)
qed

lemma octet_text: "n < 256 \<Longrightarrow> is_octet_text (show_nat n)"
  using length_show_nat [of n 2] show_nat_digits [of n]
  by (cases "show_nat n") (auto simp: is_octet_text_def list_all_iff)

lemma show_nat_no_char: "\<not> is_digit c \<Longrightarrow> c \<notin> set (show_nat n)"
  using show_nat_digits by blast

lemma not_digit_seps [simp]: "\<not> is_digit (CHR ''.'')" "\<not> is_digit (CHR ''/'')" "\<not> is_digit (CHR ''-'')"
  by (simp_all add: is_digit_def)

lemma match_ipv4_dotted:
  assumes "a < 256" "b < 256" "c < 256" "d < 256"
  shows "match_ipv4 (join_str ''.'' [show_nat a, show_nat b, show_nat c, show_nat d])
           = Some [show_nat a, show_nat b, show_nat c, show_nat d]"
proof -
  have "split_char (CHR ''.'') (join_str ''.'' [show_nat a, show_nat b, show_nat c, show_nat d])
      = [show_nat a, show_nat b, show_nat c, show_nat d]"
    by (rule split_join) (auto simp: show_nat_no_char)
  with assms show ?thesis by (simp add: match_ipv4_def octet_text)
qed

lemma ip_accumulate_dotted:
  assumes "a < 256" "b < 256" "c < 256" "d < 256"
  shows "bind_res (ip_accumulate ip [show_nat a, show_nat b, show_nat c, show_nat d] 0)
           (\<lambda>v. Inr (unat v)) = Inr (((a * 256 + b) * 256 + c) * 256 + d)"
proof -
  have a: "unat (of_nat a :: 32 word) = a"
    using assms by (simp add: unat_of_nat take_bit_eq_mod)
  from assms show ?thesis
    by (simp add: ip_accumulate_octets unat_shift_add a)
qed

lemma numToIp_nat:
  "v < 2 ^ 32 \<Longrightarrow> numToIp (int v) = Inr (join_str ''.'' [show_nat (v div 2 ^ 24 mod 256),
     show_nat (v div 2 ^ 16 mod 256), show_nat (v div 2 ^ 8 mod 256), show_nat (v mod 256)])"
  by (simp add: numToIp_def)

lemma ipToNum_numToIp:
  assumes "v < 2 ^ 32" "numToIp (int v) = Inr s"
  shows "ipToNum s = Inr v"
proof -
  from assms(2) have "s = join_str ''.'' [show_nat (v div 2 ^ 24 mod 256),
     show_nat (v div 2 ^ 16 mod 256), show_nat (v div 2 ^ 8 mod 256), show_nat (v mod 256)]"
    unfolding numToIp_nat [OF assms(1)] by (simp only: sum.inject)
  then have "ipToNum s = Inr (((v div 2 ^ 24 mod 256 * 256 + v div 2 ^ 16 mod 256) * 256
      + v div 2 ^ 8 mod 256) * 256 + v mod 256)"
    by (simp only: ipToNum_def match_ipv4_dotted ip_accumulate_dotted option.case
        mod_less_divisor zero_less_numeral)
  then show ?thesis by (simp only: dotted_value [OF assms(1)])
qed

lemma ipToNum_match: "ipToNum s = Inr v \<Longrightarrow> match_ipv4 s \<noteq> None"
  by (auto simp: ipToNum_def split: option.splits)


subsection \<open>Blocks are aligned intervals\<close>

lemma same_quotient_iff:
  fixes a n m :: nat
  assumes "0 < m"
  shows "a div m = n div m \<longleftrightarrow> n div m * m \<le> a \<and> a < n div m * m + m"
proof -
  have "a div m = q \<longleftrightarrow> q * m \<le> a \<and> a < q * m + m" for q
    using assms div_nat_eqI [of m q a] div_times_less_eq_dividend [of a m]
      dividend_less_div_times [of m a]
    by (auto simp: mult.commute add.commute)
  then show ?thesis .
qed

lemma aligned_top:
  fixes n :: nat
  assumes "n < 2 ^ 32" "len \<le> 32"
  shows "n div 2 ^ (32 - len) * 2 ^ (32 - len) + 2 ^ (32 - len) \<le> 2 ^ 32"
proof -
  have split: "(2::nat) ^ 32 = 2 ^ len * 2 ^ (32 - len)"
    using assms(2) by (simp flip: power_add)
  have "n div 2 ^ (32 - len) < 2 ^ len"
    using assms(1) unfolding split by (rule less_mult_imp_div_less)
  then have "Suc (n div 2 ^ (32 - len)) * 2 ^ (32 - len) \<le> 2 ^ len * 2 ^ (32 - len)"
    by (intro mult_le_mono1) simp
  then show ?thesis by (simp only: split mult_Suc add.commute)
qed

lemma interval_of_size:
  fixes x m :: nat
  assumes "0 < m"
  shows "{a. x \<le> a \<and> a < x + m} = {x .. x + m - 1}"
  using assms by auto

lemma block_interval:
  assumes "n < 2 ^ 32" "len \<le> 32"
  shows "block n len = {n div 2 ^ (32 - len) * 2 ^ (32 - len) ..
           n div 2 ^ (32 - len) * 2 ^ (32 - len) + 2 ^ (32 - len) - 1}"
proof -
  have pos: "(0::nat) < 2 ^ (32 - len)" by simp
  have "block n len = {a. n div 2 ^ (32 - len) * 2 ^ (32 - len) \<le> a
      \<and> a < n div 2 ^ (32 - len) * 2 ^ (32 - len) + 2 ^ (32 - len)}"
    unfolding block_def same_quotient_iff [OF pos]
    using aligned_top [OF assms] by (meson less_le_trans)
  then show ?thesis by (simp only: interval_of_size [OF pos])
qed

text \<open>What a successful parse and its bounds say about the block.\<close>

lemma parseCidr_facts:
  assumes "parseCidr cidr = Inr (base, len)"
  obtains n where "ipToNum base = Inr n" "n < 2 ^ 32" "len \<le> 32"
    "cidr_addresses cidr = block n len"
  using assms ipToNum_lt
  by (auto simp: cidr_addresses_def parseCidr_def res_simps Let_def split: option.splits if_splits)

lemma cidrBounds_facts:
  assumes "cidrBounds base len = Inr b" "ipToNum base = Inr n" "n < 2 ^ 32" "len \<le> 32"
  shows "block n len = {networkAddr b .. broadcastAddr b}" "networkAddr b \<le> broadcastAddr b"
    "networkAddr b = n div 2 ^ (32 - len) * 2 ^ (32 - len)"
    "broadcastAddr b = networkAddr b + 2 ^ (32 - len) - 1"
proof -
  have pos: "(0::nat) < 2 ^ (32 - len)" by simp
  from assms(1,2) have b: "networkAddr b = n div 2 ^ (32 - len) * 2 ^ (32 - len)"
    "broadcastAddr b = n div 2 ^ (32 - len) * 2 ^ (32 - len) + 2 ^ (32 - len) - 1"
    by (auto simp: cidrBounds_def Let_def)
  show "block n len = {networkAddr b .. broadcastAddr b}"
    by (simp only: b block_interval [OF assms(3,4)])
  show "networkAddr b \<le> broadcastAddr b" using pos by (simp only: b)
  show "networkAddr b = n div 2 ^ (32 - len) * 2 ^ (32 - len)" by (rule b(1))
  show "broadcastAddr b = networkAddr b + 2 ^ (32 - len) - 1" by (simp only: b)
qed

lemma cidrBounds_total: "ipToNum base = Inr n \<Longrightarrow> \<exists>b. cidrBounds base len = Inr b"
  by (simp add: cidrBounds_def Let_def)

lemma overlap_bounds:
  assumes "ipv4CidrsOverlap l r = Inr res"
  obtains a b :: bounds where "cidr_addresses l = {networkAddr a .. broadcastAddr a}"
    "cidr_addresses r = {networkAddr b .. broadcastAddr b}"
    "networkAddr a \<le> broadcastAddr a" "networkAddr b \<le> broadcastAddr b"
    "res \<longleftrightarrow> networkAddr a \<le> broadcastAddr b \<and> networkAddr b \<le> broadcastAddr a"
proof -
  from assms obtain lb ll rb rl where p: "parseCidr l = Inr (lb, ll)" "parseCidr r = Inr (rb, rl)"
    by (auto simp: ipv4CidrsOverlap_def res_simps)
  obtain n where n: "ipToNum lb = Inr n" "n < 2 ^ 32" "ll \<le> 32" "cidr_addresses l = block n ll"
    using parseCidr_facts [OF p(1)] .
  obtain m where m: "ipToNum rb = Inr m" "m < 2 ^ 32" "rl \<le> 32" "cidr_addresses r = block m rl"
    using parseCidr_facts [OF p(2)] .
  obtain a b where ab: "cidrBounds lb ll = Inr a" "cidrBounds rb rl = Inr b"
    using cidrBounds_total [OF n(1)] cidrBounds_total [OF m(1)] by blast
  note fa = cidrBounds_facts(1,2) [OF ab(1) n(1-3)] and fb = cidrBounds_facts(1,2) [OF ab(2) m(1-3)]
  have "res \<longleftrightarrow> networkAddr a \<le> broadcastAddr b \<and> networkAddr b \<le> broadcastAddr a"
    using assms by (simp add: ipv4CidrsOverlap_def p ab)
  then show ?thesis
    by (rule that [OF n(4) [unfolded fa(1)] m(4) [unfolded fb(1)] fa(2) fb(2)])
qed

lemma contains_bounds:
  assumes "ipv4CidrContains out inn = Inr res"
  obtains n m ol il and a b :: bounds where "cidr_addresses out = block n ol" "cidr_addresses inn = block m il"
    "n < 2 ^ 32" "m < 2 ^ 32" "ol \<le> 32" "il \<le> 32"
    "block n ol = {networkAddr a .. broadcastAddr a}" "networkAddr a \<le> broadcastAddr a"
    "block m il = {networkAddr b .. broadcastAddr b}" "networkAddr b \<le> broadcastAddr b"
    "res \<longleftrightarrow> ol \<le> il \<and> networkAddr a \<le> networkAddr b \<and> broadcastAddr b \<le> broadcastAddr a"
proof -
  from assms obtain ob ol ib il where p: "parseCidr out = Inr (ob, ol)" "parseCidr inn = Inr (ib, il)"
    by (auto simp: ipv4CidrContains_def res_simps)
  obtain n where n: "ipToNum ob = Inr n" "n < 2 ^ 32" "ol \<le> 32" "cidr_addresses out = block n ol"
    using parseCidr_facts [OF p(1)] .
  obtain m where m: "ipToNum ib = Inr m" "m < 2 ^ 32" "il \<le> 32" "cidr_addresses inn = block m il"
    using parseCidr_facts [OF p(2)] .
  obtain a b where ab: "cidrBounds ob ol = Inr a" "cidrBounds ib il = Inr b"
    using cidrBounds_total [OF n(1)] cidrBounds_total [OF m(1)] by blast
  have "res \<longleftrightarrow> ol \<le> il \<and> networkAddr a \<le> networkAddr b \<and> broadcastAddr b \<le> broadcastAddr a"
    using assms by (simp add: ipv4CidrContains_def p ab split: if_splits)
  then show ?thesis
    by (rule that [OF n(4) m(4) n(2) m(2) n(3) m(3) cidrBounds_facts(1,2) [OF ab(1) n(1-3)]
          cidrBounds_facts(1,2) [OF ab(2) m(1-3)]])
qed

lemma card_block: "\<lbrakk>n < 2 ^ 32; len \<le> 32\<rbrakk> \<Longrightarrow> card (block n len) = 2 ^ (32 - len)"
  by (simp add: block_interval)

lemma block_subset_len:
  assumes "n < 2 ^ 32" "m < 2 ^ 32" "ol \<le> 32" "il \<le> 32" "block m il \<subseteq> block n ol"
  shows "ol \<le> il"
proof -
  have "finite (block n ol)" using assms by (simp add: block_interval)
  then have "card (block m il) \<le> card (block n ol)" using assms(5) by (rule card_mono)
  then have "(2::nat) ^ (32 - il) \<le> 2 ^ (32 - ol)" using assms by (simp add: card_block)
  then have "32 - il \<le> 32 - ol" by simp
  then show ?thesis using assms(3,4) by simp
qed

lemma interval_determines:
  fixes v v' :: nat
  assumes "{v .. v + 2 ^ (32 - len) - 1} = {v' .. v' + 2 ^ (32 - len') - 1}" "len \<le> 32" "len' \<le> 32"
  shows "v = v' \<and> len = len'"
proof -
  have pos: "(0::nat) < 2 ^ (32 - len)" "(0::nat) < 2 ^ (32 - len')" by simp_all
  have "v \<le> v + 2 ^ (32 - len) - 1" using pos(1) by linarith
  with assms(1) have eq: "v = v'" "v + 2 ^ (32 - len) - 1 = v' + 2 ^ (32 - len') - 1"
    by (auto simp: Icc_eq_Icc)
  with pos have "(2::nat) ^ (32 - len) = 2 ^ (32 - len')" by linarith
  then have "32 - len = 32 - len'" by simp
  with eq(1) assms(2,3) show ?thesis by linarith
qed

lemma split_address_prefix:
  assumes "CHR ''/'' \<notin> set addr"
  shows "split_char (CHR ''/'') (addr @ ''/'' @ show_nat len) = [addr, show_nat len]"
  using assms split_char_append [of "CHR ''/''" addr "show_nat len"]
  by (simp add: split_char_id show_nat_no_char)

lemma numToIp_no_slash:
  assumes "v < 2 ^ 32" "numToIp (int v) = Inr s"
  shows "CHR ''/'' \<notin> set s"
  using assms(2) unfolding numToIp_nat [OF assms(1)] by (auto simp: show_nat_no_char)

lemma parseCidr_canonical:
  assumes "v < 2 ^ 32" "numToIp (int v) = Inr s" "len \<le> 32"
  shows "parseCidr (s @ ''/'' @ show_nat len) = Inr (s, len)"
proof -
  have ip: "ipToNum s = Inr v" by (rule ipToNum_numToIp [OF assms(1,2)])
  have "length (show_nat len) \<le> 2" using length_show_nat [of len 1] assms(3) by simp
  moreover have "1 \<le> length (show_nat len)" by (cases "show_nat len") simp_all
  ultimately have "match_cidr (s @ ''/'' @ show_nat len) = Some (s, show_nat len)"
    using show_nat_digits [of len] ipToNum_match [OF ip]
    by (simp add: match_cidr_def split_address_prefix [OF numToIp_no_slash [OF assms(1,2)],
          simplified] list_all_iff)
  then show ?thesis using assms(3) by (simp add: parseCidr_def ip)
qed

text \<open>The canonical text of a block is a function of its aligned network and its length.\<close>

lemma canonicalIpv4Cidr_facts:
  assumes "canonicalIpv4Cidr c = Inr d"
  obtains n len v s where "cidr_addresses c = block n len" "n < 2 ^ 32" "len \<le> 32"
    "v = n div 2 ^ (32 - len) * 2 ^ (32 - len)" "v < 2 ^ 32"
    "numToIp (int v) = Inr s" "d = s @ ''/'' @ show_nat len"
proof -
  from assms obtain base len b s where p: "parseCidr c = Inr (base, len)" "cidrBounds base len = Inr b"
    "numToIp (int (networkAddr b)) = Inr s" "d = s @ ''/'' @ show_nat len"
    by (auto simp: canonicalIpv4Cidr_def res_simps)
  obtain n where n: "ipToNum base = Inr n" "n < 2 ^ 32" "len \<le> 32" "cidr_addresses c = block n len"
    using parseCidr_facts [OF p(1)] .
  note b = cidrBounds_facts [OF p(2) n(1-3)]
  have "networkAddr b < 2 ^ 32"
    using n(2) unfolding b(3) by (rule le_less_trans [OF div_times_less_eq_dividend])
  then show ?thesis by (rule that [OF n(4,2,3) b(3) _ p(3,4)])
qed

lemma canonicalIpv4Cidr_of_text:
  assumes "v < 2 ^ 32" "len \<le> 32" "numToIp (int v) = Inr s" "v mod 2 ^ (32 - len) = 0"
  shows "canonicalIpv4Cidr (s @ ''/'' @ show_nat len) = Inr (s @ ''/'' @ show_nat len)"
    and "cidr_addresses (s @ ''/'' @ show_nat len) = block v len"
proof -
  note ip = ipToNum_numToIp [OF assms(1,3)]
  have align: "v div 2 ^ (32 - len) * 2 ^ (32 - len) = v"
    using assms(4) by (metis add.right_neutral div_mult_mod_eq)
  obtain b where b: "cidrBounds s len = Inr b" "networkAddr b = v"
    by (simp add: cidrBounds_def ip Let_def align del: One_nat_def)
  then show "canonicalIpv4Cidr (s @ ''/'' @ show_nat len) = Inr (s @ ''/'' @ show_nat len)"
    by (simp add: canonicalIpv4Cidr_def parseCidr_canonical [OF assms(1,3,2), simplified] assms(3))
  show "cidr_addresses (s @ ''/'' @ show_nat len) = block v len"
    by (simp add: cidr_addresses_def parseCidr_canonical [OF assms(1,3,2), simplified] ip)
qed


subsection \<open>Properties\<close>

text \<open>Every 32-bit number has a dotted text, parsing that text gives the number back, and the
  text is its own canonical form.\<close>

theorem ip_text_roundtrip:
  assumes "v < 2 ^ 32"
  shows "\<exists>s. numToIp (int v) = Inr s \<and> ipToNum s = Inr v \<and> canonicalIpv4Address s = Inr s"
proof -
  obtain s where s: "numToIp (int v) = Inr s" using numToIp_nat [OF assms] by blast
  with ipToNum_numToIp [OF assms s] show ?thesis by (simp add: canonicalIpv4Address_def)
qed

theorem ip_text_roundtrip_witness:
  "\<exists>s. numToIp (int 3232235521) = Inr s \<and> ipToNum s = Inr 3232235521 \<and> canonicalIpv4Address s = Inr s"
  by (rule ip_text_roundtrip) simp

text \<open>\<open>ipv4CidrsOverlap\<close> decides whether two blocks share an address.\<close>

theorem overlap_correct:
  assumes "ipv4CidrsOverlap l r = Inr res"
  shows "res \<longleftrightarrow> cidr_addresses l \<inter> cidr_addresses r \<noteq> {}"
  using assms
proof (rule overlap_bounds)
  fix a b
  assume *: "cidr_addresses l = {networkAddr a .. broadcastAddr a}"
    "cidr_addresses r = {networkAddr b .. broadcastAddr b}"
    "networkAddr a \<le> broadcastAddr a" "networkAddr b \<le> broadcastAddr b"
    "res \<longleftrightarrow> networkAddr a \<le> broadcastAddr b \<and> networkAddr b \<le> broadcastAddr a"
  have "max (networkAddr a) (networkAddr b) \<in> cidr_addresses l \<inter> cidr_addresses r" if res
    using that * by auto
  moreover have res if "x \<in> cidr_addresses l \<inter> cidr_addresses r" for x
    using that * by auto
  ultimately show ?thesis by blast
qed

theorem overlap_correct_witness:
  "ipv4CidrsOverlap ''10.0.0.0/8'' ''10.1.2.0/24'' = Inr True
   \<and> cidr_addresses ''10.0.0.0/8'' \<inter> cidr_addresses ''10.1.2.0/24'' \<noteq> {}"
proof -
  have "ipv4CidrsOverlap ''10.0.0.0/8'' ''10.1.2.0/24'' = Inr True" by (simp add: ip_eval)
  with overlap_correct [OF this] show ?thesis by simp
qed

text \<open>\<open>ipv4CidrContains\<close> decides whether every address of the inner block is in the outer one.\<close>

theorem contains_correct:
  assumes "ipv4CidrContains outer inner = Inr res"
  shows "res \<longleftrightarrow> cidr_addresses inner \<subseteq> cidr_addresses outer"
  using assms
proof (rule contains_bounds)
  fix n m ol il a b
  assume *: "cidr_addresses outer = block n ol" "cidr_addresses inner = block m il"
    "n < 2 ^ 32" "m < 2 ^ 32" "ol \<le> 32" "il \<le> 32"
    "block n ol = {networkAddr a .. broadcastAddr a}" "networkAddr a \<le> broadcastAddr a"
    "block m il = {networkAddr b .. broadcastAddr b}" "networkAddr b \<le> broadcastAddr b"
    "res \<longleftrightarrow> ol \<le> il \<and> networkAddr a \<le> networkAddr b \<and> broadcastAddr b \<le> broadcastAddr a"
  show ?thesis
    using * block_subset_len [OF *(3-6)] by auto
qed

theorem contains_correct_witness:
  "ipv4CidrContains ''10.0.0.0/8'' ''10.1.2.0/24'' = Inr True
   \<and> cidr_addresses ''10.1.2.0/24'' \<subseteq> cidr_addresses ''10.0.0.0/8''"
proof -
  have "ipv4CidrContains ''10.0.0.0/8'' ''10.1.2.0/24'' = Inr True" by (simp add: ip_eval)
  with contains_correct [OF this] show ?thesis by simp
qed

text \<open>The canonical text of a block denotes the same addresses, is canonical itself, and two
  blocks have the same canonical text exactly when they denote the same addresses.\<close>

theorem canonical_cidr_correct:
  assumes c: "canonicalIpv4Cidr c = Inr d" and c': "canonicalIpv4Cidr c' = Inr d'"
  shows "cidr_addresses d = cidr_addresses c \<and> canonicalIpv4Cidr d = Inr d
    \<and> (d = d' \<longleftrightarrow> cidr_addresses c = cidr_addresses c')"
proof -
  have main: "cidr_addresses d = cidr_addresses c \<and> canonicalIpv4Cidr d = Inr d
      \<and> (\<exists>v len. d = projr (numToIp (int v)) @ ''/'' @ show_nat len \<and>
           cidr_addresses c = {v .. v + 2 ^ (32 - len) - 1} \<and> len \<le> 32)"
    if "canonicalIpv4Cidr c = Inr d" for c d
    using that
  proof (rule canonicalIpv4Cidr_facts)
    fix n len v s
    assume *: "cidr_addresses c = block n len" "n < 2 ^ 32" "len \<le> 32"
      "v = n div 2 ^ (32 - len) * 2 ^ (32 - len)" "v < 2 ^ 32"
      "numToIp (int v) = Inr s" "d = s @ ''/'' @ show_nat len"
    have "block v len = block n len" unfolding block_def *(4) by simp
    with canonicalIpv4Cidr_of_text [OF *(5,3,6)] block_interval [OF *(2,3)] * show ?thesis
      by (metis mod_mult_self2_is_0 sum.sel(2))
  qed
  obtain v len where d: "d = projr (numToIp (int v)) @ ''/'' @ show_nat len"
      "cidr_addresses c = {v .. v + 2 ^ (32 - len) - 1}" "len \<le> 32"
    using main [OF c] by blast
  obtain v' len' where d': "d' = projr (numToIp (int v')) @ ''/'' @ show_nat len'"
      "cidr_addresses c' = {v' .. v' + 2 ^ (32 - len') - 1}" "len' \<le> 32"
    using main [OF c'] by blast
  have "v = v' \<and> len = len'" if "cidr_addresses c = cidr_addresses c'"
    using interval_determines [of v len v' len'] that d d' by simp
  with main [OF c] main [OF c'] d d' show ?thesis by metis
qed

theorem canonical_cidr_correct_witness:
  "canonicalIpv4Cidr ''10.1.2.3/8'' = Inr ''10.0.0.0/8''
   \<and> cidr_addresses ''10.0.0.0/8'' = cidr_addresses ''10.1.2.3/8''"
proof -
  have "canonicalIpv4Cidr ''10.1.2.3/8'' = Inr ''10.0.0.0/8''" by (simp add: ip_eval)
  with canonical_cidr_correct [OF this this] show ?thesis by simp
qed

end
