(* ===== verification/Firewall_Protocol.thy ===== *)
theory Firewall_Protocol
  imports Ipv4 "HOL-Library.Product_Lexorder"
begin

text \<open>
  The guest egress firewall's rules as data, \<open>packages/common/src/protocol/firewall.ts\<close>: canonical
  CIDRs and ports, the address intervals handed to nft, the port text of the forms, and the schemas
  the agent accepts a document by.

  A range is a pair of inclusive bounds. The sort of the source compares lexicographically, so it is
  \<open>sort\<close> on pairs; equal pairs are indistinguishable, so stability plays no part.
\<close>

subsection \<open>Rules and documents\<close>

datatype firewall_action = Accept | Drop | Reject

datatype firewall_protocol = All | Tcp | Udp

type_synonym port_range = "nat \<times> nat"

record firewall_rule_spec =
  action :: firewall_action
  protocol :: firewall_protocol
  cidrs :: "string list"
  ports :: "port_range list"

record firewall_document =
  digest :: string
  rules :: "firewall_rule_spec list"

definition FIREWALL_MAX_CIDRS_PER_RULE :: nat where
  "FIREWALL_MAX_CIDRS_PER_RULE = 256"

definition FIREWALL_MAX_PORT_RANGES_PER_RULE :: nat where
  "FIREWALL_MAX_PORT_RANGES_PER_RULE = 32"

definition FIREWALL_MAX_RULES_PER_SERVER :: nat where
  "FIREWALL_MAX_RULES_PER_SERVER = 256"

definition FIREWALL_MAX_CIDRS_PER_SERVER :: nat where
  "FIREWALL_MAX_CIDRS_PER_SERVER = 4096"


subsection \<open>Trimming\<close>

text \<open>The UTF-8 texts of the characters \<open>trim\<close> removes and \<open>\s\<close> matches.\<close>

definition js_whitespace :: "string list" where
  "js_whitespace =
     [[CHR 0x09], [CHR 0x0A], [CHR 0x0B], [CHR 0x0C], [CHR 0x0D], [CHR 0x20], [CHR 0xC2, CHR 0xA0],
      [CHR 0xE1, CHR 0x9A, CHR 0x80], [CHR 0xE2, CHR 0x80, CHR 0x80], [CHR 0xE2, CHR 0x80, CHR 0x81],
      [CHR 0xE2, CHR 0x80, CHR 0x82], [CHR 0xE2, CHR 0x80, CHR 0x83], [CHR 0xE2, CHR 0x80, CHR 0x84],
      [CHR 0xE2, CHR 0x80, CHR 0x85], [CHR 0xE2, CHR 0x80, CHR 0x86], [CHR 0xE2, CHR 0x80, CHR 0x87],
      [CHR 0xE2, CHR 0x80, CHR 0x88], [CHR 0xE2, CHR 0x80, CHR 0x89], [CHR 0xE2, CHR 0x80, CHR 0x8A],
      [CHR 0xE2, CHR 0x80, CHR 0xA8], [CHR 0xE2, CHR 0x80, CHR 0xA9], [CHR 0xE2, CHR 0x80, CHR 0xAF],
      [CHR 0xE2, CHR 0x81, CHR 0x9F], [CHR 0xE3, CHR 0x80, CHR 0x80], [CHR 0xEF, CHR 0xBB, CHR 0xBF]]"

text \<open>The text after the first of the given prefixes it starts with.\<close>

fun strip_any :: "string list \<Rightarrow> string \<Rightarrow> string option" where
  "strip_any [] s = None"
| "strip_any (w # ws) s =
     (if w \<noteq> [] \<and> starts_with w s then Some (drop (length w) s) else strip_any ws s)"

lemma strip_any_length: "strip_any ws s = Some r \<Longrightarrow> length r < length s"
  by (induction ws s rule: strip_any.induct) (auto simp: starts_with_iff split: if_split_asm)

function trim_start :: "string list \<Rightarrow> string \<Rightarrow> string" where
  "trim_start ws s = (case strip_any ws s of None \<Rightarrow> s | Some r \<Rightarrow> trim_start ws r)"
  by pat_completeness auto
termination
  by (relation "measure (\<lambda>(ws, s). length s)") (auto dest: strip_any_length)

declare trim_start.simps [simp del]

definition js_trim :: "string \<Rightarrow> string" where
  "js_trim s = rev (trim_start (map rev js_whitespace) (rev (trim_start js_whitespace s)))"


subsection \<open>CIDRs\<close>

definition cidrRange :: "string \<Rightarrow> ip_error + nat \<times> nat" where
  "cidrRange cidr = bind_res (parseCidr cidr) (\<lambda>(base, prefixLen).
     bind_res (ipToNum base) (\<lambda>n.
     let size = 2 ^ (32 - prefixLen); start = n - n mod size
     in Inr (start, start + size - 1)))"

definition canonicalFirewallCidr :: "string \<Rightarrow> ip_error + string" where
  "canonicalFirewallCidr v =
     (let trimmed = js_trim v
      in canonicalIpv4Cidr (if CHR ''/'' \<in> set trimmed then trimmed else trimmed @ ''/32''))"

text \<open>The sort key of a canonical CIDR: network address, then prefix length.\<close>

definition cidr_key :: "string \<Rightarrow> ip_error + nat \<times> nat" where
  "cidr_key cidr = bind_res (cidrRange cidr) (\<lambda>(start, _).
     bind_res (parseCidr cidr) (\<lambda>(_, prefixLen). Inr (start, prefixLen)))"

definition canonicalFirewallCidrs :: "string list \<Rightarrow> ip_error + string list" where
  "canonicalFirewallCidrs values = bind_res (map_res canonicalFirewallCidr values) (\<lambda>canon.
     bind_res (map_res (\<lambda>c. bind_res (cidr_key c) (\<lambda>k. Inr (k, c))) (unique_first canon)) (\<lambda>keyed.
     Inr (map snd (sort_key fst keyed))))"


subsection \<open>Merging ranges\<close>

text \<open>
  One round of the merging loop, shared by \<open>canonicalFirewallPorts\<close> and
  \<open>firewallAddressIntervals\<close>: extend the last range when the next overlaps or touches it.
\<close>

definition merge_round :: "(nat \<times> nat) list \<Rightarrow> nat \<times> nat \<Rightarrow> (nat \<times> nat) list" where
  "merge_round merged r =
     (if merged \<noteq> [] \<and> fst r \<le> snd (last merged) + 1
      then butlast merged @ [(fst (last merged), max (snd (last merged)) (snd r))]
      else merged @ [r])"

definition canonicalFirewallPorts :: "port_range list \<Rightarrow> port_range list" where
  "canonicalFirewallPorts ranges = foldl merge_round [] (sort ranges)"

definition firewallAddressIntervals :: "string list \<Rightarrow> ip_error + (string \<times> string) list" where
  "firewallAddressIntervals cs = bind_res (map_res cidrRange cs) (\<lambda>ranges.
     map_res (\<lambda>(start, stop). bind_res (numToIp (int start)) (\<lambda>first.
       bind_res (numToIp (int stop)) (\<lambda>last. Inr (first, last))))
       (foldl merge_round [] (sort ranges)))"


subsection \<open>The text of ports\<close>

datatype port_error = InvalidPort string

definition port_separators :: "string list" where
  "port_separators = js_whitespace @ [[CHR '',''], [CHR 0xEF, CHR 0xBC, CHR 0x8C]]"

text \<open>\<open>text.split(/[\s,...]+/).filter((item) => item.length > 0)\<close>.\<close>

function port_items :: "string \<Rightarrow> string \<Rightarrow> string list" where
  "port_items item s =
     (case s of
        [] \<Rightarrow> (if item = [] then [] else [item])
      | c # rest \<Rightarrow>
          (case strip_any port_separators s of
             Some r \<Rightarrow> (if item = [] then port_items [] r else item # port_items [] r)
           | None \<Rightarrow> port_items (item @ [c]) rest))"
  by pat_completeness auto
termination
  by (relation "measure (\<lambda>(item, s). length s)") (auto dest: strip_any_length)

declare port_items.simps [simp del]

definition port_digits :: "string \<Rightarrow> bool" where
  "port_digits s \<longleftrightarrow> 1 \<le> length s \<and> length s \<le> 5 \<and> list_all is_digit s"

definition parse_port_item :: "string \<Rightarrow> port_error + port_range" where
  "parse_port_item item =
     (case split_char (CHR ''-'') item of
        [a] \<Rightarrow>
          if \<not> port_digits a then Inl (InvalidPort item)
          else if digits_val a < 1 \<or> digits_val a > 65535 then Inl (InvalidPort item)
          else Inr (digits_val a, digits_val a)
      | [a, b] \<Rightarrow>
          if \<not> port_digits a \<or> \<not> port_digits b then Inl (InvalidPort item)
          else if digits_val a < 1 \<or> digits_val b > 65535 \<or> digits_val a > digits_val b
            then Inl (InvalidPort item)
          else Inr (digits_val a, digits_val b)
      | _ \<Rightarrow> Inl (InvalidPort item))"

definition parseFirewallPorts :: "string \<Rightarrow> port_error + port_range list" where
  "parseFirewallPorts text = map_res parse_port_item (port_items [] text)"

definition format_port_range :: "port_range \<Rightarrow> string" where
  "format_port_range r =
     (if fst r = snd r then show_nat (fst r) else show_nat (fst r) @ ''-'' @ show_nat (snd r))"

definition formatFirewallPorts :: "port_range list \<Rightarrow> string" where
  "formatFirewallPorts ranges = join_str '', '' (map format_port_range ranges)"


subsection \<open>Schemas\<close>

definition zFirewallPortRange :: "port_range \<Rightarrow> bool" where
  "zFirewallPortRange r \<longleftrightarrow> 1 \<le> fst r \<and> fst r \<le> 65535 \<and> 1 \<le> snd r \<and> snd r \<le> 65535 \<and> fst r \<le> snd r"

definition isCanonicalCidr :: "string \<Rightarrow> bool" where
  "isCanonicalCidr v = (case canonicalFirewallCidr v of Inl _ \<Rightarrow> False | Inr c \<Rightarrow> c = v \<and> CHR ''/'' \<in> set v)"

definition zFirewallRuleSpec :: "firewall_rule_spec \<Rightarrow> bool" where
  "zFirewallRuleSpec rule \<longleftrightarrow>
     list_all (\<lambda>c. length c \<le> 18 \<and> isCanonicalCidr c) (cidrs rule)
   \<and> 1 \<le> length (cidrs rule) \<and> length (cidrs rule) \<le> FIREWALL_MAX_CIDRS_PER_RULE
   \<and> list_all zFirewallPortRange (ports rule) \<and> length (ports rule) \<le> FIREWALL_MAX_PORT_RANGES_PER_RULE
   \<and> (protocol rule \<noteq> All \<or> length (ports rule) = 0)"

definition zFirewallDocument :: "firewall_document \<Rightarrow> bool" where
  "zFirewallDocument doc \<longleftrightarrow>
     length (digest doc) = 64 \<and> list_all is_lower_hex (digest doc)
   \<and> list_all zFirewallRuleSpec (rules doc) \<and> length (rules doc) \<le> FIREWALL_MAX_RULES_PER_SERVER
   \<and> sum_list (map (\<lambda>rule. length (cidrs rule)) (rules doc)) \<le> FIREWALL_MAX_CIDRS_PER_SERVER"


subsection \<open>Merged ranges\<close>

text \<open>The numbers a list of ranges covers.\<close>

definition covers :: "(nat \<times> nat) list \<Rightarrow> nat set" where
  "covers rs = (\<Union>(a, b) \<in> set rs. {a..b})"

text \<open>Ranges in order with a gap between neighbours.\<close>

fun separated :: "(nat \<times> nat) list \<Rightarrow> bool" where
  "separated (r # s # rs) = (fst r \<le> snd r \<and> snd r + 1 < fst s \<and> separated (s # rs))"
| "separated [r] = (fst r \<le> snd r)"
| "separated [] = True"

lemma covers_simps [simp]:
  "covers [] = {}" "covers (r # rs) = {fst r..snd r} \<union> covers rs" "covers (xs @ ys) = covers xs \<union> covers ys"
  by (auto simp: covers_def)

lemma covers_set: "set xs = set ys \<Longrightarrow> covers xs = covers ys"
  by (simp add: covers_def)

lemma separated_snoc:
  "separated (rs @ [s]) \<longleftrightarrow> separated rs \<and> fst s \<le> snd s \<and> (rs \<noteq> [] \<longrightarrow> snd (last rs) + 1 < fst s)"
  by (induction rs rule: separated.induct) auto

lemma merge_round_keeps:
  assumes "separated merged" "merged \<noteq> [] \<longrightarrow> fst (last merged) \<le> fst r" "fst r \<le> snd r"
  shows "separated (merge_round merged r)" "covers (merge_round merged r) = covers merged \<union> {fst r..snd r}"
    "fst (last (merge_round merged r)) \<le> fst r"
proof -
  consider "merged = []" | ms m where "merged = ms @ [m]" by (cases merged rule: rev_cases) auto
  then have "separated (merge_round merged r) \<and> covers (merge_round merged r) = covers merged \<union> {fst r..snd r}
      \<and> fst (last (merge_round merged r)) \<le> fst r"
  proof cases
    case 1
    then show ?thesis using assms by (simp add: merge_round_def)
  next
    case 2
    have "{fst m..max (snd m) (snd r)} = {fst m..snd m} \<union> {fst r..snd r}"
      if "fst r \<le> snd m + 1" using that assms(2,3) 2 by auto
    moreover have "separated (ms @ [m, r])" if "\<not> fst r \<le> snd m + 1"
      using separated_snoc [of "ms @ [m]" r] that assms 2 by simp
    ultimately show ?thesis using assms 2 by (auto simp: merge_round_def separated_snoc)
  qed
  then show "separated (merge_round merged r)" "covers (merge_round merged r) = covers merged \<union> {fst r..snd r}"
    "fst (last (merge_round merged r)) \<le> fst r" by blast+
qed

lemma merge_round_nonempty: "merge_round merged r \<noteq> []"
  by (simp add: merge_round_def)

lemma foldl_merge:
  assumes "sorted rs" "\<forall>r \<in> set rs. fst r \<le> snd r" "separated merged"
    and "\<forall>r \<in> set rs. merged \<noteq> [] \<longrightarrow> fst (last merged) \<le> fst r"
  shows "separated (foldl merge_round merged rs) \<and> covers (foldl merge_round merged rs) = covers merged \<union> covers rs"
  using assms
proof (induction rs arbitrary: merged)
  case (Cons r rs)
  have m: "separated (merge_round merged r)" "covers (merge_round merged r) = covers merged \<union> {fst r..snd r}"
    "fst (last (merge_round merged r)) \<le> fst r"
    using merge_round_keeps [of merged r] Cons.prems by simp_all
  have "fst r \<le> fst s" if "s \<in> set rs" for s
    using Cons.prems(1) that by (auto simp: less_eq_prod_def)
  then have "\<forall>s \<in> set rs. merge_round merged r \<noteq> [] \<longrightarrow> fst (last (merge_round merged r)) \<le> fst s"
    using m(3) order_trans by blast
  then have "separated (foldl merge_round (merge_round merged r) rs)
      \<and> covers (foldl merge_round (merge_round merged r) rs) = covers (merge_round merged r) \<union> covers rs"
    using Cons.IH [of "merge_round merged r"] Cons.prems m(1) by simp
  then show ?case using m(2) by (simp add: Un_assoc)
qed simp

lemma merge_sorted:
  assumes "\<forall>r \<in> set rs. fst r \<le> snd r"
  shows "separated (foldl merge_round [] (sort rs))" "covers (foldl merge_round [] (sort rs)) = covers rs"
  using foldl_merge [of "sort rs" "[]"] assms covers_set [of "sort rs" rs] by auto

text \<open>A separated list is determined by what it covers.\<close>

lemma separated_Cons_gap:
  "separated (r # rs) \<Longrightarrow> x \<in> covers rs \<Longrightarrow> snd r + 1 < x"
proof (induction rs arbitrary: r)
  case (Cons s rs)
  then show ?case
  proof (cases "x \<in> covers rs")
    case True
    have "separated (s # rs)" "snd r + 1 < fst s" using Cons.prems by simp_all
    moreover from this(1) have "fst s \<le> snd s" by (cases rs) auto
    ultimately show ?thesis using Cons.IH [of s] True by simp
  qed auto
qed simp

lemma separated_tl: "separated (r # rs) \<Longrightarrow> separated rs \<and> fst r \<le> snd r"
  by (cases rs) auto

lemma separated_least: "separated (r # rs) \<Longrightarrow> x \<in> covers (r # rs) \<Longrightarrow> fst r \<le> x"
  using separated_Cons_gap [of r rs x] separated_tl [of r rs] by force

lemma separated_end:
  assumes "separated (r # rs)" "separated (s # ss)" "covers (r # rs) = covers (s # ss)" "fst r = fst s"
  shows "snd s \<le> snd r"
proof (rule ccontr)
  assume "\<not> snd s \<le> snd r"
  moreover have "fst r \<le> snd r" using separated_tl [OF assms(1)] by blast
  ultimately have "snd r + 1 \<in> covers (s # ss)" using assms(4) by simp
  then have "snd r + 1 \<in> covers (r # rs)" using assms(3) by simp
  then have "snd r + 1 \<in> covers rs" by simp
  then show False using separated_Cons_gap [OF assms(1)] by blast
qed

lemma separated_hd:
  assumes "separated (r # rs)" "separated (s # ss)" "covers (r # rs) = covers (s # ss)"
  shows "r = s"
proof (rule prod_eqI)
  have "fst r \<in> covers (r # rs)" "fst s \<in> covers (s # ss)"
    using separated_tl [OF assms(1)] separated_tl [OF assms(2)] by simp_all
  then have "fst s \<le> fst r" "fst r \<le> fst s"
    using separated_least [OF assms(2)] separated_least [OF assms(1)] assms(3) by blast+
  then show f: "fst r = fst s" by simp
  show "snd r = snd s"
    using separated_end [OF assms f] separated_end [OF assms(2,1) assms(3) [symmetric] f [symmetric]] by simp
qed

lemma separated_tl_covers:
  "separated (r # rs) \<Longrightarrow> covers rs = {x \<in> covers (r # rs). snd r < x}"
proof (intro set_eqI iffI)
  fix x assume s: "separated (r # rs)" "x \<in> covers rs"
  have "snd r + 1 < x" by (rule separated_Cons_gap [OF s])
  then show "x \<in> {x \<in> covers (r # rs). snd r < x}" using s(2) by simp
qed auto

lemma separated_unique:
  "separated rs \<Longrightarrow> separated ss \<Longrightarrow> covers rs = covers ss \<Longrightarrow> rs = ss"
proof (induction rs arbitrary: ss)
  case Nil
  show ?case
  proof (cases ss)
    case (Cons s ss')
    then have "fst s \<in> covers ss" using separated_tl [of s ss'] Nil.prems(2) by simp
    then show ?thesis using Nil.prems(3) by simp
  qed simp
next
  case (Cons r rs)
  have "fst r \<in> covers (r # rs)" using separated_tl [OF Cons.prems(1)] by simp
  then obtain s ss' where ss: "ss = s # ss'" using Cons.prems(3) by (cases ss) auto
  have "r = s" using separated_hd Cons.prems unfolding ss by blast
  moreover have "covers rs = covers ss'"
    using separated_tl_covers Cons.prems unfolding ss \<open>r = s\<close> by metis
  ultimately show ?case
    using Cons.IH [of ss'] separated_tl Cons.prems unfolding ss by blast
qed


lemma cidrRange_block:
  assumes "parseCidr c = Inr (base, len)"
  obtains a b where "cidrRange c = Inr (a, b)" "cidr_addresses c = {a..b}" "a \<le> b" "b < 2 ^ 32"
proof -
  obtain n where n: "ipToNum base = Inr n" "n < 2 ^ 32" "len \<le> 32" "cidr_addresses c = block n len"
    using parseCidr_facts [OF assms] .
  define size :: nat where "size = 2 ^ (32 - len)"
  have pos: "0 < size" by (simp add: size_def)
  have start: "n - n mod size = n div size * size" by (metis minus_mod_eq_div_mult)
  have "cidrRange c = Inr (n - n mod size, n - n mod size + size - 1)"
    by (simp add: cidrRange_def assms n(1) Let_def size_def)
  then have r: "cidrRange c = Inr (n div size * size, n div size * size + size - 1)" unfolding start .
  have "cidr_addresses c = {n div size * size..n div size * size + size - 1}"
    using block_interval [OF n(2,3)] n(4) by (simp only: size_def)
  moreover have "n div size * size + size \<le> 2 ^ 32"
    using aligned_top [OF n(2,3)] by (simp only: size_def)
  then have "n div size * size + size - 1 < 2 ^ 32" using pos by linarith
  ultimately show thesis using that [OF r] pos by simp
qed

lemma map_res_total: "\<forall>x \<in> set xs. \<exists>y. f x = Inr y \<Longrightarrow> \<exists>ys. map_res f xs = Inr ys"
  by (induction xs) auto

lemma cidrRange_parse: "cidrRange c = Inr r \<Longrightarrow> \<exists>p. parseCidr c = Inr p"
  by (auto simp: cidrRange_def res_simps)

lemma cidrRange_facts:
  assumes "cidrRange c = Inr (a, b)"
  shows "cidr_addresses c = {a..b}" "a \<le> b" "b < 2 ^ 32"
proof -
  obtain base len where "parseCidr c = Inr (base, len)" using cidrRange_parse [OF assms] by auto
  then obtain a' b' where "cidrRange c = Inr (a', b')" "cidr_addresses c = {a'..b'}" "a' \<le> b'" "b' < 2 ^ 32"
    by (rule cidrRange_block)
  with assms show "cidr_addresses c = {a..b}" "a \<le> b" "b < 2 ^ 32" by simp_all
qed

lemma map_res_ranges:
  assumes "map_res cidrRange cs = Inr rs"
  shows "covers rs = (\<Union>c \<in> set cs. cidr_addresses c)" "\<forall>r \<in> set rs. fst r \<le> snd r \<and> snd r < 2 ^ 32"
proof -
  have "list_all2 (\<lambda>x y. cidrRange x = Inr y) cs rs" using assms by (simp add: map_res_Inr_iff)
  then have "covers rs = (\<Union>c \<in> set cs. cidr_addresses c) \<and> (\<forall>r \<in> set rs. fst r \<le> snd r \<and> snd r < 2 ^ 32)"
  proof (induction cs rs rule: list_all2_induct)
    case (Cons c cs r rs)
    then show ?case using cidrRange_facts [of c "fst r" "snd r"] by (simp only: covers_simps) simp
  qed simp
  then show "covers rs = (\<Union>c \<in> set cs. cidr_addresses c)" "\<forall>r \<in> set rs. fst r \<le> snd r \<and> snd r < 2 ^ 32"
    by blast+
qed

lemma covers_bound: "separated rs \<Longrightarrow> r \<in> set rs \<Longrightarrow> fst r \<in> covers rs \<and> snd r \<in> covers rs"
proof (induction rs)
  case (Cons s rs)
  then show ?case using separated_tl [OF Cons.prems(1)] by auto
qed simp

lemma address_intervals:
  assumes "\<forall>c \<in> set cs. \<exists>p. parseCidr c = Inr p"
  shows "\<exists>ivs rs. firewallAddressIntervals cs = Inr ivs
    \<and> list_all2 (\<lambda>r iv. ipToNum (fst iv) = Inr (fst r) \<and> ipToNum (snd iv) = Inr (snd r)) rs ivs
    \<and> separated rs \<and> covers rs = (\<Union>c \<in> set cs. cidr_addresses c)"
proof -
  have "\<forall>c \<in> set cs. \<exists>r. cidrRange c = Inr r"
    using assms by (metis cidrRange_block surj_pair)
  then obtain ranges where ranges: "map_res cidrRange cs = Inr ranges" using map_res_total by blast
  define rs where "rs = foldl merge_round [] (sort ranges)"
  note f = map_res_ranges [OF ranges]
  have rs: "separated rs" "covers rs = (\<Union>c \<in> set cs. cidr_addresses c)"
    using merge_sorted [of ranges] f by (auto simp: rs_def)
  have bound: "x < 2 ^ 32" if "x \<in> covers ranges" for x
    using that f(2) unfolding covers_def by fastforce
  have lt: "fst r < 2 ^ 32" "snd r < 2 ^ 32" if "r \<in> set rs" for r
    using covers_bound [OF rs(1) that] rs(2) f(1) bound by auto
  let ?print = "\<lambda>(start, stop). bind_res (numToIp (int start)) (\<lambda>first.
       bind_res (numToIp (int stop)) (\<lambda>last. Inr (first, last)))"
  have print: "\<exists>f l. ?print r = Inr (f, l) \<and> ipToNum f = Inr (fst r) \<and> ipToNum l = Inr (snd r)" if "r \<in> set rs" for r
  proof -
    have lt': "fst r < 2 ^ 32" "snd r < 2 ^ 32" using lt [OF that] by blast+
    obtain f l where fl: "numToIp (int (fst r)) = Inr f" "numToIp (int (snd r)) = Inr l"
      using numToIp_nat [OF lt'(1)] numToIp_nat [OF lt'(2)] by blast
    then have "?print r = Inr (f, l)" by (cases r) simp
    then show ?thesis using ipToNum_numToIp [OF lt'(1) fl(1)] ipToNum_numToIp [OF lt'(2) fl(2)] by blast
  qed
  then obtain ivs where ivs: "map_res ?print rs = Inr ivs" using map_res_total [of rs ?print] by blast
  have "list_all2 (\<lambda>r iv. ?print r = Inr iv) rs ivs" using ivs by (simp add: map_res_Inr_iff)
  then have "list_all2 (\<lambda>r iv. ipToNum (fst iv) = Inr (fst r) \<and> ipToNum (snd iv) = Inr (snd r)) rs ivs"
    by (rule list.rel_mono_strong) (use print in fastforce)
  moreover have "firewallAddressIntervals cs = Inr ivs"
    using ranges ivs by (simp add: firewallAddressIntervals_def rs_def)
  ultimately show ?thesis using rs by blast
qed



subsection \<open>Properties\<close>

text \<open>C30. The canonical form of a list of port ranges covers exactly the same ports, is sorted with a
  gap between neighbours, and two lists cover the same ports exactly when their canonical forms are
  equal; in particular canonicalisation is idempotent.\<close>

theorem canonical_ports_correct:
  assumes "\<forall>r \<in> set rs. fst r \<le> snd r" "\<forall>r \<in> set ss. fst r \<le> snd r"
  shows "covers (canonicalFirewallPorts rs) = covers rs \<and> separated (canonicalFirewallPorts rs)
    \<and> (canonicalFirewallPorts rs = canonicalFirewallPorts ss \<longleftrightarrow> covers rs = covers ss)"
proof -
  have c: "covers (canonicalFirewallPorts rs) = covers rs" "separated (canonicalFirewallPorts rs)"
    using merge_sorted [OF assms(1)] by (simp_all add: canonicalFirewallPorts_def)
  have d: "covers (canonicalFirewallPorts ss) = covers ss" "separated (canonicalFirewallPorts ss)"
    using merge_sorted [OF assms(2)] by (simp_all add: canonicalFirewallPorts_def)
  have "canonicalFirewallPorts rs = canonicalFirewallPorts ss \<longleftrightarrow> covers rs = covers ss"
    using c d separated_unique by metis
  with c show ?thesis by blast
qed

text \<open>For CIDRs that parse, the address intervals handed to nft exist, are the texts of
  separated ascending intervals, and cover exactly the addresses of the CIDRs.\<close>

theorem address_intervals_exact:
  assumes "\<forall>c \<in> set cs. \<exists>p. parseCidr c = Inr p"
  shows "\<exists>ivs rs. firewallAddressIntervals cs = Inr ivs
    \<and> list_all2 (\<lambda>r iv. ipToNum (fst iv) = Inr (fst r) \<and> ipToNum (snd iv) = Inr (snd r)) rs ivs
    \<and> separated rs \<and> covers rs = (\<Union>c \<in> set cs. cidr_addresses c)"
  by (rule address_intervals [OF assms])

theorem canonical_ports_correct_witness:
  "covers (canonicalFirewallPorts [(80, 90), (22, 22), (91, 95)]) = covers [(80, 90), (22, 22), (91, 95)]
   \<and> separated (canonicalFirewallPorts [(80, 90), (22, 22), (91, 95)])
   \<and> (canonicalFirewallPorts [(80, 90), (22, 22), (91, 95)] = canonicalFirewallPorts [(22, 22), (80, 95)]
       \<longleftrightarrow> covers [(80, 90), (22, 22), (91, 95)] = covers [(22, 22), (80, 95)])"
  by (rule canonical_ports_correct) simp_all

theorem address_intervals_exact_witness:
  "\<exists>ivs rs. firewallAddressIntervals [''10.0.0.0/24'', ''10.0.1.0/24'', ''192.168.0.1/32''] = Inr ivs
    \<and> list_all2 (\<lambda>r iv. ipToNum (fst iv) = Inr (fst r) \<and> ipToNum (snd iv) = Inr (snd r)) rs ivs
    \<and> separated rs
    \<and> covers rs = (\<Union>c \<in> set [''10.0.0.0/24'', ''10.0.1.0/24'', ''192.168.0.1/32'']. cidr_addresses c)"
  by (rule address_intervals_exact) (simp add: ip_eval)

text \<open>Port texts.\<close>

lemma strip_any_None:
  "\<forall>w \<in> set ws. w \<noteq> [] \<longrightarrow> hd w \<noteq> c \<Longrightarrow> strip_any ws (c # s) = None"
  by (induction ws) (auto simp: neq_Nil_conv)

lemma trim_start_id:
  assumes "t \<noteq> []" "\<forall>w \<in> set ws. w \<noteq> [] \<longrightarrow> \<not> is_digit (hd w)" "is_digit (hd t)"
  shows "trim_start ws t = t"
proof -
  have "strip_any ws (hd t # tl t) = None" by (rule strip_any_None) (use assms in auto)
  with assms(1) show ?thesis by (simp add: trim_start.simps)
qed

lemma js_trim_id:
  assumes "s \<noteq> []" "is_digit (hd s)" "is_digit (last s)"
  shows "js_trim s = s"
proof -
  have "trim_start js_whitespace s = s"
    by (rule trim_start_id) (use assms in \<open>auto simp: js_whitespace_def is_digit_def\<close>)
  moreover have "trim_start (map rev js_whitespace) (rev s) = rev s"
    by (rule trim_start_id) (use assms in \<open>auto simp: js_whitespace_def is_digit_def hd_rev\<close>)
  ultimately show ?thesis by (simp add: js_trim_def)
qed

lemma port_char_no_separator:
  assumes "is_digit c \<or> c = CHR ''-''"
  shows "strip_any port_separators (c # s) = None"
  by (rule strip_any_None) (use assms in \<open>auto simp: port_separators_def js_whitespace_def is_digit_def\<close>)

lemma port_items_append:
  "\<forall>c \<in> set p. is_digit c \<or> c = CHR ''-'' \<Longrightarrow> port_items item (p @ s) = port_items (item @ p) s"
proof (induction p arbitrary: item)
  case (Cons c p)
  have "port_items item ((c # p) @ s) = port_items (item @ [c]) (p @ s)"
    using port_char_no_separator [of c "p @ s"] Cons.prems by (subst port_items.simps) simp
  with Cons show ?case by simp
qed simp

lemma strip_comma: "strip_any port_separators (CHR '','' # s) = Some s"
  and strip_space: "strip_any port_separators (CHR '' '' # s) = Some s"
  by (simp_all add: port_separators_def js_whitespace_def)

lemma port_items_separator: "item \<noteq> [] \<Longrightarrow> port_items item ('', '' @ s) = item # port_items [] s"
  by (subst port_items.simps, simp add: strip_comma, subst port_items.simps, simp add: strip_space)

lemma format_port_range_chars: "\<forall>c \<in> set (format_port_range r). is_digit c \<or> c = CHR ''-''"
  using show_nat_digits by (auto simp: format_port_range_def)

lemma format_port_range_nonempty: "format_port_range r \<noteq> []"
  by (simp add: format_port_range_def)

lemma port_items_format: "port_items [] (formatFirewallPorts rs) = map format_port_range rs"
proof (induction rs)
  case Nil
  show ?case by (simp add: formatFirewallPorts_def port_items.simps)
next
  case (Cons r rs)
  show ?case
  proof (cases rs)
    case Nil
    have "port_items [] (format_port_range r @ []) = [format_port_range r]"
      using port_items_append [OF format_port_range_chars, of "[]" r "[]"] format_port_range_nonempty
      by (simp add: port_items.simps)
    with Nil show ?thesis by (simp add: formatFirewallPorts_def)
  next
    case (Cons r' rs')
    then have "formatFirewallPorts (r # rs) = format_port_range r @ '', '' @ formatFirewallPorts rs"
      by (simp add: formatFirewallPorts_def)
    then show ?thesis
      using port_items_append [OF format_port_range_chars, of "[]" r] format_port_range_nonempty
        port_items_separator Cons.IH by simp
  qed
qed

lemma show_nat_no_minus: "CHR ''-'' \<notin> set (show_nat n)"
  by (simp add: show_nat_no_char)

lemma port_digits_show: "n \<le> 65535 \<Longrightarrow> port_digits (show_nat n)"
  using show_nat_digits [of n] length_show_nat [of n 4]
  by (simp add: port_digits_def list_all_iff Suc_le_eq)

lemma parse_format_item: "zFirewallPortRange r \<Longrightarrow> parse_port_item (format_port_range r) = Inr r"
  by (cases r) (auto simp: parse_port_item_def format_port_range_def zFirewallPortRange_def
      split_char_append split_char_id show_nat_no_minus port_digits_show)

text \<open>Valid port ranges survive their text form: parsing what \<open>formatFirewallPorts\<close> prints
  gives back the same list.\<close>

theorem ports_text_roundtrip:
  assumes "\<forall>r \<in> set rs. zFirewallPortRange r"
  shows "parseFirewallPorts (formatFirewallPorts rs) = Inr rs"
  using assms unfolding parseFirewallPorts_def port_items_format
  by (induction rs) (simp_all add: parse_format_item)

theorem ports_text_roundtrip_witness:
  "parseFirewallPorts (formatFirewallPorts [(22, 22), (8000, 9000)]) = Inr [(22, 22), (8000, 9000)]"
  by (rule ports_text_roundtrip) (simp add: zFirewallPortRange_def)

end
