(* ===== verification/Guest_Firewall.thy ===== *)
theory Guest_Firewall
  imports Firewall_Protocol
begin

text \<open>
  The agent's egress firewall: the nft rendering of a document
  (\<open>packages/agent/src/firewall-render.ts\<close>) and the class that keeps the table in place
  (\<open>packages/agent/src/firewall.ts\<close>).

  What nft and the store answer to each call is an argument (\<open>Inl\<close> for an exception), so the
  properties hold whatever nft does. The class runs its nft work one operation at a time; a
  connection reset may fall between any two steps of an operation, which only \<open>apply\<close> can
  notice, and its model takes where it fell as an argument. Every operation returns, beside the new
  state, the list of nft calls it made with what they returned: the log the properties speak about.
  Listeners and the publication of status changes are not part of the state.
\<close>

subsection \<open>Rendering\<close>

definition AGENT_FIREWALL_TABLE :: string where
  "AGENT_FIREWALL_TABLE = ''nyabase_firewall''"

definition UNKNOWN_FIREWALL_OWNER :: string where
  "UNKNOWN_FIREWALL_OWNER = ''unknown''"

definition FAIL_CLOSED_KEY :: string where
  "FAIL_CLOSED_KEY = ''fail-closed''"

definition firewallComment :: "string \<Rightarrow> string \<Rightarrow> string" where
  "firewallComment owner key = ''nyabase egress server='' @ owner @ '' digest='' @ key"

text \<open>One alternative of \<open>COMMENT_PATTERN\<close>: \<open>n\<close> lower-case hex digits, or a fixed word.\<close>

definition take_word :: "nat \<Rightarrow> string \<Rightarrow> string \<Rightarrow> (string \<times> string) option" where
  "take_word n word s =
     (if n \<le> length s \<and> list_all is_lower_hex (take n s) then Some (take n s, drop n s)
      else if starts_with word s then Some (word, drop (length word) s)
      else None)"

definition take_text :: "string \<Rightarrow> string \<Rightarrow> string option" where
  "take_text p s = (if starts_with p s then Some (drop (length p) s) else None)"

definition quote :: char where
  "quote = CHR 0x22"

definition match_comment :: "string \<Rightarrow> (string \<times> string) option" where
  "match_comment s =
     (case take_text (''comment '' @ [quote] @ ''nyabase egress server='') s of
        None \<Rightarrow> None
      | Some s1 \<Rightarrow> (case take_word 32 UNKNOWN_FIREWALL_OWNER s1 of
          None \<Rightarrow> None
        | Some (owner, s2) \<Rightarrow> (case take_text '' digest='' s2 of
            None \<Rightarrow> None
          | Some s3 \<Rightarrow> (case take_word 64 FAIL_CLOSED_KEY s3 of
              None \<Rightarrow> None
            | Some (key, s4) \<Rightarrow> (if starts_with [quote] s4 then Some (owner, key) else None)))))"

text \<open>\<open>COMMENT_PATTERN.exec(listing)\<close>: the leftmost match.\<close>

fun parseFirewallComment :: "string \<Rightarrow> (string \<times> string) option" where
  "parseFirewallComment [] = None"
| "parseFirewallComment (c # s) =
     (case match_comment (c # s) of Some r \<Rightarrow> Some r | None \<Rightarrow> parseFirewallComment s)"

definition is_server_owner :: "string \<Rightarrow> bool" where
  "is_server_owner s \<longleftrightarrow> length s = 32 \<and> list_all is_lower_hex s"

definition firewallOwnerOf :: "string option \<Rightarrow> string" where
  "firewallOwnerOf serverId =
     (case serverId of
        None \<Rightarrow> UNKNOWN_FIREWALL_OWNER
      | Some s \<Rightarrow>
          (let hex = to_lower (filter (\<lambda>c. c \<noteq> CHR ''-'') s)
           in if is_server_owner hex then hex else UNKNOWN_FIREWALL_OWNER))"

definition GUESTS :: string where
  "GUESTS = [quote] @ ''nyh*'' @ [quote]"

definition limitOver :: "nat \<Rightarrow> nat \<Rightarrow> string" where
  "limitOver perSecond burst =
     ''limit rate over '' @ show_nat perSecond @ ''/second burst '' @ show_nat burst @ '' packets''"

definition dynamicSet :: "string \<Rightarrow> string \<Rightarrow> string \<Rightarrow> string list" where
  "dynamicSet name key timeout =
     [''set '' @ name @ '' {'', ''  typeof '' @ key, ''  size '' @ show_nat 65536,
      ''  flags dynamic,timeout'', ''  timeout '' @ timeout, ''}'']"

definition GUARD_SETS :: "string list" where
  "GUARD_SETS = dynamicSet ''arp_broadcast_budget'' ''iifname'' ''1m''
     @ dynamicSet ''unlearned_budget'' ''iifname'' ''1m''
     @ dynamicSet ''learned_macs'' ''ether saddr'' ''5m''"

definition GUARD_RULES :: "string list" where
  "GUARD_RULES =
     [''ether daddr ff:ff:ff:ff:ff:ff ether type arp update @arp_broadcast_budget { iifname ''
        @ limitOver 20 100 @ '' } drop'',
      ''ether daddr ff:ff:ff:ff:ff:ff ether type arp accept'',
      ''ether daddr & 01:00:00:00:00:00 == 01:00:00:00:00:00 drop'',
      ''ip daddr 224.0.0.0/3 drop'',
      ''meta l4proto udp udp dport { 67, 68 } drop'',
      ''ether daddr != @learned_macs update @unlearned_budget { iifname ''
        @ limitOver 20 200 @ '' } drop'']"

definition learning_chain :: "string \<Rightarrow> string list" where
  "learning_chain hook =
     [''chain learn_'' @ hook @ '' {'',
      ''  type filter hook '' @ hook @ '' priority 100; policy accept;'',
      ''  oifname '' @ GUESTS @ '' ether type arp update @learned_macs { ether saddr }'',
      ''  oifname '' @ GUESTS @ '' add @learned_macs { ether saddr }'',
      ''}'']"

definition LEARNING_CHAINS :: "string list" where
  "LEARNING_CHAINS = learning_chain ''forward'' @ learning_chain ''output''"

definition addressSet :: "string list \<Rightarrow> ip_error + string" where
  "addressSet cs = bind_res (firewallAddressIntervals cs) (\<lambda>ivs.
     Inr (''{ '' @ join_str '', '' (map (\<lambda>(first, last).
       if first = last then first else first @ ''-'' @ last) ivs) @ '' }''))"

fun fw_action_text :: "firewall_action \<Rightarrow> string" where
  "fw_action_text Accept = ''accept''"
| "fw_action_text Drop = ''drop''"
| "fw_action_text Reject = ''reject''"

fun protocol_text :: "firewall_protocol \<Rightarrow> string" where
  "protocol_text All = ''all''"
| "protocol_text Tcp = ''tcp''"
| "protocol_text Udp = ''udp''"

definition ports_text :: "firewall_rule_spec \<Rightarrow> string" where
  "ports_text rule =
     (if ports rule = [] then []
      else '' '' @ protocol_text (protocol rule) @ '' dport { ''
        @ join_str '', '' (map format_port_range (ports rule)) @ '' }'')"

definition verdict_text :: "firewall_rule_spec \<Rightarrow> string" where
  "verdict_text rule =
     (if action rule \<noteq> Reject then fw_action_text (action rule)
      else if protocol rule = Tcp then ''reject with tcp reset''
      else ''reject with icmp type port-unreachable'')"

definition renderFirewallRule :: "firewall_rule_spec \<Rightarrow> ip_error + string list" where
  "renderFirewallRule rule = bind_res (addressSet (cidrs rule)) (\<lambda>addresses.
     let match = ''ip daddr '' @ addresses
     in Inr (if protocol rule = All then
          (if action rule \<noteq> Reject then [match @ '' '' @ fw_action_text (action rule)]
           else [match @ '' meta l4proto tcp reject with tcp reset'',
                 match @ '' reject with icmp type admin-prohibited''])
        else
          [match @ '' meta l4proto '' @ protocol_text (protocol rule) @ ports_text rule @ '' ''
             @ verdict_text rule]
          @ (if ports_text rule \<noteq> [] \<and> action rule = Accept
             then [match @ '' ip frag-off & 0x1fff != 0 meta l4proto ''
                     @ protocol_text (protocol rule) @ '' accept'']
             else [])))"

definition document_key :: "firewall_document option \<Rightarrow> string" where
  "document_key doc = (case doc of None \<Rightarrow> FAIL_CLOSED_KEY | Some d \<Rightarrow> digest d)"

definition ruleset_body :: "firewall_document option \<Rightarrow> ip_error + string list" where
  "ruleset_body doc = (case doc of
     None \<Rightarrow> Inr [''iifname '' @ GUESTS @ '' drop'']
   | Some d \<Rightarrow> bind_res (map_res renderFirewallRule (rules d)) (\<lambda>rendered.
       Inr ([''iifname != '' @ GUESTS @ '' accept'',
             ''iifname '' @ GUESTS @ '' ether type != { ip, arp } drop'']
            @ GUARD_RULES @ concat rendered)))"

definition indent :: "string \<Rightarrow> string list \<Rightarrow> string list" where
  "indent prefix ls = map (\<lambda>line. prefix @ line) ls"

definition renderFirewallRuleset :: "string \<Rightarrow> firewall_document option \<Rightarrow> ip_error + string" where
  "renderFirewallRuleset owner doc = bind_res (ruleset_body doc) (\<lambda>body.
     Inr (join_str [CHR 0x0A]
       ([''table bridge '' @ AGENT_FIREWALL_TABLE,
         ''delete table bridge '' @ AGENT_FIREWALL_TABLE,
         ''table bridge '' @ AGENT_FIREWALL_TABLE @ '' {'',
         ''  comment '' @ [quote] @ firewallComment owner (document_key doc) @ [quote]]
        @ (if doc = None then [] else indent ''  '' GUARD_SETS)
        @ [''  chain egress {'', ''    type filter hook prerouting priority -190; policy accept;'']
        @ indent ''    '' body
        @ [''  }'']
        @ (if doc = None then [] else indent ''  '' LEARNING_CHAINS)
        @ [''}'', []])))"



subsection \<open>The class\<close>

record snapshot =
  snap_owner :: string
  snap_key :: string
  snap_listing :: string

record guest_firewall =
  owner :: string
  document :: "firewall_document option"
  documentOwner :: "string option"
  snapshot :: "snapshot option"
  verified :: bool
  confirmed :: bool
  epoch :: nat
  lastError :: "string option"

definition new_firewall :: "string option \<Rightarrow> guest_firewall" where
  "new_firewall serverId = \<lparr>owner = firewallOwnerOf serverId, document = None, documentOwner = None,
     snapshot = None, verified = False, confirmed = False, epoch = 0, lastError = None\<rparr>"

text \<open>The nft calls an operation makes, in order, and the answers they get.\<close>

datatype nft_event =
    Listed "string option"
  | Wrote string

record nft_answers =
  list_before :: "string + string option"
  write_answer :: "string + unit"
  list_after :: "string + string option"

datatype check_answer = CheckPassed | CheckRefused string | CheckFailed string

definition ip_error_text :: "ip_error \<Rightarrow> string" where
  "ip_error_text e = (case e of
     InvalidAddress ip \<Rightarrow> ''Invalid IPv4 address: '' @ ip
   | InvalidOctet ip \<Rightarrow> ''Invalid IPv4 octet in '' @ ip
   | InvalidNumber n \<Rightarrow> ''Invalid IPv4 number: '' @ (if n < 0 then ''-'' else []) @ show_nat (nat \<bar>n\<bar>)
   | InvalidCidr c \<Rightarrow> ''Invalid CIDR: '' @ c
   | InvalidPrefixLength c \<Rightarrow> ''Invalid CIDR prefix length: '' @ c)"

definition snapshotKey :: "guest_firewall \<Rightarrow> string option" where
  "snapshotKey fw = (case snapshot fw of None \<Rightarrow> None
     | Some sn \<Rightarrow> if snap_owner sn = owner fw then Some (snap_key sn) else None)"

definition present :: "guest_firewall \<Rightarrow> bool" where
  "present fw = (case document fw of None \<Rightarrow> False
     | Some d \<Rightarrow> verified fw \<and> confirmed fw \<and> snapshotKey fw = Some (digest d))"

definition refusal :: "guest_firewall \<Rightarrow> string option" where
  "refusal fw =
     (if present fw then None
      else case lastError fw of
        Some e \<Rightarrow> if e \<noteq> [] then Some e
          else if document fw = None then Some ''the agent has no firewall document yet, guest egress stays closed until the Backend sends one''
          else if \<not> confirmed fw then Some ''the Backend has not sent the firewall document on this connection yet''
          else Some ''the firewall table is not verified yet''
      | None \<Rightarrow>
          if document fw = None then Some ''the agent has no firewall document yet, guest egress stays closed until the Backend sends one''
          else if \<not> confirmed fw then Some ''the Backend has not sent the firewall document on this connection yet''
          else Some ''the firewall table is not verified yet'')"

definition settle :: "bool \<Rightarrow> string option \<Rightarrow> guest_firewall \<Rightarrow> guest_firewall" where
  "settle v e fw = fw\<lparr>verified := v, lastError := map_option (take 512) e\<rparr>"

definition useDocument ::
    "firewall_document option \<Rightarrow> string option \<Rightarrow> guest_firewall \<Rightarrow> guest_firewall" where
  "useDocument doc own fw = fw\<lparr>document := doc, documentOwner := own, snapshot := None, verified := False\<rparr>"

text \<open>\<open>install\<close>: \<open>Inl\<close> is the exception, with the state it leaves behind.\<close>

definition install ::
    "firewall_document option \<Rightarrow> nft_answers \<Rightarrow> guest_firewall
      \<Rightarrow> (string + unit) \<times> guest_firewall \<times> nft_event list" where
  "install doc ans fw =
     (let fw1 = fw\<lparr>snapshot := None\<rparr>
      in case renderFirewallRuleset (owner fw) doc of
        Inl e \<Rightarrow> (Inl (ip_error_text e), fw1, [])
      | Inr ruleset \<Rightarrow> (case write_answer ans of
          Inl e \<Rightarrow> (Inl e, fw1, [])
        | Inr _ \<Rightarrow> (case list_after ans of
            Inl e \<Rightarrow> (Inl e, fw1, [Wrote ruleset])
          | Inr listing \<Rightarrow>
              (let evs = [Wrote ruleset, Listed listing]
               in case listing of
                 None \<Rightarrow> (Inl (AGENT_FIREWALL_TABLE @ '' did not verify after apply''), fw1, evs)
               | Some l \<Rightarrow>
                   if parseFirewallComment l \<noteq> Some (owner fw, document_key doc)
                       \<or> \<not> str_includes ''hook prerouting'' l
                   then (Inl (AGENT_FIREWALL_TABLE @ '' did not verify after apply''), fw1, evs)
                   else (Inr (), fw1\<lparr>snapshot := Some \<lparr>snap_owner = owner fw,
                           snap_key = document_key doc, snap_listing = l\<rparr>\<rparr>, evs)))))"

datatype check_mode = Active | Passive

definition verify ::
    "check_mode \<Rightarrow> nft_answers \<Rightarrow> guest_firewall \<Rightarrow> guest_firewall \<times> nft_event list" where
  "verify mode ans fw =
     (case list_before ans of
        Inl e \<Rightarrow> (settle False (Some e) fw, [])
      | Inr listing \<Rightarrow>
          if listing \<noteq> None \<and> snapshot fw = Some \<lparr>snap_owner = owner fw,
               snap_key = document_key (document fw), snap_listing = the listing\<rparr>
          then (settle True None fw, [Listed listing])
          else
            (case (if mode = Passive then Option.bind listing parseFirewallComment else None) of
               Some (claimed, _) \<Rightarrow>
                 if claimed \<noteq> UNKNOWN_FIREWALL_OWNER \<and> claimed \<noteq> owner fw
                 then (settle False (Some (AGENT_FIREWALL_TABLE @ '' is owned by server '' @ claimed)) fw,
                       [Listed listing])
                 else (case install (document fw) ans fw of
                     (Inl e, fw', evs) \<Rightarrow> (settle False (Some e) fw', Listed listing # evs)
                   | (Inr _, fw', evs) \<Rightarrow> (settle True None fw', Listed listing # evs))
             | None \<Rightarrow> (case install (document fw) ans fw of
                   (Inl e, fw', evs) \<Rightarrow> (settle False (Some e) fw', Listed listing # evs)
                 | (Inr _, fw', evs) \<Rightarrow> (settle True None fw', Listed listing # evs))))"

text \<open>What the store reads: a document with the server it was written for, checked by the schema.\<close>

datatype stored_firewall = StoredDocument string firewall_document | StoredNone string

datatype restore_result = RestoredDocument | RestoredFailClosed | RestoredNone

definition restore ::
    "stored_firewall \<Rightarrow> nft_answers \<Rightarrow> nft_answers \<Rightarrow> guest_firewall
      \<Rightarrow> restore_result \<times> guest_firewall \<times> nft_event list" where
  "restore stored ans ans' fw =
     (let fw1 = (case stored of
            StoredNone _ \<Rightarrow> useDocument None None fw
          | StoredDocument sid doc \<Rightarrow>
              if sid \<noteq> owner fw then useDocument None None fw else useDocument (Some doc) (Some sid) fw);
          (fw2, evs) = verify Active ans fw1
      in if verified fw2
           then (if document fw2 \<noteq> None then RestoredDocument else RestoredFailClosed, fw2, evs)
         else if document fw2 = None then (RestoredNone, fw2, evs)
         else (case install None ans' fw2 of
             (Inl e, fw3, evs2) \<Rightarrow> (RestoredNone, settle False (Some (take 512 e)) fw3, evs @ evs2)
           | (Inr _, fw3, evs2) \<Rightarrow>
               (RestoredFailClosed,
                settle False (Some (''the stored firewall document did not apply, guest egress is closed: ''
                  @ (case lastError fw2 of None \<Rightarrow> ''unknown error'' | Some e \<Rightarrow> e))) fw3,
                evs @ evs2)))"

definition resetConfirmation :: "guest_firewall \<Rightarrow> guest_firewall" where
  "resetConfirmation fw = fw\<lparr>epoch := Suc (epoch fw), confirmed := False\<rparr>"

datatype apply_error = DocumentRefused string | ApplyFailed string

text \<open>The dry run and the write of a document that is not the current one.\<close>

definition adopt_document ::
    "firewall_document \<Rightarrow> check_answer \<Rightarrow> (string + unit) \<Rightarrow> guest_firewall
      \<Rightarrow> apply_error + guest_firewall" where
  "adopt_document doc chk written fw =
     (if map_option digest (document fw) \<noteq> Some (digest doc) \<or> documentOwner fw \<noteq> Some (owner fw) then
        (case renderFirewallRuleset (owner fw) (Some doc) of
           Inl e \<Rightarrow> Inl (ApplyFailed (ip_error_text e))
         | Inr _ \<Rightarrow> (case chk of
             CheckRefused e \<Rightarrow> Inl (DocumentRefused (''nft refused the firewall document: '' @ e))
           | CheckFailed e \<Rightarrow> Inl (ApplyFailed e)
           | CheckPassed \<Rightarrow> (case written of
               Inl e \<Rightarrow> Inl (ApplyFailed e)
             | Inr _ \<Rightarrow> Inr (useDocument (Some doc) (Some (owner fw)) fw))))
      else Inr fw)"

text \<open>
  \<open>apply\<close>, called when the epoch was \<open>epoch0\<close>; \<open>interrupted\<close>: the connection was reset after
  the epochs were compared and before the end.
\<close>

definition apply_document ::
    "nat \<Rightarrow> firewall_document \<Rightarrow> check_answer \<Rightarrow> (string + unit) \<Rightarrow> nft_answers \<Rightarrow> bool \<Rightarrow> guest_firewall
      \<Rightarrow> (apply_error + unit) \<times> guest_firewall \<times> nft_event list" where
  "apply_document epoch0 doc chk written ans interrupted fw =
     (if owner fw = UNKNOWN_FIREWALL_OWNER
      then (Inl (ApplyFailed ''the agent does not know its server id yet''), fw, [])
      else case adopt_document doc chk written fw of
        Inl e \<Rightarrow> (Inl e, fw, [])
      | Inr fw1 \<Rightarrow>
          (let fw2 = (if epoch0 = epoch fw1 then fw1\<lparr>confirmed := True\<rparr> else fw1);
               (fw3, evs) = verify Active ans fw2;
               fw4 = (if interrupted then resetConfirmation fw3 else fw3)
           in if \<not> verified fw4 then
                (Inl (ApplyFailed (''the firewall document did not apply: ''
                   @ (case lastError fw4 of None \<Rightarrow> ''unknown error'' | Some e \<Rightarrow> e))), fw4, evs)
              else if \<not> confirmed fw4 then
                (Inl (ApplyFailed ''the control connection this firewall document came on has ended''), fw4, evs)
              else (Inr (), fw4, evs)))"

definition setServerId ::
    "string \<Rightarrow> nft_answers \<Rightarrow> guest_firewall \<Rightarrow> guest_firewall \<times> nft_event list" where
  "setServerId serverId ans fw =
     (let own = firewallOwnerOf (Some serverId)
      in if own = owner fw then (fw, [])
         else
           (let fw1 = fw\<lparr>owner := own\<rparr>;
                fw2 = (if documentOwner fw1 \<noteq> Some own then useDocument None None fw1 else fw1)
            in verify Active ans fw2))"

text \<open>\<open>ensure\<close>: a passive check, and whether guest NICs may come up.\<close>

definition ensure :: "nft_answers \<Rightarrow> guest_firewall \<Rightarrow> bool \<times> guest_firewall \<times> nft_event list" where
  "ensure ans fw = (let (fw', evs) = verify Passive ans fw in (present fw', fw', evs))"


subsection \<open>Valid documents render\<close>

lemma isCanonicalCidr_parses:
  assumes "isCanonicalCidr c"
  shows "\<exists>p. parseCidr c = Inr p"
proof -
  have "canonicalFirewallCidr c = Inr c"
    using assms by (auto simp: isCanonicalCidr_def split: sum.splits)
  then obtain c' where "canonicalIpv4Cidr c' = Inr c" by (auto simp: canonicalFirewallCidr_def Let_def)
  then show ?thesis by (rule canonicalIpv4Cidr_facts) (use parseCidr_canonical in blast)
qed

lemma valid_rule_renders:
  assumes "zFirewallRuleSpec rule"
  shows "\<exists>ls. renderFirewallRule rule = Inr ls"
proof -
  have "\<forall>c \<in> set (cidrs rule). \<exists>p. parseCidr c = Inr p"
    using assms isCanonicalCidr_parses by (auto simp: zFirewallRuleSpec_def list_all_iff)
  then obtain ivs where "firewallAddressIntervals (cidrs rule) = Inr ivs" using address_intervals by blast
  then show ?thesis by (simp add: renderFirewallRule_def addressSet_def Let_def)
qed

lemma valid_ruleset_body:
  assumes "zFirewallDocument d"
  shows "\<exists>body. ruleset_body (Some d) = Inr body"
proof -
  have "\<forall>rule \<in> set (rules d). \<exists>ls. renderFirewallRule rule = Inr ls"
    using assms valid_rule_renders by (auto simp: zFirewallDocument_def list_all_iff)
  then obtain rendered where "map_res renderFirewallRule (rules d) = Inr rendered" using map_res_total by blast
  then show ?thesis by (simp add: ruleset_body_def)
qed

lemma valid_document_renders:
  assumes "zFirewallDocument d"
  shows "\<exists>out. renderFirewallRuleset own (Some d) = Inr out"
proof -
  obtain body where "ruleset_body (Some d) = Inr body" using valid_ruleset_body [OF assms] by blast
  then show ?thesis unfolding renderFirewallRuleset_def by (simp only: bind_res.simps) blast
qed

lemma take_text_append [simp]: "take_text p (p @ s) = Some s"
  by (simp add: take_text_def starts_with_def)

lemma take_word_hex: "length w = n \<Longrightarrow> list_all is_lower_hex w \<Longrightarrow> take_word n word (w @ s) = Some (w, s)"
  by (simp add: take_word_def)

lemma take_word_word:
  assumes "word = c # cs" "\<not> is_lower_hex c" "0 < n"
  shows "take_word n word (word @ s) = Some (word, s)"
proof -
  have "\<not> list_all is_lower_hex (take n (word @ s))" using assms by (cases n) auto
  then show ?thesis by (auto simp: take_word_def starts_with_iff)
qed

lemma match_comment_hit:
  assumes "is_server_owner own \<or> own = UNKNOWN_FIREWALL_OWNER"
    and "length key = 64 \<and> list_all is_lower_hex key \<or> key = FAIL_CLOSED_KEY"
  shows "match_comment (''comment '' @ [quote] @ ''nyabase egress server='' @ own @ '' digest='' @ key @ [quote] @ s)
    = Some (own, key)"
proof -
  have hex: "is_lower_hex (CHR ''f'')" "\<not> is_lower_hex (CHR ''i'')" "\<not> is_lower_hex (CHR ''u'')"
    by (simp_all add: is_lower_hex_def is_digit_def)
  have own: "take_word 32 UNKNOWN_FIREWALL_OWNER (own @ t) = Some (own, t)" for t
    using assms(1)
  proof
    assume "is_server_owner own"
    then show ?thesis by (intro take_word_hex) (simp_all add: is_server_owner_def)
  next
    assume o: "own = UNKNOWN_FIREWALL_OWNER"
    show ?thesis unfolding o
      by (rule take_word_word [of _ "CHR ''u''" "''nknown''"]) (simp_all add: UNKNOWN_FIREWALL_OWNER_def hex)
  qed
  have key: "take_word 64 FAIL_CLOSED_KEY (key @ t) = Some (key, t)" for t
    using assms(2)
  proof
    assume "length key = 64 \<and> list_all is_lower_hex key"
    then show ?thesis by (intro take_word_hex) simp_all
  next
    assume k: "key = FAIL_CLOSED_KEY"
    have "\<not> list_all is_lower_hex (take 64 (FAIL_CLOSED_KEY @ t))"
      by (simp add: FAIL_CLOSED_KEY_def hex)
    then show ?thesis unfolding k by (auto simp: take_word_def starts_with_iff)
  qed
  have "match_comment ((''comment '' @ [quote] @ ''nyabase egress server='') @ own @ '' digest='' @ key @ [quote] @ s)
      = Some (own, key)"
    unfolding match_comment_def take_text_append option.case own prod.case key
    by (simp add: starts_with_def)
  then show ?thesis by simp
qed

lemma parse_skip: "CHR ''c'' \<notin> set pre \<Longrightarrow> parseFirewallComment (pre @ s) = parseFirewallComment s"
  by (induction pre) (auto simp: match_comment_def take_text_def)

lemma parse_hit: "match_comment s = Some r \<Longrightarrow> parseFirewallComment s = Some r"
  by (cases s) (auto simp: match_comment_def take_text_def)

lemma join_lines: "ls \<noteq> [] \<Longrightarrow> join_str sep (a # b # c # d # ls) = a @ sep @ b @ sep @ c @ sep @ d @ sep @ join_str sep ls"
  by (cases ls) auto

lemma join_str_includes: "p \<in> set ls \<Longrightarrow> \<exists>a b. join_str sep ls = a @ p @ b"
proof (induction sep ls rule: join_str.induct)
  case (3 sep q r ls)
  show ?case
  proof (cases "p = q")
    case True
    then show ?thesis by (metis append_Nil join_str.simps(3))
  next
    case False
    then obtain a b where "join_str sep (r # ls) = a @ p @ b" using 3 by auto
    then show ?thesis by (metis append.assoc join_str.simps(3))
  qed
qed (auto intro: exI [of _ "[]"])

lemma join_str_includes_suffix: "p \<in> set ls \<Longrightarrow> \<exists>a b. join_str sep (xs @ ls) = a @ p @ b"
  by (rule join_str_includes) simp

text \<open>The verification after a write recognises what the agent writes: the text of any valid
  document, and of the fail-closed table, carries exactly the owner and key it was rendered for, and
  the prerouting hook.\<close>

theorem rendered_text_identifies_itself:
  assumes "is_server_owner own \<or> own = UNKNOWN_FIREWALL_OWNER"
    and "doc = None \<or> (\<exists>d. doc = Some d \<and> zFirewallDocument d)"
  shows "\<exists>out. renderFirewallRuleset own doc = Inr out
    \<and> parseFirewallComment out = Some (own, document_key doc) \<and> str_includes ''hook prerouting'' out"
proof -
  obtain body where body: "ruleset_body doc = Inr body"
    using assms(2) valid_ruleset_body by (cases doc) (auto simp: ruleset_body_def)
  define ls where "ls = (if doc = None then [] else indent ''  '' GUARD_SETS)
      @ [''  chain egress {'', ''    type filter hook prerouting priority -190; policy accept;'']
      @ indent ''    '' body @ [''  }''] @ (if doc = None then [] else indent ''  '' LEARNING_CHAINS) @ [''}'', []]"
  define out where "out = join_str [CHR 0x0A]
      ([''table bridge '' @ AGENT_FIREWALL_TABLE, ''delete table bridge '' @ AGENT_FIREWALL_TABLE,
        ''table bridge '' @ AGENT_FIREWALL_TABLE @ '' {'',
        ''  comment '' @ [quote] @ firewallComment own (document_key doc) @ [quote]] @ ls)"
  have out: "renderFirewallRuleset own doc = Inr out"
    unfolding renderFirewallRuleset_def body bind_res.simps out_def ls_def by (rule refl)
  have t: "ls \<noteq> []" "''    type filter hook prerouting priority -190; policy accept;'' \<in> set ls"
    by (simp_all add: ls_def)
  have key: "length (document_key doc) = 64 \<and> list_all is_lower_hex (document_key doc)
      \<or> document_key doc = FAIL_CLOSED_KEY"
    using assms(2) by (auto simp: document_key_def zFirewallDocument_def)
  note hit = match_comment_hit [OF assms(1) key]
  define pre where "pre = ''table bridge nyabase_firewall'' @ [CHR 0x0A] @ ''delete table bridge nyabase_firewall''
      @ [CHR 0x0A] @ ''table bridge nyabase_firewall {'' @ [CHR 0x0A] @ ''  ''"
  have pre: "CHR ''c'' \<notin> set pre" by (simp add: pre_def)
  define hit_text where "hit_text = ''comment '' @ [quote] @ ''nyabase egress server='' @ own @ '' digest=''
      @ document_key doc @ [quote] @ CHR 0x0A # join_str [CHR 0x0A] ls"
  have split: "out = pre @ hit_text"
    unfolding hit_text_def out_def append_Cons append_Nil join_lines [OF t(1)] AGENT_FIREWALL_TABLE_def firewallComment_def pre_def
    by simp
  have "parseFirewallComment hit_text = Some (own, document_key doc)"
    unfolding hit_text_def by (rule parse_hit [OF hit])
  then have "parseFirewallComment out = Some (own, document_key doc)"
    by (simp only: split parse_skip [OF pre])
  moreover obtain a b where "out = a @ ''    type filter hook prerouting priority -190; policy accept;'' @ b"
    using join_str_includes_suffix [OF t(2)] unfolding out_def by blast
  then have "out = (a @ ''    type filter '') @ ''hook prerouting'' @ ('' priority -190; policy accept;'' @ b)" by simp
  then have "str_includes ''hook prerouting'' out" unfolding str_includes_iff by blast
  ultimately show ?thesis using out by blast
qed

subsection \<open>Runs\<close>

text \<open>
  A run: the class, every nft call so far, and the epoch and digest of every document request run so
  far. A request may have been made \<open>stale\<close> resets before it runs; requests run in the order they
  were made, so never with an epoch before that of the request run last.
\<close>

datatype firewall_op =
    ApplyRequest nat firewall_document check_answer "string + unit" nft_answers bool
  | Reset
  | ServerId string nft_answers
  | Ensure nft_answers

record firewall_run =
  fw :: guest_firewall
  nft_log :: "nft_event list"
  sent :: "(nat \<times> string) list"

definition request_epoch :: "nat \<Rightarrow> firewall_run \<Rightarrow> nat" where
  "request_epoch stale r =
     max (epoch (fw r) - stale) (if sent r = [] then 0 else fst (last (sent r)))"

fun firewall_step :: "firewall_run \<Rightarrow> firewall_op \<Rightarrow> firewall_run" where
  "firewall_step r (ApplyRequest stale doc chk written ans interrupted) =
     (if zFirewallDocument doc then
        (case apply_document (request_epoch stale r) doc chk written ans interrupted (fw r) of
           (_, fw', evs) \<Rightarrow> r\<lparr>fw := fw', nft_log := nft_log r @ evs,
             sent := sent r @ [(request_epoch stale r, digest doc)]\<rparr>)
      else r)"
| "firewall_step r Reset = r\<lparr>fw := resetConfirmation (fw r)\<rparr>"
| "firewall_step r (ServerId sid ans) =
     (case setServerId sid ans (fw r) of (fw', evs) \<Rightarrow> r\<lparr>fw := fw', nft_log := nft_log r @ evs\<rparr>)"
| "firewall_step r (Ensure ans) =
     (case ensure ans (fw r) of (_, fw', evs) \<Rightarrow> r\<lparr>fw := fw', nft_log := nft_log r @ evs\<rparr>)"

definition stored_ok :: "stored_firewall \<Rightarrow> bool" where
  "stored_ok st = (case st of StoredDocument sid doc \<Rightarrow> is_server_owner sid \<and> zFirewallDocument doc
     | StoredNone _ \<Rightarrow> True)"

definition firewall_start ::
    "string option \<Rightarrow> stored_firewall \<Rightarrow> nft_answers \<Rightarrow> nft_answers \<Rightarrow> firewall_run" where
  "firewall_start sid st ans ans' =
     (case restore st ans ans' (new_firewall sid) of (_, fw', evs) \<Rightarrow> \<lparr>fw = fw', nft_log = evs, sent = []\<rparr>)"


subsection \<open>Invariant\<close>

text \<open>
  \<open>backed\<close>: the snapshot is the listing nft gave right after it took the rendering of the current
  document, or of the fail-closed table.
\<close>

definition backed :: "guest_firewall \<Rightarrow> nft_event list \<Rightarrow> bool" where
  "backed f evs \<longleftrightarrow> (\<forall>sn. snapshot f = Some sn \<longrightarrow> (\<exists>doc ruleset pre post.
     (doc = document f \<or> doc = None) \<and> snap_key sn = document_key doc
     \<and> renderFirewallRuleset (snap_owner sn) doc = Inr ruleset
     \<and> parseFirewallComment (snap_listing sn) = Some (snap_owner sn, snap_key sn)
     \<and> str_includes ''hook prerouting'' (snap_listing sn)
     \<and> evs = pre @ [Wrote ruleset, Listed (Some (snap_listing sn))] @ post))"

definition fresh :: "guest_firewall \<Rightarrow> nft_event list \<Rightarrow> bool" where
  "fresh f evs \<longleftrightarrow> (verified f \<longrightarrow> (\<exists>sn. snapshot f = Some sn \<and> snap_owner sn = owner f
     \<and> snap_key sn = document_key (document f) \<and> evs \<noteq> [] \<and> last evs = Listed (Some (snap_listing sn))))"

definition firewall_inv :: "firewall_run \<Rightarrow> bool" where
  "firewall_inv r \<longleftrightarrow> backed (fw r) (nft_log r) \<and> fresh (fw r) (nft_log r)
     \<and> (\<forall>d. document (fw r) = Some d \<longrightarrow> zFirewallDocument d)
     \<and> (sent r \<noteq> [] \<longrightarrow> fst (last (sent r)) \<le> epoch (fw r))
     \<and> (confirmed (fw r) \<longrightarrow> sent r \<noteq> [] \<and> fst (last (sent r)) = epoch (fw r))
     \<and> (\<forall>d. confirmed (fw r) \<longrightarrow> document (fw r) = Some d \<longrightarrow> (epoch (fw r), digest d) \<in> set (sent r))"

lemma backed_append: "backed f evs \<Longrightarrow> backed f (evs @ evs2)"
  unfolding backed_def by (metis append.assoc)

lemma backed_cong:
  "snapshot f = snapshot g \<Longrightarrow> document f = document g \<Longrightarrow> backed f evs \<longleftrightarrow> backed g evs"
  by (simp add: backed_def)

lemma backed_None: "snapshot f = None \<Longrightarrow> backed f evs"
  by (simp add: backed_def)

lemma install_fields:
  assumes "install doc ans f = (res, f', evs)"
  shows "document f' = document f" "owner f' = owner f" "confirmed f' = confirmed f" "epoch f' = epoch f"
    "documentOwner f' = documentOwner f"
  using assms by (auto simp: install_def Let_def split: sum.splits option.splits if_split_asm)

lemma install_snapshot:
  assumes "install doc ans f = (res, f', evs)"
  shows "res = Inr () \<longrightarrow> (\<exists>ruleset l. renderFirewallRuleset (owner f) doc = Inr ruleset
      \<and> evs = [Wrote ruleset, Listed (Some l)] \<and> parseFirewallComment l = Some (owner f, document_key doc)
      \<and> str_includes ''hook prerouting'' l
      \<and> snapshot f' = Some \<lparr>snap_owner = owner f, snap_key = document_key doc, snap_listing = l\<rparr>)"
    "res \<noteq> Inr () \<longrightarrow> snapshot f' = None"
  using assms by (auto simp: install_def Let_def split: sum.splits option.splits if_split_asm)

lemma install_backed:
  assumes "install doc ans f = (res, f', evs)" "doc = document f \<or> doc = None"
  shows "backed f' (before @ evs)"
proof (cases "res = Inr ()")
  case True
  then obtain ruleset l where r: "renderFirewallRuleset (owner f) doc = Inr ruleset"
      "evs = [Wrote ruleset, Listed (Some l)]" "parseFirewallComment l = Some (owner f, document_key doc)"
      "str_includes ''hook prerouting'' l"
      "snapshot f' = Some \<lparr>snap_owner = owner f, snap_key = document_key doc, snap_listing = l\<rparr>"
    using install_snapshot [OF assms(1)] by blast
  have "before @ evs = before @ [Wrote ruleset, Listed (Some l)] @ []" using r(2) by simp
  then show ?thesis
    unfolding backed_def r(5) using assms(2) r(1,3,4) install_fields(1) [OF assms(1)]
    by (metis option.inject snapshot.select_convs)
next
  case False
  then show ?thesis using install_snapshot(2) [OF assms(1)] backed_None by blast
qed

text \<open>A verification changes only the snapshot, the flag and the error, and ends fresh.\<close>

lemma settle_fields [simp]:
  "document (settle v e f) = document f" "owner (settle v e f) = owner f" "confirmed (settle v e f) = confirmed f"
  "epoch (settle v e f) = epoch f" "documentOwner (settle v e f) = documentOwner f"
  "snapshot (settle v e f) = snapshot f" "verified (settle v e f) = v"
  by (simp_all add: settle_def)

lemma backed_settle [simp]: "backed (settle v e f) evs = backed f evs"
  by (rule backed_cong) simp_all

definition reinstall :: "string option \<Rightarrow> nft_answers \<Rightarrow> guest_firewall \<Rightarrow> guest_firewall \<times> nft_event list" where
  "reinstall listing ans f = (case install (document f) ans f of
     (Inl e, f', evs) \<Rightarrow> (settle False (Some e) f', Listed listing # evs)
   | (Inr _, f', evs) \<Rightarrow> (settle True None f', Listed listing # evs))"

lemma verify_cases:
  assumes "verify mode ans f = (f', evs)"
  obtains (silent) e where "list_before ans = Inl e" "f' = settle False (Some e) f" "evs = []"
    | (intact) l sn where "f' = settle True None f" "evs = [Listed (Some l)]" "snapshot f = Some sn"
        "snap_owner sn = owner f" "snap_key sn = document_key (document f)" "snap_listing sn = l"
    | (foreign) l claimed key e where "mode = Passive" "parseFirewallComment l = Some (claimed, key)"
        "claimed \<noteq> UNKNOWN_FIREWALL_OWNER" "claimed \<noteq> owner f"
        "f' = settle False (Some e) f" "evs = [Listed (Some l)]"
    | (installed) listing where "reinstall listing ans f = (f', evs)"
        "\<not> (mode = Passive \<and> (\<exists>l claimed key. listing = Some l \<and> parseFirewallComment l = Some (claimed, key)
            \<and> claimed \<noteq> UNKNOWN_FIREWALL_OWNER \<and> claimed \<noteq> owner f))"
proof (cases "list_before ans")
  case (Inl e)
  then show thesis using assms by (intro silent [of e]) (simp_all add: verify_def)
next
  case (Inr listing)
  show thesis
  proof (cases "listing \<noteq> None \<and> snapshot f = Some \<lparr>snap_owner = owner f,
               snap_key = document_key (document f), snap_listing = the listing\<rparr>")
    case True
    then show thesis using assms Inr intact by (fastforce simp: verify_def)
  next
    case False
    show thesis
    proof (cases "if mode = Passive then Option.bind listing parseFirewallComment else None")
      case None
      have "reinstall listing ans f = (f', evs)"
        using assms Inr False None by (auto simp: verify_def reinstall_def split del: if_split)
      moreover have "\<not> (mode = Passive \<and> (\<exists>l claimed key. listing = Some l
            \<and> parseFirewallComment l = Some (claimed, key)
            \<and> claimed \<noteq> UNKNOWN_FIREWALL_OWNER \<and> claimed \<noteq> owner f))"
        using None by auto
      ultimately show thesis by (rule installed)
    next
      case (Some c)
      obtain claimed key where c: "c = (claimed, key)" by (cases c)
      have p: "mode = Passive" using Some by (auto split: if_split_asm)
      then obtain l where l: "listing = Some l" "parseFirewallComment l = Some (claimed, key)"
        using Some c by (cases listing) auto
      show thesis
      proof (cases "claimed \<noteq> UNKNOWN_FIREWALL_OWNER \<and> claimed \<noteq> owner f")
        case True
        then show thesis
          using assms Inr False p l by (intro foreign [of l claimed key]) (auto simp: verify_def)
      next
        case nt: False
        have "reinstall listing ans f = (f', evs)"
          using assms Inr False p l nt by (auto simp: verify_def reinstall_def)
        then show thesis using nt l by (intro installed [of listing]) auto
      qed
    qed
  qed
qed


lemma reinstall_keeps:
  assumes "reinstall listing ans f = (f', evs)"
  shows "document f' = document f" "owner f' = owner f" "confirmed f' = confirmed f" "epoch f' = epoch f"
    "documentOwner f' = documentOwner f" "backed f' (before @ evs)" "fresh f' (before @ evs)"
proof -
  obtain res g evs2 where i: "install (document f) ans f = (res, g, evs2)" by (cases "install (document f) ans f")
  note fields = install_fields [OF i]
  have f': "\<exists>v e. f' = settle v e g \<and> (v \<longleftrightarrow> res = Inr ())" and evs: "evs = Listed listing # evs2"
    using assms i by (auto simp: reinstall_def split: sum.splits)
  then obtain v e where ve: "f' = settle v e g" "v \<longleftrightarrow> res = Inr ()" by blast
  show "document f' = document f" "owner f' = owner f" "confirmed f' = confirmed f" "epoch f' = epoch f"
    "documentOwner f' = documentOwner f"
    using fields ve(1) by simp_all
  show "backed f' (before @ evs)"
    using install_backed [OF i, of "before @ [Listed listing]"] by (simp add: ve(1) evs)
  show "fresh f' (before @ evs)"
    using install_snapshot(1) [OF i] fields ve by (auto simp: fresh_def evs)
qed

lemma verify_keeps:
  assumes "verify mode ans f = (f', evs)" "backed f before"
  shows "document f' = document f" "owner f' = owner f" "confirmed f' = confirmed f" "epoch f' = epoch f"
    "documentOwner f' = documentOwner f" "backed f' (before @ evs)" "fresh f' (before @ evs)"
proof -
  have "document f' = document f \<and> owner f' = owner f \<and> confirmed f' = confirmed f \<and> epoch f' = epoch f
    \<and> documentOwner f' = documentOwner f \<and> backed f' (before @ evs) \<and> fresh f' (before @ evs)"
    using assms(1)
  proof (cases rule: verify_cases)
    case (silent e)
    then show ?thesis using assms(2) by (simp add: fresh_def)
  next
    case (intact l sn)
    then show ?thesis using backed_append [OF assms(2)] by (simp add: fresh_def)
  next
    case (foreign l claimed key e)
    then show ?thesis using backed_append [OF assms(2)] by (simp add: fresh_def)
  next
    case (installed listing)
    then show ?thesis using reinstall_keeps [OF installed(1)] by blast
  qed
  then show "document f' = document f" "owner f' = owner f" "confirmed f' = confirmed f" "epoch f' = epoch f"
    "documentOwner f' = documentOwner f" "backed f' (before @ evs)" "fresh f' (before @ evs)" by blast+
qed

lemma reset_fields [simp]:
  "document (resetConfirmation f) = document f" "owner (resetConfirmation f) = owner f"
  "snapshot (resetConfirmation f) = snapshot f" "verified (resetConfirmation f) = verified f"
  "\<not> confirmed (resetConfirmation f)" "epoch (resetConfirmation f) = Suc (epoch f)"
  by (simp_all add: resetConfirmation_def)

lemma reset_inv: "backed (resetConfirmation f) evs = backed f evs" "fresh (resetConfirmation f) evs = fresh f evs"
  by (simp_all add: backed_def fresh_def)

lemma adopt_keeps:
  assumes "adopt_document doc chk written f = Inr f1"
  shows "epoch f1 = epoch f" "confirmed f1 = confirmed f" "map_option digest (document f1) = Some (digest doc)"
    "backed f evs \<Longrightarrow> backed f1 evs"
    "document f1 = Some doc \<or> document f1 = document f"
  using assms
  by (auto simp: adopt_document_def useDocument_def backed_None split: if_split_asm sum.splits check_answer.splits)

lemma apply_document_cases:
  assumes "apply_document e0 doc chk written ans interrupted f = (res, f', evs)"
  obtains (unchanged) "f' = f" "evs = []"
    | (ran) f1 f2 f3 where "adopt_document doc chk written f = Inr f1"
        "f2 = (if e0 = epoch f1 then f1\<lparr>confirmed := True\<rparr> else f1)"
        "verify Active ans f2 = (f3, evs)" "f' = (if interrupted then resetConfirmation f3 else f3)"
proof (cases "owner f = UNKNOWN_FIREWALL_OWNER")
  case True
  then show thesis using assms unchanged by (simp add: apply_document_def)
next
  case False
  show thesis
  proof (cases "adopt_document doc chk written f")
    case (Inl e)
    then show thesis using assms False unchanged by (simp add: apply_document_def)
  next
    case (Inr f1)
    define f2 where "f2 = (if e0 = epoch f1 then f1\<lparr>confirmed := True\<rparr> else f1)"
    obtain f3 evs2 where v: "verify Active ans f2 = (f3, evs2)" by (cases "verify Active ans f2")
    have "f' = (if interrupted then resetConfirmation f3 else f3) \<and> evs = evs2"
      using assms False Inr v unfolding apply_document_def f2_def [symmetric]
      by (auto simp: Let_def f2_def [symmetric] split: if_split_asm)
    then show thesis using ran [OF Inr f2_def] v by blast
  qed
qed

lemma apply_keeps:
  assumes inv: "firewall_inv r" and valid_doc: "zFirewallDocument doc"
    and e0: "e0 \<le> epoch (fw r)" "sent r \<noteq> [] \<longrightarrow> fst (last (sent r)) \<le> e0"
    and step: "apply_document e0 doc chk written ans interrupted (fw r) = (res, f', evs)"
  shows "firewall_inv (r\<lparr>fw := f', nft_log := nft_log r @ evs, sent := sent r @ [(e0, digest doc)]\<rparr>)"
proof -
  have current: "e0 = epoch (fw r)" if "confirmed (fw r)"
    using inv e0 that by (auto simp: firewall_inv_def)
  show ?thesis using step
  proof (cases rule: apply_document_cases)
    case unchanged
    then show ?thesis using inv e0 current unfolding firewall_inv_def by auto
  next
    case (ran f1 f2 f3)
    note a = adopt_keeps [OF ran(1)]
    have b: "backed f2 (nft_log r)"
      using a(4) inv by (auto simp: firewall_inv_def ran(2) backed_def)
    note k = verify_keeps [OF ran(3) b]
    have doc: "document f3 = document f1" "epoch f3 = epoch (fw r)"
      using k(1,4) a(1) by (simp_all add: ran(2))
    obtain d where d: "document f1 = Some d" "digest d = digest doc" using a(3) by (cases "document f1") auto
    have valid: "zFirewallDocument d" using a(5) d(1) valid_doc inv by (auto simp: firewall_inv_def)
    have conf: "e0 = epoch (fw r)" if "confirmed f3"
      using that k(3) a(1,2) current by (auto simp: ran(2) split: if_split_asm)
    have ep: "e0 \<le> epoch (if interrupted then resetConfirmation f3 else f3)"
      using e0(1) doc(2) by (simp add: resetConfirmation_def)
    show ?thesis
    proof (cases interrupted)
      case True
      then show ?thesis using k(6,7) doc d valid ep
        by (simp add: firewall_inv_def ran(4) reset_inv)
    next
      case False
      then show ?thesis using k(6,7) doc d valid conf ep
        by (auto simp: firewall_inv_def ran(4))
    qed
  qed
qed

lemma firewall_step_inv: "firewall_inv r \<Longrightarrow> firewall_inv (firewall_step r op)"
proof (cases op)
  case (ApplyRequest stale doc chk written ans interrupted)
  assume inv: "firewall_inv r"
  have e: "request_epoch stale r \<le> epoch (fw r)" "sent r \<noteq> [] \<longrightarrow> fst (last (sent r)) \<le> request_epoch stale r"
    using inv by (auto simp: request_epoch_def firewall_inv_def)
  show ?thesis
    using apply_keeps [OF inv _ e] inv ApplyRequest by (auto split: prod.splits)
next
  case Reset
  assume "firewall_inv r"
  then show ?thesis using Reset
    by (auto simp: firewall_inv_def reset_inv)
next
  case (ServerId sid ans)
  assume inv: "firewall_inv r"
  define f1 where "f1 = (fw r)\<lparr>owner := firewallOwnerOf (Some sid)\<rparr>"
  define f2 where "f2 = (if documentOwner f1 \<noteq> Some (firewallOwnerOf (Some sid)) then useDocument None None f1 else f1)"
  have f2: "epoch f2 = epoch (fw r)" "confirmed f2 = confirmed (fw r)" "document f2 \<in> {None, document (fw r)}"
    by (auto simp: f2_def f1_def useDocument_def)
  have b: "backed f2 (nft_log r)"
    using inv by (auto simp: firewall_inv_def f2_def f1_def useDocument_def backed_def)
  obtain f3 evs where v: "verify Active ans f2 = (f3, evs)" by (cases "verify Active ans f2")
  note k = verify_keeps [OF v b]
  have s: "setServerId sid ans (fw r) = (if firewallOwnerOf (Some sid) = owner (fw r) then (fw r, []) else (f3, evs))"
    using v by (simp add: setServerId_def Let_def f1_def [symmetric] f2_def [symmetric])
  show ?thesis
    using inv k f2 ServerId s by (auto simp: firewall_inv_def)
next
  case (Ensure ans)
  assume inv: "firewall_inv r"
  obtain f' evs where v: "verify Passive ans (fw r) = (f', evs)" by (cases "verify Passive ans (fw r)")
  have b: "backed (fw r) (nft_log r)" using inv by (simp add: firewall_inv_def)
  show ?thesis using inv verify_keeps [OF v b] Ensure v by (auto simp: firewall_inv_def ensure_def)
qed

interpretation firewall_runs: preserved firewall_step firewall_inv
  by unfold_locales (rule firewall_step_inv)

lemma firewall_inv_start:
  assumes "stored_ok st"
  shows "firewall_inv (firewall_start sid st ans ans')"
proof -
  define f1 where "f1 = (case st of
      StoredNone _ \<Rightarrow> useDocument None None (new_firewall sid)
    | StoredDocument sid2 doc \<Rightarrow> if sid2 \<noteq> owner (new_firewall sid) then useDocument None None (new_firewall sid)
        else useDocument (Some doc) (Some sid2) (new_firewall sid))"
  have f1: "snapshot f1 = None" "\<not> confirmed f1" "\<forall>d. document f1 = Some d \<longrightarrow> zFirewallDocument d"
    using assms by (auto simp: f1_def useDocument_def new_firewall_def stored_ok_def split: stored_firewall.splits)
  obtain f2 evs where v: "verify Active ans f1 = (f2, evs)" by (cases "verify Active ans f1")
  note k = verify_keeps [OF v backed_None [OF f1(1), of "[]"]]
  have fin: "firewall_inv \<lparr>fw = f2, nft_log = evs, sent = []\<rparr>" using k f1 by (simp add: firewall_inv_def)
  show ?thesis
  proof (cases "verified f2 \<or> document f2 = None")
    case True
    then have "\<exists>res. restore st ans ans' (new_firewall sid) = (res, f2, evs)"
      unfolding restore_def f1_def [symmetric] by (auto simp: v)
    then show ?thesis using fin by (auto simp: firewall_start_def)
  next
    case False
    obtain res f3 evs2 where i: "install None ans' f2 = (res, f3, evs2)" by (cases "install None ans' f2")
    have b: "backed f3 (evs @ evs2)" by (rule install_backed [OF i]) simp
    have "\<exists>r' e. restore st ans ans' (new_firewall sid) = (r', settle False e f3, evs @ evs2)"
      unfolding restore_def f1_def [symmetric] using False i by (auto simp: v split: sum.splits)
    then obtain r' e where "restore st ans ans' (new_firewall sid) = (r', settle False e f3, evs @ evs2)" by blast
    then show ?thesis using b install_fields [OF i] k f1 by (simp add: firewall_start_def firewall_inv_def fresh_def)
  qed
qed



subsection \<open>Properties\<close>

lemma present_backed:
  assumes "firewall_inv r" "present (fw r)"
  obtains d ruleset l pre post where "document (fw r) = Some d"
    "renderFirewallRuleset (owner (fw r)) (Some d) = Inr ruleset"
    "parseFirewallComment l = Some (owner (fw r), digest d)" "str_includes ''hook prerouting'' l"
    "nft_log r = pre @ [Wrote ruleset, Listed (Some l)] @ post" "last (nft_log r) = Listed (Some l)"
    "(epoch (fw r), digest d) \<in> set (sent r)"
proof -
  obtain d where d: "document (fw r) = Some d" "verified (fw r)" "confirmed (fw r)"
    using assms(2) by (auto simp: present_def split: option.splits)
  obtain sn where sn: "snapshot (fw r) = Some sn" "snap_owner sn = owner (fw r)" "snap_key sn = digest d"
      "last (nft_log r) = Listed (Some (snap_listing sn))"
    using assms(1) d by (auto simp: firewall_inv_def fresh_def document_key_def)
  obtain doc ruleset pre post where b: "doc = document (fw r) \<or> doc = None" "snap_key sn = document_key doc"
      "renderFirewallRuleset (snap_owner sn) doc = Inr ruleset"
      "parseFirewallComment (snap_listing sn) = Some (snap_owner sn, snap_key sn)"
      "str_includes ''hook prerouting'' (snap_listing sn)"
      "nft_log r = pre @ [Wrote ruleset, Listed (Some (snap_listing sn))] @ post"
    using assms(1) sn(1) unfolding firewall_inv_def backed_def by blast
  have "length (digest d) = 64" using assms(1) d(1) by (auto simp: firewall_inv_def zFirewallDocument_def)
  then have "doc \<noteq> None" using b(2) sn(3) by (cases doc) (auto simp: document_key_def FAIL_CLOSED_KEY_def)
  then have doc: "doc = Some d" using b(1) d(1) by auto
  have conf: "(epoch (fw r), digest d) \<in> set (sent r)" using assms(1) d by (simp add: firewall_inv_def)
  show thesis by (rule that [OF d(1) b(3) [unfolded doc sn(2)] b(4) [unfolded sn(2,3)] b(5,6) sn(4) conf])
qed

text \<open>C10. The agent lets a guest NIC come up only on evidence: when \<open>ensure\<close> answers yes, at any
  point of any run, the table listing nft returned in that very call is the one it returned right after
  it took the rendering of the agent's current document for its current server id, the listing carries
  that owner and digest and the prerouting hook, and the Backend sent that digest on the current
  connection.\<close>

theorem nic_needs_enforced_document:
  assumes "stored_ok st" "r = foldl firewall_step (firewall_start sid st a a') ops"
    and "ensure ans (fw r) = (True, f', evs)"
  shows "\<exists>d ruleset l pre post. document f' = Some d
    \<and> renderFirewallRuleset (owner f') (Some d) = Inr ruleset
    \<and> nft_log r @ evs = pre @ [Wrote ruleset, Listed (Some l)] @ post
    \<and> evs \<noteq> [] \<and> last evs = Listed (Some l)
    \<and> parseFirewallComment l = Some (owner f', digest d) \<and> str_includes ''hook prerouting'' l
    \<and> (epoch f', digest d) \<in> set (sent r)"
proof -
  have inv: "firewall_inv r" unfolding assms(2)
    by (rule firewall_runs.run_inv [OF firewall_inv_start [OF assms(1)]])
  define r' where "r' = firewall_step r (Ensure ans)"
  have r': "fw r' = f'" "nft_log r' = nft_log r @ evs" "sent r' = sent r" "present (fw r')"
    using assms(3) by (auto simp: r'_def ensure_def split: prod.splits)
  have inv': "firewall_inv r'" unfolding r'_def by (rule firewall_step_inv [OF inv])
  have v: "verify Passive ans (fw r) = (f', evs)" "verified f'"
    using assms(3) by (auto simp: ensure_def present_def split: prod.splits option.splits)
  have "evs \<noteq> []"
    using v(1)
  proof (cases rule: verify_cases)
    case (silent e)
    then show ?thesis using v(2) by simp
  next
    case (installed listing)
    then show ?thesis by (auto simp: reinstall_def split: prod.splits sum.splits)
  qed auto
  then have last: "last (nft_log r @ evs) = last evs" by simp
  show ?thesis
    by (rule present_backed [OF inv' r'(4)]; unfold r'(1-3) last) (use \<open>evs \<noteq> []\<close> in blast)
qed

text \<open>C26. A passive check never overwrites another server's table: when the listing claims a server
  id that is neither unknown nor the agent's own, nothing is written and guest NICs stay down.\<close>

theorem passive_check_respects_owner:
  assumes "stored_ok st" "r = foldl firewall_step (firewall_start sid st a a') ops"
    and "list_before ans = Inr (Some l)" "parseFirewallComment l = Some (claimed, key)"
    and "claimed \<noteq> UNKNOWN_FIREWALL_OWNER" "claimed \<noteq> owner (fw r)"
  shows "\<exists>f'. ensure ans (fw r) = (False, f', [Listed (Some l)])"
proof -
  have inv: "firewall_inv r" unfolding assms(2)
    by (rule firewall_runs.run_inv [OF firewall_inv_start [OF assms(1)]])
  have "snapshot (fw r) \<noteq> Some \<lparr>snap_owner = owner (fw r), snap_key = document_key (document (fw r)), snap_listing = l\<rparr>"
    using inv assms(4,6) by (auto simp: firewall_inv_def backed_def)
  then have "\<exists>e. verify Passive ans (fw r) = (settle False (Some e) (fw r), [Listed (Some l)])"
    using assms(3-6) by (auto simp: verify_def)
  then show ?thesis by (auto simp: ensure_def present_def split: option.splits)
qed

text \<open>C27. A document that arrives on the current connection takes effect whenever nft cooperates: with
  a known server id, a dry run and a write that succeed and a listing afterwards that carries the
  document's comment and hook, \<open>apply\<close> succeeds and guest NICs may come up.\<close>

theorem apply_takes_effect:
  assumes "owner f \<noteq> UNKNOWN_FIREWALL_OWNER" "zFirewallDocument doc"
    and "list_before ans = Inr listing" "write_answer ans = Inr ()"
    and "list_after ans = Inr (Some l)" "parseFirewallComment l = Some (owner f, digest doc)"
    and "str_includes ''hook prerouting'' l"
    and "\<forall>d. document f = Some d \<longrightarrow> zFirewallDocument d"
  shows "\<exists>f' evs. apply_document (epoch f) doc CheckPassed (Inr ()) ans False f = (Inr (), f', evs)
    \<and> present f' \<and> map_option digest (document f') = Some (digest doc)"
proof -
  obtain f1 where f1: "adopt_document doc CheckPassed (Inr ()) f = Inr f1"
      "map_option digest (document f1) = Some (digest doc)" "owner f1 = owner f" "epoch f1 = epoch f"
      "\<exists>rs. renderFirewallRuleset (owner f) (document f1) = Inr rs"
  proof (cases "map_option digest (document f) \<noteq> Some (digest doc) \<or> documentOwner f \<noteq> Some (owner f)")
    case True
    obtain out where "renderFirewallRuleset (owner f) (Some doc) = Inr out"
      using valid_document_renders [OF assms(2)] by blast
    then show ?thesis using that [of "useDocument (Some doc) (Some (owner f)) f"] True
      by (simp add: adopt_document_def useDocument_def)
  next
    case False
    then obtain d where d: "document f = Some d" by auto
    then have "zFirewallDocument d" using assms(8) by blast
    then have "\<exists>out. renderFirewallRuleset (owner f) (Some d) = Inr out" by (rule valid_document_renders)
    then show ?thesis using that [of f] d False by (simp add: adopt_document_def)
  qed
  obtain d where d: "document f1 = Some d" "digest d = digest doc" using f1(2) by (cases "document f1") auto
  define f2 where "f2 = f1\<lparr>confirmed := True\<rparr>"
  obtain rs where rs: "renderFirewallRuleset (owner f) (Some d) = Inr rs" using f1(5) d(1) by auto
  have i: "install (document f2) ans f2 = (Inr (), f2\<lparr>snapshot := Some \<lparr>snap_owner = owner f,
      snap_key = digest d, snap_listing = l\<rparr>\<rparr>, [Wrote rs, Listed (Some l)])"
    using assms(4-7) f1(3) d rs by (simp add: install_def f2_def document_key_def)
  obtain f3 evs where v: "verify Active ans f2 = (f3, evs)" by (cases "verify Active ans f2")
  have f3: "verified f3 \<and> confirmed f3 \<and> document f3 = Some d \<and> snapshotKey f3 = Some (digest d)"
    using v
  proof (cases rule: verify_cases)
    case (silent e)
    then show ?thesis using assms(3) by simp
  next
    case (intact l' sn)
    then show ?thesis using d by (simp add: f2_def snapshotKey_def document_key_def)
  next
    case (installed listing')
    then have "f3 = settle True None (f2\<lparr>snapshot := Some \<lparr>snap_owner = owner f,
      snap_key = digest d, snap_listing = l\<rparr>\<rparr>)" using i by (simp add: reinstall_def)
    then show ?thesis using d f1(3) by (simp add: f2_def snapshotKey_def)
  qed auto
  have "apply_document (epoch f) doc CheckPassed (Inr ()) ans False f = (Inr (), f3, evs)"
    using assms(1) f1(1,4) f3 v by (simp add: apply_document_def f2_def)
  then show ?thesis using f3 d(2) by (simp add: present_def)
qed



subsection \<open>Witnesses\<close>

definition sample_owner :: string where
  "sample_owner = replicate 32 (CHR ''a'')"

definition sample_document :: firewall_document where
  "sample_document = \<lparr>digest = replicate 64 (CHR ''b''),
     rules = [\<lparr>action = Drop, protocol = Tcp, cidrs = [''10.0.0.0/8''], ports = [(25, 25)]\<rparr>]\<rparr>"

definition sample_listing :: string where
  "sample_listing = ''comment '' @ [quote] @ ''nyabase egress server='' @ sample_owner @ '' digest=''
     @ replicate 64 (CHR ''b'') @ [quote] @ ''hook prerouting''"

definition nft_says :: "string option \<Rightarrow> string option \<Rightarrow> nft_answers" where
  "nft_says before after = \<lparr>list_before = Inr before, write_answer = Inr (), list_after = Inr after\<rparr>"

definition sample_run :: firewall_run where
  "sample_run = foldl firewall_step
     (firewall_start (Some sample_owner) (StoredNone []) (nft_says None None) (nft_says None None))
     [Reset, ApplyRequest 0 sample_document CheckPassed (Inr ()) (nft_says None (Some sample_listing)) False]"

lemma owner_not_unknown: "length w = 32 \<Longrightarrow> w \<noteq> UNKNOWN_FIREWALL_OWNER"
  by (auto simp: UNKNOWN_FIREWALL_OWNER_def)

lemma sample_owner_hex: "is_server_owner sample_owner" "firewallOwnerOf (Some sample_owner) = sample_owner"
    "sample_owner \<noteq> UNKNOWN_FIREWALL_OWNER" "length sample_owner = 32"
proof -
  have l: "to_lower (filter (\<lambda>c. c \<noteq> CHR ''-'') sample_owner) = sample_owner"
    by (simp add: sample_owner_def to_lower_def lower_char_def is_upper_def)
  show h: "is_server_owner sample_owner"
    by (simp add: sample_owner_def is_server_owner_def is_lower_hex_def list_all_iff)
  show "firewallOwnerOf (Some sample_owner) = sample_owner" using l h by (simp add: firewallOwnerOf_def)
  show len: "length sample_owner = 32" by (simp add: sample_owner_def)
  then show "sample_owner \<noteq> UNKNOWN_FIREWALL_OWNER" by (rule owner_not_unknown)
qed

lemma sample_document_valid: "zFirewallDocument sample_document"
  by (simp add: sample_document_def zFirewallDocument_def is_lower_hex_def list_all_iff zFirewallRuleSpec_def
      isCanonicalCidr_def canonicalFirewallCidr_def js_trim_def trim_start.simps js_whitespace_def ip_eval
      zFirewallPortRange_def FIREWALL_MAX_CIDRS_PER_RULE_def FIREWALL_MAX_PORT_RANGES_PER_RULE_def
      FIREWALL_MAX_RULES_PER_SERVER_def FIREWALL_MAX_CIDRS_PER_SERVER_def)

lemma sample_listing_parses:
  "parseFirewallComment sample_listing = Some (sample_owner, digest sample_document)"
  "str_includes ''hook prerouting'' sample_listing"
proof -
  show "parseFirewallComment sample_listing = Some (sample_owner, digest sample_document)"
    unfolding sample_listing_def sample_document_def firewall_document.select_convs
    by (rule parse_hit, rule match_comment_hit)
       (use sample_owner_hex in \<open>auto simp: list_all_iff is_lower_hex_def\<close>)
  have "sample_listing = (''comment '' @ [quote] @ ''nyabase egress server='' @ sample_owner @ '' digest=''
     @ replicate 64 (CHR ''b'') @ [quote]) @ ''hook prerouting'' @ []"
    unfolding sample_listing_def by simp
  then show "str_includes ''hook prerouting'' sample_listing" unfolding str_includes_iff by blast
qed

lemma sample_run_fw:
  "owner (fw sample_run) = sample_owner \<and> document (fw sample_run) = Some sample_document
   \<and> confirmed (fw sample_run) \<and> epoch (fw sample_run) = 1
   \<and> snapshot (fw sample_run) = Some \<lparr>snap_owner = sample_owner, snap_key = digest sample_document,
       snap_listing = sample_listing\<rparr>"
proof -
  obtain out where out: "renderFirewallRuleset sample_owner (Some sample_document) = Inr out"
    using valid_document_renders [OF sample_document_valid] by blast
  obtain closed where closed: "renderFirewallRuleset sample_owner None = Inr closed"
    by (simp add: renderFirewallRuleset_def ruleset_body_def)
  show ?thesis
    using sample_owner_hex sample_document_valid sample_listing_parses out closed
    by (simp add: sample_run_def firewall_start_def restore_def new_firewall_def useDocument_def verify_def
        install_def nft_says_def settle_def Let_def apply_document_def adopt_document_def resetConfirmation_def
        request_epoch_def document_key_def)
qed

lemma sample_ensure:
  "fst (ensure (nft_says (Some sample_listing) None) (fw sample_run))"
  using sample_run_fw
  by (simp add: ensure_def verify_def nft_says_def settle_def present_def snapshotKey_def document_key_def)

theorem nic_needs_enforced_document_witness:
  "\<exists>d ruleset l pre post.
      document (fst (snd (ensure (nft_says (Some sample_listing) None) (fw sample_run)))) = Some d
    \<and> renderFirewallRuleset
        (owner (fst (snd (ensure (nft_says (Some sample_listing) None) (fw sample_run))))) (Some d) = Inr ruleset
    \<and> nft_log sample_run @ snd (snd (ensure (nft_says (Some sample_listing) None) (fw sample_run)))
        = pre @ [Wrote ruleset, Listed (Some l)] @ post
    \<and> snd (snd (ensure (nft_says (Some sample_listing) None) (fw sample_run))) \<noteq> []
    \<and> last (snd (snd (ensure (nft_says (Some sample_listing) None) (fw sample_run)))) = Listed (Some l)
    \<and> parseFirewallComment l
        = Some (owner (fst (snd (ensure (nft_says (Some sample_listing) None) (fw sample_run)))), digest d)
    \<and> str_includes ''hook prerouting'' l
    \<and> (epoch (fst (snd (ensure (nft_says (Some sample_listing) None) (fw sample_run)))), digest d)
        \<in> set (sent sample_run)"
  by (rule nic_needs_enforced_document [OF _ sample_run_def])
     (use sample_ensure in \<open>simp_all add: stored_ok_def prod_eq_iff\<close>)

definition foreign_listing :: string where
  "foreign_listing = ''comment '' @ [quote] @ ''nyabase egress server='' @ replicate 32 (CHR ''c'') @ '' digest=''
     @ replicate 64 (CHR ''b'') @ [quote] @ []"

theorem passive_check_respects_owner_witness:
  "\<exists>f'. ensure (nft_says (Some foreign_listing) None) (fw sample_run) = (False, f', [Listed (Some foreign_listing)])"
proof (rule passive_check_respects_owner [OF _ sample_run_def])
  show "stored_ok (StoredNone [])" by (simp add: stored_ok_def)
  show "list_before (nft_says (Some foreign_listing) None) = Inr (Some foreign_listing)" by (simp add: nft_says_def)
  show "parseFirewallComment foreign_listing = Some (replicate 32 (CHR ''c''), replicate 64 (CHR ''b''))"
    unfolding foreign_listing_def
    by (rule parse_hit, rule match_comment_hit) (auto simp: is_server_owner_def list_all_iff is_lower_hex_def)
  show "replicate 32 (CHR ''c'') \<noteq> UNKNOWN_FIREWALL_OWNER" by (rule owner_not_unknown) simp
  show "replicate 32 (CHR ''c'') \<noteq> owner (fw sample_run)" using sample_run_fw by (simp add: sample_owner_def)
qed

theorem apply_takes_effect_witness:
  "\<exists>f' evs. apply_document (epoch (new_firewall (Some sample_owner))) sample_document CheckPassed (Inr ())
      (nft_says None (Some sample_listing)) False (new_firewall (Some sample_owner)) = (Inr (), f', evs)
    \<and> present f' \<and> map_option digest (document f') = Some (digest sample_document)"
  by (rule apply_takes_effect)
     (use sample_owner_hex sample_document_valid sample_listing_parses in
       \<open>simp_all add: new_firewall_def nft_says_def\<close>)

theorem rendered_text_identifies_itself_witness:
  "\<exists>out. renderFirewallRuleset sample_owner (Some sample_document) = Inr out
    \<and> parseFirewallComment out = Some (sample_owner, document_key (Some sample_document))
    \<and> str_includes ''hook prerouting'' out"
  by (rule rendered_text_identifies_itself) (use sample_owner_hex sample_document_valid in simp_all)

end
