(* ===== verification/Ipv6_Guard.thy ===== *)
theory Ipv6_Guard
  imports Guest_Firewall
begin

text \<open>
  The agent's guest-IPv6 guard, \<open>packages/agent/src/ipv6-guard.ts\<close>: the table it renders, when a
  listing counts as complete, and one check. The coalescing of concurrent calls to \<open>ensure\<close> runs
  each check to its end before the next, so a check is one step. What nft answers is an argument, as
  for the firewall.
\<close>

subsection \<open>The table\<close>

definition AGENT_IPV6_GUARD_TABLE :: string where
  "AGENT_IPV6_GUARD_TABLE = ''nyabase_guard''"

definition guard_drop :: "string \<Rightarrow> string" where
  "guard_drop direction = ''    '' @ direction @ '' '' @ GUESTS @ '' ether type { ip6, 8021q, 8021ad } drop''"

definition guard_lines :: "string list" where
  "guard_lines =
     [''table bridge '' @ AGENT_IPV6_GUARD_TABLE,
      ''delete table bridge '' @ AGENT_IPV6_GUARD_TABLE,
      ''table bridge '' @ AGENT_IPV6_GUARD_TABLE @ '' {'',
      ''  chain forward {'',
      ''    type filter hook forward priority -200; policy accept;'',
      guard_drop ''iifname'',
      guard_drop ''oifname'',
      ''  }'',
      ''  chain input {'',
      ''    type filter hook input priority -200; policy accept;'',
      guard_drop ''iifname'',
      ''  }'',
      ''  chain output {'',
      ''    type filter hook output priority -200; policy accept;'',
      guard_drop ''oifname'',
      ''  }'',
      ''}'',
      []]"

definition renderIpv6GuardRuleset :: string where
  "renderIpv6GuardRuleset = join_str [CHR 0x0A] guard_lines"

definition is_guard_drop :: "string \<Rightarrow> bool" where
  "is_guard_drop line = (str_includes ''nyh'' line \<and> str_includes ''ip6'' line \<and> ends_with ''drop'' line)"

definition guardTableIsComplete :: "string \<Rightarrow> bool" where
  "guardTableIsComplete listing =
     (let drops = filter is_guard_drop (map js_trim (split_char (CHR 0x0A) listing))
      in list_all (\<lambda>hook. str_includes hook listing) [''hook forward'', ''hook input'', ''hook output'']
         \<and> length drops \<ge> 4)"


subsection \<open>The check\<close>

record ipv6_guard =
  guard_present :: bool
  guard_error :: "string option"

definition new_guard :: ipv6_guard where
  "new_guard = \<lparr>guard_present = False, guard_error = Some ''not verified yet''\<rparr>"

definition complete_listing :: "string option \<Rightarrow> bool" where
  "complete_listing listing = (case listing of None \<Rightarrow> False | Some l \<Rightarrow> l \<noteq> [] \<and> guardTableIsComplete l)"

text \<open>The guarded part of \<open>check\<close>: the verdict and the error, with the nft calls made.\<close>

definition guard_verdict :: "nft_answers \<Rightarrow> bool \<times> string option \<times> nft_event list" where
  "guard_verdict ans =
     (case list_before ans of
        Inl e \<Rightarrow> (False, Some (take 512 e), [])
      | Inr listing \<Rightarrow>
          (let second = (\<lambda>evs. case list_after ans of
                 Inl e \<Rightarrow> (False, Some (take 512 e), evs)
               | Inr listed \<Rightarrow>
                   (complete_listing listed,
                    (if complete_listing listed then None else Some ''guard table did not verify after apply''),
                    evs @ [Listed listed]))
           in if complete_listing listing then second [Listed listing]
              else case write_answer ans of
                Inl e \<Rightarrow> (False, Some (take 512 e), [Listed listing])
              | Inr _ \<Rightarrow> second [Listed listing, Wrote renderIpv6GuardRuleset]))"

definition check_guard :: "nft_answers \<Rightarrow> ipv6_guard \<Rightarrow> bool \<times> ipv6_guard \<times> nft_event list" where
  "check_guard ans g =
     (case guard_verdict ans of (ok, err, evs) \<Rightarrow>
        (ok,
         (if ok \<noteq> guard_present g \<or> err \<noteq> guard_error g
          then \<lparr>guard_present = ok, guard_error = err\<rparr> else g),
         evs))"


subsection \<open>Properties\<close>

lemma trim_start_stop: "strip_any ws s = None \<Longrightarrow> trim_start ws s = s"
  by (simp add: trim_start.simps [of ws s])

lemma trim_start_space: "trim_start js_whitespace (CHR '' '' # s) = trim_start js_whitespace s"
proof -
  have "strip_any js_whitespace (CHR '' '' # s) = Some s" by (simp add: js_whitespace_def)
  then show ?thesis by (simp add: trim_start.simps [of _ "CHR '' '' # s"])
qed

lemma js_trim_indented:
  assumes "is_lower c" "is_lower d"
  shows "js_trim (''    '' @ (c # s @ [d])) = c # s @ [d]"
proof -
  have start: "strip_any js_whitespace (c # s @ [d]) = None"
    by (rule strip_any_None) (use assms in \<open>auto simp: js_whitespace_def is_lower_def\<close>)
  have stop: "strip_any (map rev js_whitespace) (d # rev s @ [c]) = None"
    by (rule strip_any_None) (use assms in \<open>auto simp: js_whitespace_def is_lower_def\<close>)
  show ?thesis using trim_start_stop [OF start] trim_start_stop [OF stop]
    by (simp add: js_trim_def trim_start_space)
qed

lemma guard_drop_line:
  assumes "direction = c # d" "is_lower c"
  shows "is_guard_drop (js_trim (guard_drop direction))"
proof -
  define core where "core = direction @ '' '' @ GUESTS @ '' ether type { ip6, 8021q, 8021ad } drop''"
  have p: "is_lower (CHR ''p'')" by (simp add: is_lower_def)
  have "js_trim (''    '' @ (c # (d @ '' '' @ GUESTS @ '' ether type { ip6, 8021q, 8021ad } dro'') @ ''p'')) = core"
    unfolding js_trim_indented [OF assms(2) p] by (simp add: core_def assms(1))
  then have trim: "js_trim (guard_drop direction) = core" by (simp add: guard_drop_def assms(1))
  have "core = (direction @ '' '' @ [quote]) @ ''nyh'' @ (''*'' @ [quote] @ '' ether type { ip6, 8021q, 8021ad } drop'')"
    "core = (direction @ '' '' @ GUESTS @ '' ether type { '') @ ''ip6'' @ '', 8021q, 8021ad } drop''"
    "core = (direction @ '' '' @ GUESTS @ '' ether type { ip6, 8021q, 8021ad } '') @ ''drop''"
    by (simp_all add: core_def GUESTS_def)
  then show ?thesis unfolding is_guard_drop_def trim str_includes_iff ends_with_iff by blast
qed

lemma guard_lines_no_newline: "\<forall>line \<in> set guard_lines. CHR 0x0A \<notin> set line"
  by (simp add: guard_lines_def guard_drop_def GUESTS_def quote_def AGENT_IPV6_GUARD_TABLE_def)

lemma split_rendered: "split_char (CHR 0x0A) renderIpv6GuardRuleset = guard_lines"
  unfolding renderIpv6GuardRuleset_def
  by (rule split_join) (use guard_lines_no_newline in \<open>simp_all add: guard_lines_def\<close>)

lemma rendered_hook: "p @ hook @ s \<in> set guard_lines \<Longrightarrow> str_includes hook renderIpv6GuardRuleset"
  unfolding str_includes_iff renderIpv6GuardRuleset_def
  using join_str_includes [of "p @ hook @ s" guard_lines "[CHR 0x0A]"] by (metis append.assoc)

lemma rendered_guard_complete: "guardTableIsComplete renderIpv6GuardRuleset"
proof -
  have "length (filter is_guard_drop (map js_trim guard_lines)) \<ge> 4"
    using guard_drop_line [of "''iifname''" "CHR ''i''"] guard_drop_line [of "''oifname''" "CHR ''o''"]
    by (simp add: guard_lines_def is_lower_def)
  moreover have "str_includes ''hook forward'' renderIpv6GuardRuleset"
    by (rule rendered_hook [of "''    type filter ''" _ "'' priority -200; policy accept;''"]) (simp add: guard_lines_def)
  moreover have "str_includes ''hook input'' renderIpv6GuardRuleset"
    by (rule rendered_hook [of "''    type filter ''" _ "'' priority -200; policy accept;''"]) (simp add: guard_lines_def)
  moreover have "str_includes ''hook output'' renderIpv6GuardRuleset"
    by (rule rendered_hook [of "''    type filter ''" _ "'' priority -200; policy accept;''"]) (simp add: guard_lines_def)
  ultimately show ?thesis
    by (simp add: guardTableIsComplete_def split_rendered)
qed

text \<open>The guard's verification accepts the table the guard writes, and a check answers yes exactly
  when the last listing it got in that check drops guest IPv6 on every hook; after the check the
  reported presence is that answer.\<close>

theorem guard_check_correct:
  "guardTableIsComplete renderIpv6GuardRuleset
   \<and> (\<forall>ans g. fst (check_guard ans g) \<longleftrightarrow>
        (\<exists>l. l \<noteq> [] \<and> guardTableIsComplete l \<and> snd (snd (check_guard ans g)) \<noteq> []
           \<and> last (snd (snd (check_guard ans g))) = Listed (Some l) \<and> list_after ans = Inr (Some l)
           \<and> length (snd (snd (check_guard ans g))) \<ge> 2))
   \<and> (\<forall>ans g. guard_present (fst (snd (check_guard ans g))) = fst (check_guard ans g))"
proof (intro conjI allI)
  show "guardTableIsComplete renderIpv6GuardRuleset" by (rule rendered_guard_complete)
next
  fix ans :: nft_answers and g :: ipv6_guard
  show "fst (check_guard ans g) \<longleftrightarrow>
        (\<exists>l. l \<noteq> [] \<and> guardTableIsComplete l \<and> snd (snd (check_guard ans g)) \<noteq> []
           \<and> last (snd (snd (check_guard ans g))) = Listed (Some l) \<and> list_after ans = Inr (Some l)
           \<and> length (snd (snd (check_guard ans g))) \<ge> 2)"
    by (auto simp: check_guard_def guard_verdict_def Let_def complete_listing_def
        split: sum.splits option.splits if_split_asm)
  show "guard_present (fst (snd (check_guard ans g))) = fst (check_guard ans g)"
    by (auto simp: check_guard_def split: prod.splits)
qed

end
