(* ===== verification/Operation_Ledger.thy ===== *)
theory Operation_Ledger
  imports Js_Value
begin

text \<open>
  The ledger of Incus operations the agent started, \<open>packages/agent/src/operation-ledger.ts\<close>.

  The private \<open>entries\<close> map is an association list in insertion order. Every reading of the clock
  is an argument. Runs of the ledger (\<open>ledger_step\<close>) advance a clock that never goes back and
  keep, beside the ledger, the list of ids recorded so far with the time of each: the history the
  properties compare the ledger with. The text of an Incus response is parsed by the argument
  \<open>parse\<close>, which stands for \<open>JSON.parse\<close> on the decoded bytes (\<open>None\<close> where it throws).
\<close>

subsection \<open>The class\<close>

record ledger =
  entries :: "(string \<times> int) list"
  maxEntries :: int
  ttlMs :: int

definition OPERATION_LEDGER_MAX_ENTRIES :: int where
  "OPERATION_LEDGER_MAX_ENTRIES = 4096"

definition OPERATION_LEDGER_TTL_MS :: int where
  "OPERATION_LEDGER_TTL_MS = 24 * 60 * 60 * 1000"

definition MAX_ENVELOPE_BYTES :: nat where
  "MAX_ENVELOPE_BYTES = 64 * 1024"

definition new_ledger :: "int \<Rightarrow> int \<Rightarrow> ledger" where
  "new_ledger maxE ttl = \<lparr>entries = [], maxEntries = maxE, ttlMs = ttl\<rparr>"

definition is_operation_id :: "string \<Rightarrow> bool" where
  "is_operation_id s \<longleftrightarrow> length s = 36 \<and> list_all (\<lambda>c. is_lower_hex c \<or> c = CHR ''-'') s"

text \<open>\<open>OPERATION_PATH_PATTERN.exec(path)\<close>: the captured id.\<close>

definition match_operation_path :: "string \<Rightarrow> string option" where
  "match_operation_path s =
     (if starts_with ''/1.0/operations/'' s \<and> is_operation_id (drop (length ''/1.0/operations/'') s)
      then Some (drop (length ''/1.0/operations/'') s) else None)"

text \<open>The loop of \<open>prune\<close>: it returns at the first entry younger than the cutoff.\<close>

fun prune_entries :: "int \<Rightarrow> (string \<times> int) list \<Rightarrow> (string \<times> int) list" where
  "prune_entries cutoff [] = []"
| "prune_entries cutoff ((oid, recordedAt) # rest) =
     (if recordedAt > cutoff then (oid, recordedAt) # rest else prune_entries cutoff rest)"

definition prune :: "int \<Rightarrow> ledger \<Rightarrow> ledger" where
  "prune now led = led\<lparr>entries := prune_entries (now - ttlMs led) (entries led)\<rparr>"

definition knows :: "ledger \<Rightarrow> int \<Rightarrow> string \<Rightarrow> bool \<times> ledger" where
  "knows led now oid = (let led' = prune now led in (has_own (entries led') (to_lower oid), led'))"

text \<open>The \<open>while\<close> loop of \<open>record\<close>: the oldest entries go until there is room.\<close>

fun evict :: "int \<Rightarrow> ('k \<times> 'v) list \<Rightarrow> ('k \<times> 'v) list" where
  "evict maxE [] = []"
| "evict maxE (e # es) = (if int (length (e # es)) \<ge> maxE then evict maxE es else e # es)"

definition record_id :: "ledger \<Rightarrow> int \<Rightarrow> int \<Rightarrow> string \<Rightarrow> ledger" where
  "record_id led now now' oid =
     (let led1 = prune now led;
          key = to_lower oid;
          es = evict (maxEntries led1) (AList.delete key (entries led1))
      in led1\<lparr>entries := AList.update key now' es\<rparr>)"

definition envelope_operation :: "json \<Rightarrow> json option" where
  "envelope_operation envelope = (case envelope of JObj ps \<Rightarrow> js_get ps ''operation'' | _ \<Rightarrow> None)"

definition response_operation :: "(string \<Rightarrow> json option) \<Rightarrow> int \<Rightarrow> string \<Rightarrow> string option" where
  "response_operation parse status body =
     (if status \<noteq> 202 \<or> length body = 0 \<or> length body > MAX_ENVELOPE_BYTES then None
      else case parse body of
        None \<Rightarrow> None
      | Some envelope \<Rightarrow> (case envelope_operation envelope of
            Some (JStr operation) \<Rightarrow> match_operation_path operation
          | _ \<Rightarrow> None))"

definition recordResponse ::
    "(string \<Rightarrow> json option) \<Rightarrow> ledger \<Rightarrow> int \<Rightarrow> int \<Rightarrow> int \<Rightarrow> string \<Rightarrow> ledger" where
  "recordResponse parse led now now' status body =
     (case response_operation parse status body of
        None \<Rightarrow> led
      | Some oid \<Rightarrow> record_id led now now' oid)"


subsection \<open>Runs\<close>

datatype ledger_call =
    Knows nat string
  | Record nat nat string
  | Response nat nat int string

record ledger_run =
  now :: int
  led :: ledger
  history :: "(string \<times> int) list"

definition start_run :: "int \<Rightarrow> int \<Rightarrow> int \<Rightarrow> ledger_run" where
  "start_run t maxE ttl = \<lparr>now = t, led = new_ledger maxE ttl, history = []\<rparr>"

text \<open>The delays of a call are the time since the previous call and between its two readings.\<close>

fun ledger_step :: "(string \<Rightarrow> json option) \<Rightarrow> ledger_run \<Rightarrow> ledger_call \<Rightarrow> ledger_run" where
  "ledger_step parse s (Knows d oid) =
     s\<lparr>now := now s + int d, led := snd (knows (led s) (now s + int d) oid)\<rparr>"
| "ledger_step parse s (Record d d' oid) =
     s\<lparr>now := now s + int d + int d',
       led := record_id (led s) (now s + int d) (now s + int d + int d') oid,
       history := history s @ [(to_lower oid, now s + int d + int d')]\<rparr>"
| "ledger_step parse s (Response d d' status body) =
     s\<lparr>now := now s + int d + int d',
       led := recordResponse parse (led s) (now s + int d) (now s + int d + int d') status body,
       history := history s @ (case response_operation parse status body of
           None \<Rightarrow> [] | Some oid \<Rightarrow> [(to_lower oid, now s + int d + int d')])\<rparr>"


subsection \<open>Lemmas\<close>

text \<open>On entries in age order, the early return of \<open>prune\<close> loses nothing.\<close>

lemma prune_entries_filter:
  "sorted (map snd es) \<Longrightarrow> prune_entries c es = filter (\<lambda>e. c < snd e) es"
proof (induction es)
  case (Cons e es)
  then have "\<forall>e' \<in> set es. snd e \<le> snd e'" by auto
  then have "c < snd e \<Longrightarrow> filter (\<lambda>e. c < snd e) es = es" by (intro filter_True) fastforce
  with Cons show ?case by (cases e) auto
qed simp

lemma prune_entries_suffix: "\<exists>xs. es = xs @ prune_entries c es"
  by (induction c es rule: prune_entries.induct) (simp_all, metis append_Cons)

lemma evict_suffix: "\<exists>xs. es = xs @ evict n es"
  by (induction es) (simp_all, metis append_Cons)

lemma evict_length: "int (length (evict n es)) < n \<or> evict n es = []"
  by (induction es) auto

lemma evict_keeps_short_suffix:
  "int (length ys) < n \<Longrightarrow> \<exists>xs'. evict n (xs @ ys) = xs' @ ys"
  by (induction xs) (auto, cases ys, auto)

lemma map_of_suffix:
  assumes "distinct (keys (xs @ ys))" "map_of ys k = Some v"
  shows "map_of (xs @ ys) k = Some v"
proof -
  have "k \<in> fst ` set ys" using assms(2) by (metis domI dom_map_of_conv_image_fst)
  then have "map_of xs k = None" using assms(1) by (auto simp: map_of_eq_None_iff)
  then show ?thesis using assms(2) by (simp add: map_add_def)
qed


text \<open>
  The invariant of a run: distinct lower-case ids in age order, none from the future, within the
  size limit, and each with its last time in the history.
\<close>

definition last_recorded :: "(string \<times> int) list \<Rightarrow> string \<Rightarrow> int option" where
  "last_recorded h k = map_of (rev h) k"

lemma last_recorded_snoc [simp]:
  "last_recorded (h @ [(k, t)]) k' = (if k' = k then Some t else last_recorded h k')"
  by (simp add: last_recorded_def)

definition ledger_inv :: "ledger_run \<Rightarrow> bool" where
  "ledger_inv s \<longleftrightarrow> distinct (keys (entries (led s))) \<and> sorted (map snd (entries (led s)))
     \<and> (\<forall>e \<in> set (entries (led s)). snd e \<le> now s \<and> last_recorded (history s) (fst e) = Some (snd e))
     \<and> int (length (entries (led s))) \<le> max 1 (maxEntries (led s))"

lemma ledger_inv_start: "ledger_inv (start_run t m ttl)"
  by (simp add: ledger_inv_def start_run_def new_ledger_def)

text \<open>Dropping old entries and letting time pass keeps the invariant.\<close>

lemma ledger_inv_drop:
  assumes "ledger_inv s" "entries (led s) = xs @ es" "now s \<le> t"
  shows "ledger_inv (s\<lparr>now := t, led := (led s)\<lparr>entries := es\<rparr>\<rparr>)"
  using assms unfolding ledger_inv_def
  by (auto simp: sorted_append intro: order_trans)

lemma ledger_inv_prune:
  assumes "ledger_inv s" "now s \<le> t"
  shows "ledger_inv (s\<lparr>now := t, led := prune t' (led s)\<rparr>)"
proof -
  obtain xs where "entries (led s) = xs @ prune_entries (t' - ttlMs (led s)) (entries (led s))"
    using prune_entries_suffix by blast
  then show ?thesis unfolding prune_def by (rule ledger_inv_drop [OF assms(1) _ assms(2)])
qed

lemma sorted_AList_delete: "sorted (map snd m) \<Longrightarrow> sorted (map snd (AList.delete k m))"
  unfolding AList.delete_eq by (rule sorted_filter)

lemma ledger_inv_record:
  assumes inv: "ledger_inv s" and t: "now s \<le> t" "t \<le> t'"
  shows "ledger_inv (s\<lparr>now := t', led := record_id (led s) t t' oid,
           history := history s @ [(to_lower oid, t')]\<rparr>)"
proof -
  define p where "p = entries (prune t (led s))"
  define d where "d = AList.delete (to_lower oid) p"
  define e where "e = evict (maxEntries (led s)) d"
  have "ledger_inv (s\<lparr>now := now s, led := prune t (led s)\<rparr>)"
    by (rule ledger_inv_prune [OF inv order_refl])
  then have p: "distinct (keys p)" "sorted (map snd p)"
      "\<forall>x \<in> set p. snd x \<le> now s \<and> last_recorded (history s) (fst x) = Some (snd x)"
    unfolding ledger_inv_def p_def by auto
  have d: "distinct (keys d)" "sorted (map snd d)" "set d \<subseteq> set p" "to_lower oid \<notin> fst ` set d"
    unfolding d_def
    by (rule AList.distinct_delete [OF p(1)], rule sorted_AList_delete [OF p(2)],
        auto simp: AList.delete_eq)
  obtain xs where xs: "d = xs @ e" using evict_suffix [of d] by (auto simp: e_def)
  have e: "distinct (keys e)" "sorted (map snd e)" "set e \<subseteq> set p" "to_lower oid \<notin> fst ` set e"
    using d unfolding xs by (auto simp: sorted_append)
  have new: "entries (record_id (led s) t t' oid) = e @ [(to_lower oid, t')]"
    using e(4) by (simp add: record_id_def Let_def AList_update_new p_def d_def e_def prune_def image_image)
  have len: "int (length (e @ [(to_lower oid, t')])) \<le> max 1 (maxEntries (led s))"
    using evict_length [of "maxEntries (led s)" d] by (auto simp: e_def)
  have maxE: "maxEntries (record_id (led s) t t' oid) = maxEntries (led s)"
    by (simp add: record_id_def Let_def prune_def)
  have old: "snd x \<le> now s" "last_recorded (history s) (fst x) = Some (snd x)" "fst x \<noteq> to_lower oid"
    if "x \<in> set e" for x using that e(3,4) p(3) by (blast, blast, metis imageI)
  have "distinct (keys (e @ [(to_lower oid, t')]))" using e(1,4) by simp
  moreover have "sorted (map snd (e @ [(to_lower oid, t')]))"
    using e(2) old(1) t by (force simp: sorted_append)
  moreover have "\<forall>x \<in> set (e @ [(to_lower oid, t')]). snd x \<le> t' \<and>
      last_recorded (history s @ [(to_lower oid, t')]) (fst x) = Some (snd x)"
    using old t by (simp add: order_trans [of _ "now s"])
  ultimately show ?thesis using len by (simp add: ledger_inv_def new maxE)
qed

lemma ledger_step_inv: "ledger_inv s \<Longrightarrow> ledger_inv (ledger_step parse s c)"
proof (cases c)
  case (Knows d oid)
  assume "ledger_inv s"
  then show ?thesis using Knows ledger_inv_prune [of s "now s + int d"]
    by (simp add: knows_def Let_def)
next
  case (Record d d' oid)
  assume "ledger_inv s"
  then show ?thesis using Record ledger_inv_record [of s "now s + int d" "now s + int d + int d'"]
    by simp
next
  case (Response d d' status body)
  assume inv: "ledger_inv s"
  show ?thesis
  proof (cases "response_operation parse status body")
    case None
    have "ledger_inv (s\<lparr>now := now s + int d + int d', led := (led s)\<lparr>entries := entries (led s)\<rparr>\<rparr>)"
      by (rule ledger_inv_drop [OF inv, of "[]"]) auto
    with None Response show ?thesis by (simp add: recordResponse_def)
  next
    case (Some oid)
    with Response inv ledger_inv_record [of s "now s + int d" "now s + int d + int d'"]
    show ?thesis by (simp add: recordResponse_def)
  qed
qed

interpretation ledger_runs: preserved "ledger_step parse" ledger_inv for parse
  by unfold_locales (rule ledger_step_inv)


text \<open>The limits of a ledger never change, and its clock never goes back.\<close>

lemma prune_limits [simp]: "ttlMs (prune t l) = ttlMs l" "maxEntries (prune t l) = maxEntries l"
  by (simp_all add: prune_def)

lemma record_id_limits [simp]:
  "ttlMs (record_id l t t' oid) = ttlMs l" "maxEntries (record_id l t t' oid) = maxEntries l"
  by (simp_all add: record_id_def Let_def)

lemma ledger_step_limits:
  "ttlMs (led (ledger_step parse s c)) = ttlMs (led s)"
  "maxEntries (led (ledger_step parse s c)) = maxEntries (led s)"
  by (cases c; simp add: knows_def Let_def recordResponse_def split: option.splits)+

lemma ledger_run_limits:
  "ttlMs (led (foldl (ledger_step parse) s cs)) = ttlMs (led s)"
  "maxEntries (led (foldl (ledger_step parse) s cs)) = maxEntries (led s)"
  by (induction cs arbitrary: s) (simp_all add: ledger_step_limits)

lemma ledger_step_now: "now s \<le> now (ledger_step parse s c)"
  by (cases c) simp_all

lemma ledger_run_now: "now s \<le> now (foldl (ledger_step parse) s cs)"
  by (induction cs arbitrary: s) (auto intro: order_trans ledger_step_now)

text \<open>What \<open>knows\<close> answers in a state that satisfies the invariant.\<close>

lemma knows_iff:
  assumes "ledger_inv s"
  shows "fst (knows (led s) t oid) \<longleftrightarrow>
    (\<exists>r. map_of (entries (led s)) (to_lower oid) = Some r \<and> t - ttlMs (led s) < r)"
proof -
  have d: "distinct (keys (entries (led s)))" "sorted (map snd (entries (led s)))"
    using assms by (simp_all add: ledger_inv_def)
  have "fst (knows (led s) t oid) \<longleftrightarrow>
      (\<exists>r. (to_lower oid, r) \<in> set (filter (\<lambda>e. t - ttlMs (led s) < snd e) (entries (led s))))"
    by (simp add: knows_def Let_def prune_def prune_entries_filter [OF d(2)] map_of_eq_None_iff
        image_iff)
  then show ?thesis using d(1) by (auto simp: map_of_eq_Some_iff)
qed


subsection \<open>An entry stays until enough others push it out\<close>

definition kept :: "(string \<times> int) list \<Rightarrow> string \<Rightarrow> int \<Rightarrow> nat \<Rightarrow> bool" where
  "kept es k r n \<longleftrightarrow> (\<exists>xs r' ys. es = xs @ (k, r') # ys \<and> r \<le> r' \<and> length ys \<le> n)"

lemma kept_mono: "kept es k r n \<Longrightarrow> n \<le> n' \<Longrightarrow> kept es k r n'"
  by (auto simp: kept_def) (metis order_trans)

lemma prune_entries_keeps:
  "c < r' \<Longrightarrow> \<exists>xs'. prune_entries c (xs @ (k, r') # ys) = xs' @ (k, r') # ys"
proof (induction xs)
  case (Cons x xs)
  then show ?case by (cases x) (auto intro: exI [of _ "_ # _"])
qed auto

lemma kept_prune:
  assumes "kept (entries l) k r n" "t - ttlMs l < r"
  shows "kept (entries (prune t l)) k r n"
proof -
  obtain xs r' ys where *: "entries l = xs @ (k, r') # ys" "r \<le> r'" "length ys \<le> n"
    using assms(1) unfolding kept_def by blast
  then obtain xs' where "entries (prune t l) = xs' @ (k, r') # ys"
    using prune_entries_keeps [of "t - ttlMs l" r' xs k ys] assms(2) by (auto simp: prune_def)
  with * show ?thesis unfolding kept_def by blast
qed

lemma AList_delete_append: "AList.delete k (xs @ ys) = AList.delete k xs @ AList.delete k ys"
  by (simp add: AList.delete_eq)

lemma length_AList_delete: "length (AList.delete k ys) \<le> length ys"
  by (simp add: AList.delete_eq)

lemma record_entries:
  "entries (record_id l t t' oid) =
     evict (maxEntries l) (AList.delete (to_lower oid) (entries (prune t l))) @ [(to_lower oid, t')]"
proof -
  obtain xs where "AList.delete (to_lower oid) (entries (prune t l))
      = xs @ evict (maxEntries l) (AList.delete (to_lower oid) (entries (prune t l)))"
    using evict_suffix by blast
  then have "set (evict (maxEntries l) (AList.delete (to_lower oid) (entries (prune t l))))
      \<subseteq> set (AList.delete (to_lower oid) (entries (prune t l)))"
    by (metis Un_upper2 set_append)
  then have "to_lower oid \<notin> set (keys (evict (maxEntries l)
      (AList.delete (to_lower oid) (entries (prune t l)))))"
    by (auto simp: AList.delete_eq)
  then show ?thesis by (simp add: record_id_def Let_def AList_update_new)
qed

lemma kept_record:
  assumes "kept (entries l) k r n" "t - ttlMs l < r" "int (Suc n) < maxEntries l" "r \<le> t'"
  shows "kept (entries (record_id l t t' oid)) k r (Suc n)"
proof (cases "k = to_lower oid")
  case True
  then show ?thesis using assms(4) unfolding record_entries kept_def by fastforce
next
  case False
  obtain xs r' ys where *: "entries (prune t l) = xs @ (k, r') # ys" "r \<le> r'" "length ys \<le> n"
    using kept_prune [OF assms(1,2)] unfolding kept_def by blast
  define ys' where "ys' = AList.delete (to_lower oid) ys"
  have len: "length ys' \<le> n" using * length_AList_delete [of "to_lower oid" ys] by (simp add: ys'_def)
  have "AList.delete (to_lower oid) (entries (prune t l))
      = AList.delete (to_lower oid) xs @ (k, r') # ys'"
    using False by (simp add: * AList_delete_append ys'_def)
  moreover obtain xs' where "evict (maxEntries l) (AList.delete (to_lower oid) xs @ (k, r') # ys')
      = xs' @ (k, r') # ys'"
    using evict_keeps_short_suffix [of "(k, r') # ys'" "maxEntries l"] len assms(3) by fastforce
  ultimately have "entries (record_id l t t' oid) = xs' @ (k, r') # (ys' @ [(to_lower oid, t')])"
    by (simp add: record_entries)
  with *(2) len show ?thesis unfolding kept_def by fastforce
qed


lemma ledger_step_history:
  "length (history (ledger_step parse s c)) = length (history s) \<or>
   length (history (ledger_step parse s c)) = Suc (length (history s))"
  by (cases c) (auto split: option.splits)

lemma ledger_run_history: "length (history s) \<le> length (history (foldl (ledger_step parse) s cs))"
proof (induction cs arbitrary: s)
  case (Cons c cs)
  have "length (history s) \<le> length (history (ledger_step parse s c))"
    using ledger_step_history [of parse s c] by linarith
  with Cons show ?case by (auto intro: order_trans)
qed simp

lemma kept_step:
  assumes "kept (entries (led s)) k r n" "r \<le> now s"
    and "now (ledger_step parse s c) - ttlMs (led s) < r"
    and "int (n + length (history (ledger_step parse s c)) - length (history s)) < maxEntries (led s)"
  shows "kept (entries (led (ledger_step parse s c))) k r
           (n + length (history (ledger_step parse s c)) - length (history s))"
proof (cases c)
  case (Knows d oid)
  then show ?thesis using assms by (simp add: knows_def Let_def kept_prune)
next
  case (Record d d' oid)
  then show ?thesis using assms by (simp add: kept_record)
next
  case (Response d d' status body)
  then show ?thesis using assms
    by (cases "response_operation parse status body") (simp_all add: recordResponse_def kept_record)
qed

lemma kept_run:
  assumes "kept (entries (led s)) k r n" "r \<le> now s"
    and "now (foldl (ledger_step parse) s cs) - ttlMs (led s) < r"
    and "int (n + length (history (foldl (ledger_step parse) s cs)) - length (history s)) < maxEntries (led s)"
  shows "kept (entries (led (foldl (ledger_step parse) s cs))) k r
           (n + length (history (foldl (ledger_step parse) s cs)) - length (history s))"
  using assms
proof (induction cs arbitrary: s n)
  case (Cons c cs)
  define s' where "s' = ledger_step parse s c"
  define n' where "n' = n + length (history s') - length (history s)"
  have grow: "length (history s) \<le> length (history s')"
    using ledger_step_history [of parse s c] by (auto simp: s'_def)
  have later: "now s \<le> now s'" "now s' \<le> now (foldl (ledger_step parse) s' cs)"
    by (simp_all add: s'_def ledger_step_now ledger_run_now)
  have more: "length (history s') \<le> length (history (foldl (ledger_step parse) s' cs))"
    by (rule ledger_run_history)
  have lim: "ttlMs (led s') = ttlMs (led s)" "maxEntries (led s') = maxEntries (led s)"
    by (simp_all add: s'_def ledger_step_limits)
  have run: "foldl (ledger_step parse) s (c # cs) = foldl (ledger_step parse) s' cs"
    by (simp add: s'_def)
  have k: "kept (entries (led s')) k r n'"
    unfolding s'_def n'_def
    by (rule kept_step [OF Cons.prems(1,2)]; fold s'_def)
       (use Cons.prems(3,4) later more grow in \<open>simp_all add: s'_def [symmetric]\<close>)
  have sum: "n' + length (history (foldl (ledger_step parse) s' cs)) - length (history s')
      = n + length (history (foldl (ledger_step parse) s' cs)) - length (history s)"
    using grow more by (simp add: n'_def)
  show ?case unfolding run
    using Cons.IH [OF k] Cons.prems(2,3,4) later by (simp add: sum lim s'_def [symmetric])
qed simp


subsection \<open>Properties\<close>

text \<open>C9. Whatever calls were made before, an operation the ledger says it knows was recorded
  through it (from an accepted response of Incus, or directly), less than the time to live ago, so
  the ledger never makes an operation started by anyone else reachable.\<close>

theorem knows_sound:
  assumes "fst (knows (led (foldl (ledger_step parse) (start_run t0 m ttl) calls)) t oid)"
  shows "\<exists>r. (to_lower oid, r) \<in> set (history (foldl (ledger_step parse) (start_run t0 m ttl) calls))
           \<and> t - ttl < r"
proof -
  define s where "s = foldl (ledger_step parse) (start_run t0 m ttl) calls"
  have inv: "ledger_inv s" unfolding s_def by (rule ledger_runs.run_inv [OF ledger_inv_start])
  have ttl: "ttlMs (led s) = ttl" by (simp add: s_def ledger_run_limits) (simp add: start_run_def new_ledger_def)
  obtain r where r: "map_of (entries (led s)) (to_lower oid) = Some r" "t - ttl < r"
    using assms knows_iff [OF inv] unfolding s_def [symmetric] ttl by blast
  then have "last_recorded (history s) (to_lower oid) = Some r"
    using inv unfolding ledger_inv_def by (metis fst_conv map_of_SomeD snd_conv)
  then have "(to_lower oid, r) \<in> set (history s)"
    unfolding last_recorded_def by (metis map_of_SomeD set_rev)
  with r show ?thesis unfolding s_def by blast
qed

theorem knows_sound_witness:
  "\<exists>r. (''ab'', r) \<in> set (history (foldl (ledger_step (\<lambda>_. None)) (start_run 0 2 10)
       [Record 1 0 ''AB'', Record 2 1 ''cd''])) \<and> 9 - 10 < r"
  using knows_sound [of "\<lambda>_. None" 0 2 10 "[Record 1 0 ''AB'', Record 2 1 ''cd'']" 9 "''aB''"]
  by (simp add: knows_def Let_def prune_def record_id_def start_run_def new_ledger_def to_lower_def
      lower_char_def is_upper_def char_of_def bit_0)

text \<open>An operation recorded at any point of any run is still known at a later moment within
  the time to live, whatever lookups and recordings came in between, as long as fewer than the
  maximum number of entries were recorded since.\<close>

theorem knows_complete:
  assumes "s1 = ledger_step parse s (Record d d' oid)"
    and "s = foldl (ledger_step parse) (start_run t0 m ttl) earlier"
    and "s2 = foldl (ledger_step parse) s1 calls"
    and "int (length (history s2) - length (history s1)) < m"
    and "now s2 \<le> t" "t - ttl < now s1"
  shows "fst (knows (led s2) t (to_lower oid))"
proof -
  have lim: "ttlMs (led s1) = ttl" "maxEntries (led s1) = m"
    by (simp_all add: assms(1,2) ledger_step_limits ledger_run_limits del: ledger_step.simps)
       (simp_all add: start_run_def new_ledger_def)
  have "kept (entries (led s1)) (to_lower oid) (now s1) 0"
    unfolding assms(1) kept_def by (auto simp: record_entries)
  then have "kept (entries (led s2)) (to_lower oid) (now s1)
      (0 + length (history s2) - length (history s1))"
    unfolding assms(3) by (rule kept_run) (use assms(4-6) in \<open>auto simp: lim assms(3)\<close>)
  then have "kept (entries (prune t (led s2))) (to_lower oid) (now s1)
      (0 + length (history s2) - length (history s1))"
    by (rule kept_prune) (use assms(6) in \<open>simp add: assms(3) ledger_run_limits lim\<close>)
  then show ?thesis by (auto simp: knows_def Let_def kept_def map_add_def split: option.splits)
qed

theorem knows_complete_witness:
  "fst (knows (led (foldl (ledger_step (\<lambda>_. None))
      (ledger_step (\<lambda>_. None) (foldl (ledger_step (\<lambda>_. None)) (start_run 0 3 10) [Record 0 1 ''99''])
        (Record 1 0 ''ab''))
      [Record 2 1 ''cd'', Knows 1 ''ef''])) 9 (to_lower ''ab''))"
  by (rule knows_complete [OF refl refl refl]) (simp_all add: start_run_def new_ledger_def)

text \<open>After any run the ledger holds at most its maximum number of entries (one if the maximum
  is below one), with distinct ids in the order they were recorded, so its memory is bounded
  however many operations the Backend starts.\<close>

theorem ledger_bounded:
  "int (length (entries (led (foldl (ledger_step parse) (start_run t0 m ttl) calls)))) \<le> max 1 m
   \<and> distinct (keys (entries (led (foldl (ledger_step parse) (start_run t0 m ttl) calls))))
   \<and> sorted (map snd (entries (led (foldl (ledger_step parse) (start_run t0 m ttl) calls))))"
proof -
  have "ledger_inv (foldl (ledger_step parse) (start_run t0 m ttl) calls)"
    by (rule ledger_runs.run_inv [OF ledger_inv_start])
  then show ?thesis
    by (simp add: ledger_inv_def ledger_run_limits) (simp add: start_run_def new_ledger_def)
qed

end
