(* ===== verification/Agent.thy ===== *)
theory Agent
  imports Incus_Policy_Safety Ipv6_Guard Operation_Ledger
begin

text \<open>
  The request handlers of the agent, \<open>packages/agent/src/agent.ts\<close>, over the policy, the guards and
  the ledger, and the rewriting of CephFS usage answers, \<open>packages/agent/src/cephfs-usage.ts\<close>.

  A handler is a function of the agent's state and of the answers it gets: from Incus, from nft, from
  the Backend stream, and from the clock as delays. It returns its result, the new state and what it
  sent to Incus. Handlers run one after the other in the model; the guards are checked right before
  the request is sent, as in the code. \<open>operation_lookup\<close> is the interface the policy uses of the
  ledger; the ledger's runs are its interpretation.
\<close>


subsection \<open>The lookup of operations\<close>

locale operation_lookup =
  fixes lookup :: "'l \<Rightarrow> string \<Rightarrow> bool \<times> 'l"
    and ok :: "'l \<Rightarrow> bool"
    and started :: "'l \<Rightarrow> string \<Rightarrow> bool"
  assumes lookup_started: "ok l \<Longrightarrow> fst (lookup l oid) \<Longrightarrow> started l oid"
    and lookup_ok: "ok l \<Longrightarrow> ok (snd (lookup l oid))"
begin

lemma lookup_ok': "lookup l oid = (b, l') \<Longrightarrow> ok l \<Longrightarrow> ok l'"
  using lookup_ok [of l oid] by simp

lemma check_keeps_ok: "ok l \<Longrightarrow> ok (snd (checkIncusHttp E lookup request l))"
  by (auto simp: checkIncusHttp_def checkOperations_def split: option.splits list.splits prod.splits
      dest: lookup_ok')

lemma websocket_check_keeps_ok: "ok l \<Longrightarrow> ok (snd (checkIncusWebSocket lookup path l))"
  by (auto simp: checkIncusWebSocket_def Let_def split: option.splits prod.splits
      dest: lookup_ok')

lemma allowed_operation_started:
  assumes "ok l" "fst (checkIncusHttp E lookup request l) = Allowed f up"
    and "parseIncusPath (req_path request) = Some (''1.0'' # ''operations'' # oid # rest, query)"
  shows "started l oid"
proof -
  have "fst (checkOperations lookup (req_method request) (oid # rest) l) = Allowed f up"
    using assms(2) by (rule checkIncusHttp_allowed) (use assms(3) in auto)
  then have "fst (lookup l oid)" using checkOperations_target by fastforce
  with assms(1) show ?thesis by (rule lookup_started)
qed

lemma allowed_websocket_started:
  assumes "ok l" "fst (checkIncusWebSocket lookup path l) = WsAllowed Operation"
  shows "\<exists>oid query. parseIncusPath path = Some ([''1.0'', ''operations'', oid, ''websocket''], query)
    \<and> OPERATION_ID_PATTERN oid \<and> started l oid"
proof -
  obtain segs query where p: "parseIncusPath path = Some (segs, query)" "seg segs 0 = Some ''1.0''"
      "seg segs 1 = Some ''operations''" "seg segs 3 = Some ''websocket''" "length segs = 4"
      "OPERATION_ID_PATTERN (segs ! 2)" "fst (lookup l (segs ! 2))"
    using assms(2) by (auto simp: checkIncusWebSocket_def seg_def Let_def split: option.splits if_split_asm prod.splits)
  obtain a b c d where "segs = [a, b, c, d]" using p(5) by (auto simp: length_Suc_conv numeral_eq_Suc)
  with p lookup_started [OF assms(1)] show ?thesis by (auto simp: seg_def)
qed

end

text \<open>The ledger behind the policy: a lookup \<open>d\<close> milliseconds after the previous use.\<close>

definition ledger_lookup :: "nat \<Rightarrow> ledger_run \<Rightarrow> string \<Rightarrow> bool \<times> ledger_run" where
  "ledger_lookup d s oid =
     (fst (knows (led s) (now s + int d) oid), ledger_step (\<lambda>_. None) s (Knows d oid))"

definition started_in :: "nat \<Rightarrow> ledger_run \<Rightarrow> string \<Rightarrow> bool" where
  "started_in d s oid \<longleftrightarrow>
     (\<exists>r. (to_lower oid, r) \<in> set (history s) \<and> now s + int d - ttlMs (led s) < r)"

interpretation ledger_ops: operation_lookup "ledger_lookup d" ledger_inv "started_in d" for d
proof unfold_locales
  fix l oid
  assume inv: "ledger_inv l" and "fst (ledger_lookup d l oid)"
  then obtain r where r: "map_of (entries (led l)) (to_lower oid) = Some r" "now l + int d - ttlMs (led l) < r"
    using knows_iff [OF inv] by (auto simp: ledger_lookup_def)
  then have "last_recorded (history l) (to_lower oid) = Some r"
    using inv unfolding ledger_inv_def by (metis fst_conv map_of_SomeD snd_conv)
  then have "(to_lower oid, r) \<in> set (history l)"
    unfolding last_recorded_def by (metis map_of_SomeD set_rev)
  with r show "started_in d l oid" unfolding started_in_def by blast
next
  fix l oid
  assume "ledger_inv l"
  then show "ledger_inv (snd (ledger_lookup d l oid))"
    unfolding ledger_lookup_def by (simp only: snd_conv ledger_step_inv)
qed


subsection \<open>Errors\<close>

datatype agent_error_code =
    PolicyDenied | Ipv6GuardMissing | FirewallMissing | BadRequest | Internal
  | IncusUnavailable | Timeout | Cancelled | TooLarge

datatype agent_error = AgentRequestError agent_error_code string

text \<open>What a call to Incus can throw.\<close>

datatype thrown =
    LocalIncusError agent_error_code string "int option"
  | OtherError string

definition asRequestError :: "thrown \<Rightarrow> agent_error" where
  "asRequestError e = (case e of
     LocalIncusError c m _ \<Rightarrow> AgentRequestError c m
   | OtherError m \<Rightarrow> AgentRequestError Internal m)"

text \<open>\<open>readCurrent\<close> over the answer of \<open>requestJson('GET', path)\<close>: what it throws, or the \<open>metadata\<close> of a successful
  response, which may be missing.\<close>

definition readCurrent :: "thrown + json option \<Rightarrow> thrown + json option" where
  "readCurrent answer = (case answer of
     Inr metadata \<Rightarrow> Inr metadata
   | Inl (LocalIncusError c m st) \<Rightarrow>
       if st = Some 404 then Inr None else Inl (LocalIncusError c m st)
   | Inl e \<Rightarrow> Inl e)"

text \<open>What the policy sees of that value: \<open>!current\<close> holds of a missing or falsy one, and a property of a value that is not
  an object reads as undefined.\<close>

fun current_document :: "json option \<Rightarrow> js_object option" where
  "current_document None = None"
| "current_document (Some JNull) = None"
| "current_document (Some (JBool b)) = (if b then Some [] else None)"
| "current_document (Some (JNum n)) = (if n = 0 then None else Some [])"
| "current_document (Some (JStr t)) = (if t = [] then None else Some [])"
| "current_document (Some (JArr vs)) = Some []"
| "current_document (Some (JObj doc)) = Some doc"

record incus_response =
  res_status :: int
  res_headers :: "(string \<times> string) list"
  res_body :: string


subsection \<open>CephFS usage\<close>

definition CEPHFS_USAGE_SOURCE_KEY :: string where
  "CEPHFS_USAGE_SOURCE_KEY = ''nyabase_used_source''"

definition CEPHFS_USAGE_SOURCE_RBYTES :: string where
  "CEPHFS_USAGE_SOURCE_RBYTES = ''ceph.dir.rbytes''"

definition DRIVER_CACHE_MS :: int where
  "DRIVER_CACHE_MS = 5 * 60000"

definition is_alnum :: "char \<Rightarrow> bool" where
  "is_alnum c \<longleftrightarrow> is_upper c \<or> is_lower c \<or> is_digit c"

definition is_pool_name :: "string \<Rightarrow> bool" where
  "is_pool_name s = (case s of [] \<Rightarrow> False
     | c # cs \<Rightarrow> is_alnum c \<and> list_all (\<lambda>c. is_alnum c \<or> c \<in> {CHR ''.'', CHR ''_'', CHR ''-''}) cs)"

text \<open>\<open>STATE_PATH.exec(pathname)\<close>: the pool and the volume.\<close>

definition match_state_path :: "string \<Rightarrow> (string \<times> string) option" where
  "match_state_path p =
     (case split_char (CHR ''/'') p of
        [a, b, c, pool, d, e, volume, g] \<Rightarrow>
          if [a, b, c, d, e, g] = [[], ''1.0'', ''storage-pools'', ''volumes'', ''custom'', ''state'']
              \<and> is_pool_name pool \<and> MANAGED_VOLUME_NAME_PATTERN volume
          then Some (pool, volume) else None
      | _ \<Rightarrow> None)"

text \<open>
  What the extra work gets: the pool's document, the value of \<open>ceph.dir.rbytes\<close> below a path (its
  components), whether the budget ran out first, and the two clock readings of the driver cache.
\<close>

record cephfs_env =
  json_parse :: "string \<Rightarrow> json option"
  json_print :: "json \<Rightarrow> string"
  pool_answer :: "string \<Rightarrow> string + incus_response"
  read_rbytes :: "string list \<Rightarrow> string + int"
  budget_over :: bool
  driver_now :: int
  driver_then :: int
  incusDir :: string

type_synonym driver_cache = "(string \<times> (string \<times> int)) list"

definition parsed :: "cephfs_env \<Rightarrow> string \<Rightarrow> string + json" where
  "parsed C text = (case json_parse C text of None \<Rightarrow> Inl ''Unexpected token'' | Some j \<Rightarrow> Inr j)"

definition ask_driver ::
    "cephfs_env \<Rightarrow> string \<Rightarrow> driver_cache \<Rightarrow> (string + string option) \<times> driver_cache" where
  "ask_driver C pool drivers =
     (case pool_answer C (''/1.0/storage-pools/'' @ pool) of
        Inl e \<Rightarrow> (Inl e, drivers)
      | Inr answer \<Rightarrow>
          if res_status answer \<noteq> 200 then (Inr None, drivers)
          else (case bind_res (parsed C (res_body answer)) (\<lambda>j. js_prop (Some j) ''metadata'') of
            Inl e \<Rightarrow> (Inl e, drivers)
          | Inr metadata \<Rightarrow> (case js_opt_prop metadata ''driver'' of
                Some (JStr d) \<Rightarrow> (Inr (Some d), AList.update pool (d, driver_then C) drivers)
              | _ \<Rightarrow> (Inr None, drivers))))"

definition driver ::
    "cephfs_env \<Rightarrow> string \<Rightarrow> driver_cache \<Rightarrow> (string + string option) \<times> driver_cache" where
  "driver C pool drivers =
     (case map_of drivers pool of
        Some (d, t) \<Rightarrow> if driver_now C - t < DRIVER_CACHE_MS then (Inr (Some d), drivers)
                       else ask_driver C pool drivers
      | None \<Rightarrow> ask_driver C pool drivers)"

text \<open>\<open>usage.used = n; usage[KEY] = RBYTES\<close> in the document (named properties of an array are not printed).\<close>

definition set_usage :: "int \<Rightarrow> json \<Rightarrow> json" where
  "set_usage n usage = (case usage of
     JObj us \<Rightarrow> JObj (AList.update CEPHFS_USAGE_SOURCE_KEY (JStr CEPHFS_USAGE_SOURCE_RBYTES)
                  (AList.update ''used'' (JNum (of_int n)) us))
   | u \<Rightarrow> u)"

definition put_usage :: "json \<Rightarrow> json \<Rightarrow> json" where
  "put_usage usage doc = (case doc of
     JObj ps \<Rightarrow> (case js_get ps ''metadata'' of
         Some (JObj ms) \<Rightarrow> JObj (AList.update ''metadata'' (JObj (AList.update ''usage'' usage ms)) ps)
       | _ \<Rightarrow> doc)
   | _ \<Rightarrow> doc)"

definition rewrite_usage :: "cephfs_env \<Rightarrow> string \<Rightarrow> string \<Rightarrow> incus_response \<Rightarrow> string + incus_response" where
  "rewrite_usage C pool volume response =
     bind_res (parsed C (res_body response)) (\<lambda>doc.
     bind_res (js_prop (Some doc) ''metadata'') (\<lambda>metadata.
       (case js_opt_prop metadata ''usage'' of
          Some usage \<Rightarrow>
            if is_record usage \<or> is_array usage then
              bind_res (read_rbytes C [incusDir C, ''storage-pools'', pool, ''custom'', ''default_'' @ volume]) (\<lambda>n.
                Inr \<lparr>res_status = res_status response,
                     res_headers = AList.delete ''content-length'' (res_headers response),
                     res_body = json_print C (put_usage (set_usage n usage) doc)\<rparr>)
            else Inr response
        | None \<Rightarrow> Inr response)))"

definition rewrite ::
    "cephfs_env \<Rightarrow> string \<Rightarrow> string \<Rightarrow> incus_response \<Rightarrow> driver_cache
      \<Rightarrow> (string + incus_response) \<times> driver_cache" where
  "rewrite C pool volume response drivers =
     (case driver C pool drivers of
        (Inl e, drivers') \<Rightarrow> (Inl e, drivers')
      | (Inr d, drivers') \<Rightarrow>
          (if d \<noteq> Some ''cephfs'' then Inr response else rewrite_usage C pool volume response, drivers'))"

text \<open>\<open>apply\<close>: a failure, or a budget that ran out, leaves the answer as it came.\<close>

definition apply_usage ::
    "cephfs_env \<Rightarrow> http_method \<Rightarrow> string \<Rightarrow> incus_response \<Rightarrow> driver_cache \<Rightarrow> incus_response \<times> driver_cache" where
  "apply_usage C method path response drivers =
     (if method \<noteq> GET \<or> res_status response \<noteq> 200 then (response, drivers)
      else
        (let parts = split_char (CHR ''?'') path;
             project = map_of (search_params (if length parts > 1 then parts ! 1 else [])) ''project''
         in if project \<noteq> None \<and> project \<noteq> Some ''default'' then (response, drivers)
            else (case match_state_path (parts ! 0) of
               None \<Rightarrow> (response, drivers)
             | Some (pool, volume) \<Rightarrow>
                 (case rewrite C pool volume response drivers of
                    (Inr response', drivers') \<Rightarrow> (if budget_over C then response else response', drivers')
                  | (Inl _, drivers') \<Rightarrow> (response, drivers')))))"


subsection \<open>Handlers\<close>

record agent =
  ops :: ledger_run
  guard :: ipv6_guard
  egress :: firewall_run
  drivers :: driver_cache

text \<open>The answers one call of \<open>incusHttp\<close> gets.\<close>

record http_env =
  json_of :: "string \<Rightarrow> json option"
  url_of :: "string \<Rightarrow> url option"
  incus_document :: "string \<Rightarrow> thrown + json option"
  guard_nft :: nft_answers
  firewall_nft :: nft_answers
  incus_answer :: "forwarded \<Rightarrow> thrown + incus_response"
  usage_env :: cephfs_env
  check_delay :: nat
  record_delay :: nat
  set_delay :: nat

definition policy_env_of :: "http_env \<Rightarrow> policy_env" where
  "policy_env_of H = \<lparr>parse_json = json_of H, parse_url = url_of H,
     read_current = (\<lambda>p. case readCurrent (incus_document H p) of Inr d \<Rightarrow> current_document d | Inl _ \<Rightarrow> None)\<rparr>"

text \<open>The document \<open>checkIncusHttp\<close> reads from Incus, if it gets that far: that of the instance or of
  the volume an update would change.\<close>

definition valid_body :: "(string \<Rightarrow> json option) \<Rightarrow> policy_request \<Rightarrow> (js_object \<Rightarrow> string option) \<Rightarrow> bool" where
  "valid_body parse request problem =
     (case jsonBody parse (req_body request) of None \<Rightarrow> False | Some body \<Rightarrow> problem body = None)"

definition policy_read :: "(string \<Rightarrow> json option) \<Rightarrow> policy_request \<Rightarrow> string option" where
  "policy_read parse request =
     (case parseIncusPath (req_path request) of
        Some ([v, c, name], _) \<Rightarrow>
          if v = ''1.0'' \<and> c = ''instances'' \<and> isManagedInstance (Some name)
              \<and> req_method request \<in> {PUT, PATCH}
              \<and> valid_body parse request (\<lambda>b. fieldsProblem b INSTANCE_UPDATE_FIELDS ''instance'')
          then Some (''/1.0/instances/'' @ encode_uri_component name) else None
      | Some ([v, c, pool, volumes, custom, name], _) \<Rightarrow>
          if v = ''1.0'' \<and> c = ''storage-pools'' \<and> pool \<noteq> [] \<and> volumes = ''volumes'' \<and> custom = ''custom''
              \<and> MANAGED_VOLUME_NAME_PATTERN name \<and> req_method request \<in> {PUT, PATCH}
              \<and> valid_body parse request (\<lambda>b. fieldsProblem b VOLUME_UPDATE_FIELDS ''volume'')
          then Some (volume_path pool name) else None
      | _ \<Rightarrow> None)"

text \<open>The policy's verdict, or what reading the document it needs throws.\<close>

definition policy_verdict :: "http_env \<Rightarrow> policy_request \<Rightarrow> ledger_run \<Rightarrow> (thrown + verdict) \<times> ledger_run" where
  "policy_verdict H request s =
     (case Option.bind (policy_read (json_of H) request)
             (\<lambda>p. case readCurrent (incus_document H p) of Inl e \<Rightarrow> Some e | Inr _ \<Rightarrow> None) of
        Some e \<Rightarrow> (Inl e, s)
      | None \<Rightarrow> (case checkIncusHttp (policy_env_of H) (ledger_lookup (check_delay H)) request s of
          (v, s') \<Rightarrow> (Inr v, s')))"

definition requireGuestGuards ::
    "nft_answers \<Rightarrow> nft_answers \<Rightarrow> agent \<Rightarrow> (agent_error + unit) \<times> agent" where
  "requireGuestGuards gans fans a =
     (case check_guard gans (guard a) of (guarded, g', _) \<Rightarrow>
        (let a1 = a\<lparr>guard := g'\<rparr>
         in if \<not> guarded then
              (Inl (AgentRequestError Ipv6GuardMissing
                 (''the IPv6 guard (nft table bridge nyabase_guard) is not in place: ''
                  @ (case guard_error g' of None \<Rightarrow> ''unknown error'' | Some e \<Rightarrow> e))), a1)
            else
              (let r' = firewall_step (egress a1) (Ensure fans);
                   a2 = a1\<lparr>egress := r'\<rparr>
               in if \<not> fst (ensure fans (fw (egress a1))) then
                    (Inl (AgentRequestError FirewallMissing
                       (''the egress firewall (nft table bridge nyabase_firewall) is not in place: ''
                        @ (case refusal (fw r') of None \<Rightarrow> ''unknown error'' | Some e \<Rightarrow> e))), a2)
                  else (Inr (), a2))))"

definition notFound :: incus_response where
  "notFound = \<lparr>res_status = 404, res_headers = [(''content-type'', ''application/json'')],
     res_body = [CHR ''{''] @ join_str '','' (map (\<lambda>(k, v). json_string k @ '':'' @ v)
       [(''type'', json_string ''error''), (''status'', json_string []), (''status_code'', ''0''),
        (''operation'', json_string []), (''error_code'', ''404''),
        (''error'', json_string ''Operation not found''), (''metadata'', ''null'')]) @ [CHR ''}'']\<rparr>"

text \<open>
  \<open>incusHttp\<close>. The third component is what was sent to Incus: the method, the path and the body.
\<close>

definition send_request ::
    "http_env \<Rightarrow> policy_request \<Rightarrow> forwarded \<Rightarrow> agent \<Rightarrow> (agent_error + incus_response) \<times> agent" where
  "send_request H request f a =
     (case incus_answer H f of
        Inl e \<Rightarrow> (Inl (asRequestError e), a)
      | Inr answer \<Rightarrow>
          (case apply_usage (usage_env H) (req_method request) (req_path request) answer (drivers a) of
            (response, ds) \<Rightarrow>
              (Inr response,
               a\<lparr>drivers := ds,
                 ops := ledger_step (json_of H) (ops a)
                          (Response (record_delay H) (set_delay H) (res_status response) (res_body response))\<rparr>)))"

definition incusHttp ::
    "http_env \<Rightarrow> policy_request \<Rightarrow> agent
      \<Rightarrow> (agent_error + incus_response) \<times> agent \<times> forwarded option" where
  "incusHttp H request a =
     (case policy_verdict H request (ops a) of
        (Inl e, s) \<Rightarrow> (Inl (asRequestError e), a\<lparr>ops := s\<rparr>, None)
      | (Inr (Denied why missing), s) \<Rightarrow>
          (if missing then Inr notFound else Inl (AgentRequestError PolicyDenied why), a\<lparr>ops := s\<rparr>, None)
      | (Inr (Allowed f up), s) \<Rightarrow>
          (case (if up then requireGuestGuards (guard_nft H) (firewall_nft H) (a\<lparr>ops := s\<rparr>)
                 else (Inr (), a\<lparr>ops := s\<rparr>)) of
             (Inl e, a1) \<Rightarrow> (Inl e, a1, None)
           | (Inr _, a1) \<Rightarrow> (case send_request H request f a1 of (res, a2) \<Rightarrow> (res, a2, Some f))))"

text \<open>\<open>applyFirewall\<close>; \<open>issue\<close> is the text of the first problem the schema finds.\<close>

definition applyFirewall ::
    "nat \<Rightarrow> (firewall_document \<Rightarrow> string) \<Rightarrow> firewall_document \<Rightarrow> check_answer \<Rightarrow> (string + unit) \<Rightarrow> nft_answers
      \<Rightarrow> bool \<Rightarrow> agent \<Rightarrow> (agent_error + string) \<times> agent" where
  "applyFirewall stale issue doc chk written ans interrupted a =
     (if \<not> zFirewallDocument doc
      then (Inl (AgentRequestError BadRequest (''invalid firewall document'' @ issue doc)), a)
      else
        (let r = egress a;
             a' = a\<lparr>egress := firewall_step r (ApplyRequest stale doc chk written ans interrupted)\<rparr>
         in (case fst (apply_document (request_epoch stale r) doc chk written ans interrupted (fw r)) of
               Inl (DocumentRefused e) \<Rightarrow> Inl (AgentRequestError BadRequest e)
             | Inl (ApplyFailed e) \<Rightarrow> Inl (AgentRequestError Internal e)
             | Inr _ \<Rightarrow> Inr (digest doc), a')))"

text \<open>
  \<open>incusWebSocket\<close>: the answers of the dials to Incus and to the Backend stream, and whether the
  request was aborted in between. The result says whether frames from Incus pass the event filter;
  the third component is the path dialled.
\<close>

record websocket_env =
  ws_delay :: nat
  dial_incus :: "string \<Rightarrow> thrown + unit"
  ws_aborted :: bool
  dial_backend :: "string + unit"

datatype bridge = Bridge (filtered: bool)

definition incusWebSocket ::
    "websocket_env \<Rightarrow> string \<Rightarrow> agent \<Rightarrow> (agent_error + bridge) \<times> agent \<times> string option" where
  "incusWebSocket W path a =
     (case checkIncusWebSocket (ledger_lookup (ws_delay W)) path (ops a) of
        (WsDenied why, s) \<Rightarrow> (Inl (AgentRequestError PolicyDenied why), a\<lparr>ops := s\<rparr>, None)
      | (WsAllowed kind, s) \<Rightarrow>
          (let dialled = (if kind = Events then EVENTS_DIAL_PATH else path)
           in (case dial_incus W dialled of
                 Inl e \<Rightarrow> Inl (asRequestError e)
               | Inr _ \<Rightarrow>
                   if ws_aborted W then Inl (AgentRequestError Cancelled ''stream request was cancelled'')
                   else (case dial_backend W of
                       Inl e \<Rightarrow> Inl (AgentRequestError Internal e)
                     | Inr _ \<Rightarrow> Inr (Bridge (kind = Events))),
               a\<lparr>ops := s\<rparr>, Some dialled)))"

text \<open>\<open>hello\<close>: a new control connection, before Incus is asked for its version.\<close>

definition hello :: "agent \<Rightarrow> agent" where
  "hello a = a\<lparr>egress := firewall_step (egress a) Reset\<rparr>"


subsection \<open>Runs\<close>

datatype agent_call =
    Http http_env policy_request
  | Apply nat "firewall_document \<Rightarrow> string" firewall_document check_answer "string + unit" nft_answers bool
  | WebSocket websocket_env string
  | Hello
  | CheckGuards nft_answers nft_answers
  | SetServerId string nft_answers

fun agent_step :: "agent \<Rightarrow> agent_call \<Rightarrow> agent" where
  "agent_step a (Http H request) = fst (snd (incusHttp H request a))"
| "agent_step a (Apply stale issue doc chk written ans interrupted) =
     snd (applyFirewall stale issue doc chk written ans interrupted a)"
| "agent_step a (WebSocket W path) = fst (snd (incusWebSocket W path a))"
| "agent_step a Hello = hello a"
| "agent_step a (CheckGuards gans fans) =
     a\<lparr>guard := fst (snd (check_guard gans (guard a))), egress := firewall_step (egress a) (Ensure fans)\<rparr>"
| "agent_step a (SetServerId sid ans) = a\<lparr>egress := firewall_step (egress a) (ServerId sid ans)\<rparr>"

definition agent_start ::
    "int \<Rightarrow> string option \<Rightarrow> stored_firewall \<Rightarrow> nft_answers \<Rightarrow> nft_answers \<Rightarrow> agent" where
  "agent_start t sid st ans ans' = \<lparr>ops = start_run t OPERATION_LEDGER_MAX_ENTRIES OPERATION_LEDGER_TTL_MS,
     guard = new_guard, egress = firewall_start sid st ans ans', drivers = []\<rparr>"


subsection \<open>The document the policy reads\<close>

text \<open>\<open>policy_read\<close> names exactly the document the policy's verdict depends on.\<close>

lemma valid_body_iff:
  "valid_body parse request problem \<longleftrightarrow>
     (\<exists>body. jsonBody parse (req_body request) = Some body \<and> problem body = None)"
  by (auto simp: valid_body_def split: option.splits)

lemma reads_no_document [simp]:
  "imageServerProblem (E\<lparr>read_current := rc\<rparr>) = imageServerProblem E"
  "checkJson (E\<lparr>read_current := rc\<rparr>) = checkJson E"
  "checkInstanceCreate (E\<lparr>read_current := rc\<rparr>) = checkInstanceCreate E"
  "checkInstanceLeaf (E\<lparr>read_current := rc\<rparr>) = checkInstanceLeaf E"
  "checkVolumeCreate (E\<lparr>read_current := rc\<rparr>) = checkVolumeCreate E"
  "checkImages (E\<lparr>read_current := rc\<rparr>) = checkImages E"
proof -
  have env: "parse_url (E\<lparr>read_current := rc\<rparr>) = parse_url E" "parse_json (E\<lparr>read_current := rc\<rparr>) = parse_json E"
    by simp_all
  show img: "imageServerProblem (E\<lparr>read_current := rc\<rparr>) = imageServerProblem E"
    unfolding imageServerProblem_def env fun_eq_iff by blast
  show json: "checkJson (E\<lparr>read_current := rc\<rparr>) = checkJson E"
    unfolding checkJson_def env fun_eq_iff by blast
  show "checkInstanceCreate (E\<lparr>read_current := rc\<rparr>) = checkInstanceCreate E"
    unfolding checkInstanceCreate_def img env json fun_eq_iff by blast
  show "checkInstanceLeaf (E\<lparr>read_current := rc\<rparr>) = checkInstanceLeaf E"
    unfolding checkInstanceLeaf_def img env json fun_eq_iff by blast
  show "checkVolumeCreate (E\<lparr>read_current := rc\<rparr>) = checkVolumeCreate E"
    unfolding checkVolumeCreate_def img env json fun_eq_iff by blast
  show "checkImages (E\<lparr>read_current := rc\<rparr>) = checkImages E"
    unfolding checkImages_def img env json fun_eq_iff by blast
qed

lemma checkInstances_read:
  assumes "\<And>name. rest = [name] \<Longrightarrow> isManagedInstance (Some name) \<Longrightarrow> req_method request \<in> {PUT, PATCH} \<Longrightarrow>
      valid_body (parse_json E) request (\<lambda>b. fieldsProblem b INSTANCE_UPDATE_FIELDS ''instance'') \<Longrightarrow>
      rc (''/1.0/instances/'' @ encode_uri_component name) = read_current E (''/1.0/instances/'' @ encode_uri_component name)"
  shows "checkInstances (E\<lparr>read_current := rc\<rparr>) request rest = checkInstances E request rest"
proof (cases "\<exists>name. rest = [name] \<and> isManagedInstance (Some name) \<and> req_method request \<in> {PUT, PATCH}")
  case True
  then obtain name where n: "rest = [name]" "isManagedInstance (Some name)" "req_method request \<in> {PUT, PATCH}"
    by blast
  then have "checkInstanceUpdate (E\<lparr>read_current := rc\<rparr>) request (''/1.0/instances/'' @ encode_uri_component name)
      = checkInstanceUpdate E request (''/1.0/instances/'' @ encode_uri_component name)"
    using assms [OF n] by (auto simp: checkInstanceUpdate_def valid_body_iff split: option.splits)
  with n show ?thesis by (auto simp: checkInstances_def)
next
  case False
  then show ?thesis
    by (cases rest; cases "req_method request"; cases "tl rest") (auto simp: checkInstances_def)
qed

lemma checkStoragePools_read:
  assumes "\<And>pool name. rest = [pool, ''volumes'', ''custom'', name] \<Longrightarrow> pool \<noteq> [] \<Longrightarrow>
      MANAGED_VOLUME_NAME_PATTERN name \<Longrightarrow> req_method request \<in> {PUT, PATCH} \<Longrightarrow>
      valid_body (parse_json E) request (\<lambda>b. fieldsProblem b VOLUME_UPDATE_FIELDS ''volume'') \<Longrightarrow>
      rc (volume_path pool name) = read_current E (volume_path pool name)"
  shows "checkStoragePools (E\<lparr>read_current := rc\<rparr>) request rest = checkStoragePools E request rest"
proof -
  have upd: "checkVolumeUpdate (E\<lparr>read_current := rc\<rparr>) request (rest ! 0) (rest ! 3)
      = checkVolumeUpdate E request (rest ! 0) (rest ! 3)"
    if h: "\<not> (seg rest 0 \<in> {None, Some []} \<or> seg rest 1 \<noteq> Some ''volumes'' \<or> length rest > 4)"
      "\<not> (seg rest 2 \<noteq> Some ''custom'' \<or> \<not> MANAGED_VOLUME_NAME_PATTERN (case seg rest 3 of Some n \<Rightarrow> n | None \<Rightarrow> []))"
      "\<not> (seg rest 2 = None \<or> (seg rest 2 = Some ''custom'' \<and> seg rest 3 = None))"
      "\<not> (req_method request \<noteq> PUT \<and> req_method request \<noteq> PATCH)"
  proof -
    obtain pool where pool: "seg rest 0 = Some pool" "pool \<noteq> []" using h(1) by auto
    obtain name where name: "seg rest 3 = Some name" "MANAGED_VOLUME_NAME_PATTERN name" using h(2,3) by auto
    have "length rest = 4" using h(1) name(1) by (auto simp: seg_def split: if_split_asm)
    then obtain a b c d where "rest = [a, b, c, d]" by (auto simp: length_Suc_conv numeral_eq_Suc)
    then have rest: "rest = [pool, ''volumes'', ''custom'', name]"
      using h(1,2) pool name by (auto simp: seg_def)
    show ?thesis using assms [OF rest pool(2) name(2)] h(4)
      by (auto simp: rest checkVolumeUpdate_def valid_body_iff split: option.splits)
  qed
  show ?thesis unfolding checkStoragePools_def reads_no_document
    by (intro if_cong refl) (rule upd)
qed

lemma policy_reads_only:
  assumes "\<forall>p. policy_read (parse_json E) request = Some p \<longrightarrow> rc p = read_current E p"
  shows "checkIncusHttp (E\<lparr>read_current := rc\<rparr>) lk request l = checkIncusHttp E lk request l"
proof (cases "parseIncusPath (req_path request)")
  case (Some sq)
  obtain segs query where sq: "sq = (segs, query)" by (cases sq)
  have "checkInstances (E\<lparr>read_current := rc\<rparr>) request rest = checkInstances E request rest"
    if "seg segs 0 = Some ''1.0''" "tl segs = ''instances'' # rest" for rest
    by (rule checkInstances_read)
       (use assms that in \<open>cases segs; auto simp: policy_read_def Some sq seg_def\<close>)
  moreover have "checkStoragePools (E\<lparr>read_current := rc\<rparr>) request rest = checkStoragePools E request rest"
    if "seg segs 0 = Some ''1.0''" "tl segs = ''storage-pools'' # rest" for rest
    by (rule checkStoragePools_read)
       (use assms that in \<open>cases segs; auto simp: policy_read_def Some sq seg_def\<close>)
  ultimately show ?thesis
    by (auto simp: checkIncusHttp_def Some sq split: list.splits)
qed (simp add: checkIncusHttp_def)

lemma policy_read_cases:
  assumes "policy_read parse request = Some p"
  obtains (inst) name query where
      "parseIncusPath (req_path request) = Some ([''1.0'', ''instances'', name], query)"
      "isManagedInstance (Some name)" "req_method request \<in> {PUT, PATCH}"
      "valid_body parse request (\<lambda>b. fieldsProblem b INSTANCE_UPDATE_FIELDS ''instance'')"
      "p = ''/1.0/instances/'' @ encode_uri_component name"
  | (vol) pool name query where
      "parseIncusPath (req_path request) = Some ([''1.0'', ''storage-pools'', pool, ''volumes'', ''custom'', name], query)"
      "pool \<noteq> []" "MANAGED_VOLUME_NAME_PATTERN name" "req_method request \<in> {PUT, PATCH}"
      "valid_body parse request (\<lambda>b. fieldsProblem b VOLUME_UPDATE_FIELDS ''volume'')"
      "p = volume_path pool name"
  using assms unfolding policy_read_def
  by (auto split: option.splits list.splits prod.splits if_split_asm)

definition MISSING :: "string set" where
  "MISSING = {''instance to update does not exist'', ''volume to update does not exist''}"

lemma policy_read_missing:
  assumes "policy_read (parse_json E) request = Some p" "read_current E p = None"
  shows "\<exists>why \<in> MISSING. fst (checkIncusHttp E lk request l) = deny why"
  using assms(1)
proof (cases rule: policy_read_cases)
  case (inst name query)
  then have "\<exists>why \<in> MISSING. checkInstances E request [name] = deny why"
    using assms(2) by (auto simp: MISSING_def checkInstances_def checkInstanceUpdate_def valid_body_iff)
  with inst(1) show ?thesis by (auto simp: checkIncusHttp_def seg_def)
next
  case (vol pool name query)
  then have "\<exists>why \<in> MISSING. checkStoragePools E request [pool, ''volumes'', ''custom'', name] = deny why"
    using assms(2) by (auto simp: MISSING_def checkStoragePools_def checkVolumeUpdate_def valid_body_iff seg_def)
  with vol(1) show ?thesis by (auto simp: checkIncusHttp_def seg_def)
qed

subsection \<open>Invariant of runs\<close>

definition agent_inv :: "agent \<Rightarrow> bool" where
  "agent_inv a \<longleftrightarrow> ledger_inv (ops a) \<and> firewall_inv (egress a)
     \<and> ttlMs (led (ops a)) = OPERATION_LEDGER_TTL_MS"

lemma agent_inv_start: "stored_ok st \<Longrightarrow> agent_inv (agent_start t sid st ans ans')"
  by (simp add: agent_inv_def agent_start_def ledger_inv_start firewall_inv_start)
     (simp add: start_run_def new_ledger_def)

lemma lookup_keeps_ttl [simp]:
  "ttlMs (led (snd (checkIncusHttp E (ledger_lookup d) request s))) = ttlMs (led s)"
  "ttlMs (led (snd (checkIncusWebSocket (ledger_lookup d) path s))) = ttlMs (led s)"
  by (auto simp: checkIncusHttp_def checkIncusWebSocket_def checkOperations_def ledger_lookup_def
      Let_def knows_def split: option.splits list.splits prod.splits)

lemma policy_verdict_inv:
  assumes "agent_inv a" "policy_verdict H request (ops a) = (v, s)"
  shows "agent_inv (a\<lparr>ops := s\<rparr>)"
proof -
  have "s = ops a \<or> s = snd (checkIncusHttp (policy_env_of H) (ledger_lookup (check_delay H)) request (ops a))"
    using assms(2) by (auto simp: policy_verdict_def split: option.splits prod.splits)
  then show ?thesis using assms(1)
    by (auto simp: agent_inv_def ledger_ops.check_keeps_ok)
qed

lemma requireGuestGuards_inv:
  assumes "agent_inv a" "requireGuestGuards gans fans a = (res, a')"
  shows "agent_inv a'"
  using assms firewall_step_inv [of "egress a" "Ensure fans"]
  by (auto simp: requireGuestGuards_def agent_inv_def Let_def split: prod.splits if_split_asm)

lemma send_request_inv:
  assumes "agent_inv a" "send_request H request f a = (res, a')"
  shows "agent_inv a'"
  using assms ledger_step_inv ledger_step_limits(1)
  by (auto simp: send_request_def agent_inv_def simp del: ledger_step.simps split: sum.splits prod.splits)

lemma incusHttp_inv:
  assumes "agent_inv a"
  shows "agent_inv (fst (snd (incusHttp H request a)))"
proof -
  obtain v s where pv: "policy_verdict H request (ops a) = (v, s)" by fastforce
  have inv: "agent_inv (a\<lparr>ops := s\<rparr>)" by (rule policy_verdict_inv [OF assms pv])
  show ?thesis
  proof (cases "\<exists>f up. v = Inr (Allowed f up)")
    case False
    then show ?thesis
      by (auto simp: incusHttp_def pv inv split: sum.splits verdict.splits)
  next
    case True
    then obtain f up where v: "v = Inr (Allowed f up)" by blast
    obtain r a1 where g: "(if up then requireGuestGuards (guard_nft H) (firewall_nft H) (a\<lparr>ops := s\<rparr>)
        else (Inr (), a\<lparr>ops := s\<rparr>)) = (r, a1)" by fastforce
    then have "agent_inv a1" using inv requireGuestGuards_inv [OF inv] by (auto split: if_split_asm)
    then show ?thesis
      by (auto simp: incusHttp_def pv v g split: sum.splits prod.splits dest: send_request_inv)
  qed
qed

lemma applyFirewall_inv:
  "agent_inv a \<Longrightarrow> agent_inv (snd (applyFirewall stale issue doc chk written ans interrupted a))"
  using firewall_step_inv
  by (auto simp: applyFirewall_def agent_inv_def Let_def simp del: firewall_step.simps)

lemma incusWebSocket_inv: "agent_inv a \<Longrightarrow> agent_inv (fst (snd (incusWebSocket W path a)))"
proof -
  assume inv: "agent_inv a"
  have "agent_inv (a\<lparr>ops := snd (checkIncusWebSocket (ledger_lookup (ws_delay W)) path (ops a))\<rparr>)"
    using inv by (simp add: agent_inv_def ledger_ops.websocket_check_keeps_ok)
  then show ?thesis
    by (auto simp: incusWebSocket_def Let_def split: prod.splits websocket_verdict.splits)
qed

lemma agent_step_inv: "agent_inv a \<Longrightarrow> agent_inv (agent_step a c)"
proof (cases c)
  case (CheckGuards gans fans)
  assume "agent_inv a"
  with CheckGuards firewall_step_inv show ?thesis
    by (simp add: agent_inv_def del: firewall_step.simps)
next
  case (SetServerId sid ans)
  assume "agent_inv a"
  with SetServerId firewall_step_inv show ?thesis
    by (simp add: agent_inv_def del: firewall_step.simps)
next
  case Hello
  assume "agent_inv a"
  with Hello firewall_step_inv show ?thesis
    by (simp add: agent_inv_def hello_def del: firewall_step.simps)
qed (simp_all add: incusHttp_inv applyFirewall_inv incusWebSocket_inv)

interpretation agent_runs: preserved agent_step agent_inv
  by unfold_locales (rule agent_step_inv)


subsection \<open>Properties\<close>

text \<open>
  \<open>raises_nic\<close>: the requests that bring a guest NIC up. An instance created started, a power action
  other than a stop or a freeze, and an update that changes or adds a NIC of an instance that is not
  stopped (\<open>cur\<close> is the document Incus holds).
\<close>

definition same_nic :: "js_object \<Rightarrow> string \<Rightarrow> js_object \<Rightarrow> bool" where
  "same_nic cur n d \<longleftrightarrow> (\<exists>before nic. js_get cur ''devices'' = Some (JObj before)
     \<and> js_get before n = Some (JObj nic) \<and> map_of nic = map_of d)"

definition raises_nic :: "http_method \<Rightarrow> string list \<Rightarrow> forwarded \<Rightarrow> (string \<Rightarrow> js_object option) \<Rightarrow> bool" where
  "raises_nic m segs f cur \<longleftrightarrow>
     segs = [''1.0'', ''instances''] \<and> m = POST
       \<and> (\<exists>body. f = JsonBody body \<and> js_get body ''start'' = Some (JBool True))
   \<or> (\<exists>name. segs = [''1.0'', ''instances'', name, ''state''] \<and> m = PUT
       \<and> (\<exists>body a. f = JsonBody body \<and> js_get body ''action'' = Some (JStr a) \<and> a \<notin> {''stop'', ''freeze''}))
   \<or> (\<exists>name. segs = [''1.0'', ''instances'', name] \<and> m \<in> {PUT, PATCH}
       \<and> (\<exists>body doc ds n d. f = JsonBody body
            \<and> cur (''/1.0/instances/'' @ encode_uri_component name) = Some doc
            \<and> (\<nexists>st. js_get doc ''status'' = Some st \<and> reads_stopped st)
            \<and> js_get body ''devices'' = Some (JObj ds) \<and> (n, JObj d) \<in> set ds
            \<and> js_get d ''type'' = Some (JStr ''nic'') \<and> \<not> same_nic doc n d))"

text \<open>The firewall enforces a document: nft took its rendering, its listing right after is the listing
  nft returned last, and the Backend sent that document on the current connection.\<close>

definition firewall_enforced :: "firewall_run \<Rightarrow> bool" where
  "firewall_enforced r \<longleftrightarrow> (\<exists>d ruleset l pre post. document (fw r) = Some d
     \<and> renderFirewallRuleset (owner (fw r)) (Some d) = Inr ruleset
     \<and> nft_log r = pre @ [Wrote ruleset, Listed (Some l)] @ post \<and> last (nft_log r) = Listed (Some l)
     \<and> parseFirewallComment l = Some (owner (fw r), digest d) \<and> str_includes ''hook prerouting'' l
     \<and> (epoch (fw r), digest d) \<in> set (sent r))"

definition guard_enforced :: "nft_answers \<Rightarrow> bool" where
  "guard_enforced ans \<longleftrightarrow> (\<exists>l. list_after ans = Inr (Some l) \<and> guardTableIsComplete l)"

lemma guard_check_enforced: "check_guard ans g = (True, g', evs) \<Longrightarrow> guard_enforced ans"
  by (auto simp: check_guard_def guard_verdict_def guard_enforced_def complete_listing_def Let_def
      split: sum.splits prod.splits option.splits if_split_asm)

lemma guards_enforced:
  assumes "agent_inv a" "requireGuestGuards gans fans a = (Inr u, a')"
  shows "guard_enforced gans \<and> firewall_enforced (egress a')"
proof -
  have g: "fst (check_guard gans (guard a))" and up: "fst (ensure fans (fw (egress a)))"
    and a': "egress a' = firewall_step (egress a) (Ensure fans)"
    using assms(2) by (auto simp: requireGuestGuards_def Let_def split: prod.splits if_split_asm)
  have up': "present (fw (egress a'))" using up
    by (auto simp: a' ensure_def split: prod.splits)
  have inv': "firewall_inv (egress a')"
    unfolding a' using assms(1) by (intro firewall_step_inv) (simp add: agent_inv_def)
  have "firewall_enforced (egress a')"
    unfolding firewall_enforced_def by (rule present_backed [OF inv' up']) (intro exI conjI, assumption+)
  moreover have "guard_enforced gans"
    using g guard_check_enforced by (metis prod.collapse)
  ultimately show ?thesis by blast
qed

lemma unflagged_keeps_nics:
  assumes "fst (checkIncusHttp E lk request l) = Allowed f False"
    and "parseIncusPath (req_path request) = Some (segs, query)"
    and "\<forall>b j. parse_json E b = Some j \<longrightarrow> wf_json j"
    and "\<forall>p doc. read_current E p = Some doc \<longrightarrow> wf_json (JObj doc)"
  shows "\<not> raises_nic (req_method request) segs f (read_current E)"
proof
  assume r: "raises_nic (req_method request) segs f (read_current E)"
  then obtain rest where rest: "segs = ''1.0'' # ''instances'' # rest" unfolding raises_nic_def by blast
  have "checkInstances E request rest = Allowed f False"
    using assms(1) by (rule checkIncusHttp_allowed) (use assms(2) rest in auto)
  note un = checkInstances_unflagged [OF this assms(3,4)]
  from r show False unfolding raises_nic_def
  proof (elim disjE exE conjE)
    assume "segs = [''1.0'', ''instances'']" "req_method request = POST"
    then show False if "f = JsonBody body" "js_get body ''start'' = Some (JBool True)" for body
      using un rest that by auto
  next
    fix name body a
    assume "segs = [''1.0'', ''instances'', name, ''state'']" "req_method request = PUT" "f = JsonBody body"
      "js_get body ''action'' = Some (JStr a)" "a \<notin> {''stop'', ''freeze''}"
    then show False using un rest by auto
  next
    fix name body doc ds n d
    assume h: "segs = [''1.0'', ''instances'', name]" "req_method request \<in> {PUT, PATCH}" "f = JsonBody body"
      "read_current E (''/1.0/instances/'' @ encode_uri_component name) = Some doc"
      "\<nexists>st. js_get doc ''status'' = Some st \<and> reads_stopped st"
      "js_get body ''devices'' = Some (JObj ds)" "(n, JObj d) \<in> set ds"
      "js_get d ''type'' = Some (JStr ''nic'')" "\<not> same_nic doc n d"
    then have "rest = [name]" using rest by simp
    with un h(2) obtain body' cur where b: "f = JsonBody body'"
        "read_current E (''/1.0/instances/'' @ encode_uri_component name) = Some cur"
        "(\<exists>st. js_get cur ''status'' = Some st \<and> reads_stopped st)
          \<or> (\<forall>ds n d. js_get body' ''devices'' = Some (JObj ds) \<longrightarrow> (n, JObj d) \<in> set ds \<longrightarrow>
               js_get d ''type'' = Some (JStr ''nic'') \<longrightarrow> same_nic cur n d)"
      unfolding same_nic_def by blast
    then have "body' = body" "cur = doc" using h(3,4) by simp_all
    with b(3) h show False by blast
  qed
qed

text \<open>What \<open>incusHttp\<close> sent, from the policy's verdict on.\<close>

lemma current_document_wf: "current_document d = Some doc \<Longrightarrow> \<forall>j. d = Some j \<longrightarrow> wf_json j \<Longrightarrow> wf_json (JObj doc)"
  by (cases d rule: current_document.cases) (auto split: if_split_asm)

lemma read_document_wf:
  assumes "\<forall>p j. incus_document H p = Inr (Some j) \<longrightarrow> wf_json j"
  shows "\<forall>p doc. read_current (policy_env_of H) p = Some doc \<longrightarrow> wf_json (JObj doc)"
proof (intro allI impI)
  fix p doc
  assume "read_current (policy_env_of H) p = Some doc"
  then obtain d where "incus_document H p = Inr d" "current_document d = Some doc"
    by (auto simp: policy_env_of_def readCurrent_def split: sum.splits thrown.splits if_split_asm)
  moreover from this have "\<forall>j. d = Some j \<longrightarrow> wf_json j" using assms by blast
  ultimately show "wf_json (JObj doc)" by (intro current_document_wf)
qed

lemma incusHttp_sent:
  assumes "incusHttp H request a = (res, a', Some f)"
  obtains up s where
    "checkIncusHttp (policy_env_of H) (ledger_lookup (check_delay H)) request (ops a) = (Allowed f up, s)"
    "policy_verdict H request (ops a) = (Inr (Allowed f up), s)"
    "up \<Longrightarrow> \<exists>a1. requireGuestGuards (guard_nft H) (firewall_nft H) (a\<lparr>ops := s\<rparr>) = (Inr (), a1)
        \<and> egress a' = egress a1"
proof -
  obtain up s where v: "policy_verdict H request (ops a) = (Inr (Allowed f up), s)"
    using assms by (auto simp: incusHttp_def split: prod.splits sum.splits verdict.splits if_split_asm)
  moreover from v have "checkIncusHttp (policy_env_of H) (ledger_lookup (check_delay H)) request (ops a)
      = (Allowed f up, s)"
    by (auto simp: policy_verdict_def split: option.splits prod.splits)
  moreover have "\<exists>a1. requireGuestGuards (guard_nft H) (firewall_nft H) (a\<lparr>ops := s\<rparr>) = (Inr (), a1)
      \<and> egress a' = egress a1" if up
    using assms that
    by (auto simp: incusHttp_def v send_request_def split: prod.splits sum.splits)
  ultimately show thesis using that by blast
qed

text \<open>C1. What reaches Incus through the agent, after any sequence of calls: a request other than GET
  addresses a managed instance or volume, a creation, or the deletion of an image or an image alias, an
  operation, also of a GET, is one whose start was recorded within the
  time to live of the ledger, and a request that brings a guest NIC up was sent only after the IPv6
  guard's table was listed complete and while the egress firewall enforces the document the Backend
  sent on this connection.\<close>

theorem relayed_requests_safe:
  assumes "stored_ok st" "a = foldl agent_step (agent_start t sid st ans ans') calls"
    and "incusHttp H request a = (res, a', Some f)"
    and "\<forall>b j. json_of H b = Some j \<longrightarrow> wf_json j"
    and "\<forall>p j. incus_document H p = Inr (Some j) \<longrightarrow> wf_json j"
  shows "\<exists>segs query. parseIncusPath (req_path request) = Some (segs, query)
    \<and> (req_method request \<noteq> GET \<longrightarrow> writable_target (req_method request) segs)
    \<and> (\<forall>oid rest. segs = ''1.0'' # ''operations'' # oid # rest \<longrightarrow>
         (\<exists>r. (to_lower oid, r) \<in> set (history (ops a))
            \<and> now (ops a) + int (check_delay H) - OPERATION_LEDGER_TTL_MS < r))
    \<and> (raises_nic (req_method request) segs f (read_current (policy_env_of H)) \<longrightarrow>
         guard_enforced (guard_nft H) \<and> firewall_enforced (egress a'))"
proof -
  have inv: "agent_inv a" unfolding assms(2) by (rule agent_runs.run_inv [OF agent_inv_start [OF assms(1)]])
  obtain up s where v: "checkIncusHttp (policy_env_of H) (ledger_lookup (check_delay H)) request (ops a) = (Allowed f up, s)"
      and pv: "policy_verdict H request (ops a) = (Inr (Allowed f up), s)"
      and guards: "up \<longrightarrow> (\<exists>a1. requireGuestGuards (guard_nft H) (firewall_nft H) (a\<lparr>ops := s\<rparr>) = (Inr (), a1)
        \<and> egress a' = egress a1)"
    using assms(3) by (rule incusHttp_sent) blast
  have fv: "fst (checkIncusHttp (policy_env_of H) (ledger_lookup (check_delay H)) request (ops a)) = Allowed f up"
    using v by simp
  obtain segs query where p: "parseIncusPath (req_path request) = Some (segs, query)"
    using fv by (rule checkIncusHttp_allowed)
  have wf: "\<forall>b j. parse_json (policy_env_of H) b = Some j \<longrightarrow> wf_json j"
      "\<forall>p doc. read_current (policy_env_of H) p = Some doc \<longrightarrow> wf_json (JObj doc)"
    using assms(4) read_document_wf [OF assms(5)] by (simp_all add: policy_env_of_def del: wf_json.simps)
  have "started_in (check_delay H) (ops a) oid" if "segs = ''1.0'' # ''operations'' # oid # rest" for oid rest
    using inv fv p unfolding that agent_inv_def by (blast intro: ledger_ops.allowed_operation_started)
  moreover have "guard_enforced (guard_nft H) \<and> firewall_enforced (egress a')"
    if "raises_nic (req_method request) segs f (read_current (policy_env_of H))"
  proof -
    have up using unflagged_keeps_nics [OF _ p wf, of "ledger_lookup (check_delay H)" "ops a" f] fv that
      by (cases up) auto
    then show ?thesis using guards guards_enforced policy_verdict_inv [OF inv pv] by metis
  qed
  ultimately show ?thesis
    using p checkIncusHttp_writes [OF fv _ p] inv by (auto simp: started_in_def agent_inv_def)
qed

text \<open>C13. Whatever WebSocket the agent dials, after any sequence of calls, it is the events stream, whose
  frames then pass the event filter, or the channel of an operation whose start was recorded within
  the time to live of the ledger.\<close>

theorem dialled_websockets_safe:
  assumes "stored_ok st" "a = foldl agent_step (agent_start t sid st ans ans') calls"
    and "incusWebSocket W path a = (res, a', Some dialled)"
  shows "dialled = EVENTS_DIAL_PATH \<and> (\<forall>b. res = Inr b \<longrightarrow> filtered b)
    \<or> dialled = path \<and> (\<exists>oid query r.
         parseIncusPath path = Some ([''1.0'', ''operations'', oid, ''websocket''], query)
         \<and> OPERATION_ID_PATTERN oid \<and> (to_lower oid, r) \<in> set (history (ops a))
         \<and> now (ops a) + int (ws_delay W) - OPERATION_LEDGER_TTL_MS < r)"
proof -
  have inv: "agent_inv a" unfolding assms(2) by (rule agent_runs.run_inv [OF agent_inv_start [OF assms(1)]])
  obtain kind s where v: "checkIncusWebSocket (ledger_lookup (ws_delay W)) path (ops a) = (WsAllowed kind, s)"
      "dialled = (if kind = Events then EVENTS_DIAL_PATH else path)"
      "\<forall>b. res = Inr b \<longrightarrow> filtered b = (kind = Events)"
    using assms(3)
    by (auto simp: incusWebSocket_def Let_def split: prod.splits websocket_verdict.splits sum.splits if_split_asm)
  show ?thesis
  proof (cases kind)
    case Events
    with v show ?thesis by simp
  next
    case Operation
    have "\<exists>oid query. parseIncusPath path = Some ([''1.0'', ''operations'', oid, ''websocket''], query)
        \<and> OPERATION_ID_PATTERN oid \<and> started_in (ws_delay W) (ops a) oid"
      by (rule ledger_ops.allowed_websocket_started) (use inv v Operation in \<open>simp_all add: agent_inv_def\<close>)
    with v(2) Operation inv show ?thesis unfolding started_in_def agent_inv_def by auto
  qed
qed

text \<open>C28. How the read of the document to update ends the request. An error of the local Incus with another status than 404,
  or none, reaches the Backend with its own code and text, any other error as \<open>internal\<close>, and nothing is sent or remembered. A
  404, or an answer without a document, is a refusal of the policy that says the document does not exist, and again nothing is
  sent. A document that is there is the one the policy compares with, and no other document can change the verdict.\<close>

theorem document_read_failures:
  assumes "policy_read (json_of H) request = Some p"
  shows "(\<forall>c m st. incus_document H p = Inl (LocalIncusError c m st) \<longrightarrow> st \<noteq> Some 404 \<longrightarrow>
         incusHttp H request a = (Inl (AgentRequestError c m), a, None))
    \<and> (\<forall>m. incus_document H p = Inl (OtherError m) \<longrightarrow> incusHttp H request a = (Inl (AgentRequestError Internal m), a, None))
    \<and> ((\<exists>c m. incus_document H p = Inl (LocalIncusError c m (Some 404))) \<or> incus_document H p \<in> {Inr None, Inr (Some JNull)} \<longrightarrow>
         (\<exists>why \<in> MISSING. \<exists>s. incusHttp H request a = (Inl (AgentRequestError PolicyDenied why), a\<lparr>ops := s\<rparr>, None)))
    \<and> (\<forall>doc. incus_document H p = Inr (Some (JObj doc)) \<longrightarrow> read_current (policy_env_of H) p = Some doc
         \<and> policy_verdict H request (ops a)
             = (let (v, s) = checkIncusHttp (policy_env_of H) (ledger_lookup (check_delay H)) request (ops a) in (Inr v, s)))
    \<and> (\<forall>rc lk l. rc p = read_current (policy_env_of H) p \<longrightarrow>
         checkIncusHttp (policy_env_of H\<lparr>read_current := rc\<rparr>) lk request l = checkIncusHttp (policy_env_of H) lk request l)"
proof (intro conjI allI impI)
  assume "(\<exists>c m. incus_document H p = Inl (LocalIncusError c m (Some 404))) \<or> incus_document H p \<in> {Inr None, Inr (Some JNull)}"
  then obtain d where d: "readCurrent (incus_document H p) = Inr d" "current_document d = None" by (auto simp: readCurrent_def)
  have "\<exists>why \<in> MISSING. fst (checkIncusHttp (policy_env_of H) (ledger_lookup (check_delay H)) request (ops a)) = deny why"
    by (rule policy_read_missing [of _ _ p]) (use assms d in \<open>simp_all add: policy_env_of_def\<close>)
  with d(1) show "\<exists>why \<in> MISSING. \<exists>s. incusHttp H request a = (Inl (AgentRequestError PolicyDenied why), a\<lparr>ops := s\<rparr>, None)"
    by (auto simp: incusHttp_def policy_verdict_def assms deny_def split: prod.splits)
next
  fix rc lk l assume "rc p = read_current (policy_env_of H) p"
  then show "checkIncusHttp (policy_env_of H\<lparr>read_current := rc\<rparr>) lk request l = checkIncusHttp (policy_env_of H) lk request l"
    by (intro policy_reads_only) (use assms in \<open>simp add: policy_env_of_def\<close>)
qed (simp_all add: incusHttp_def policy_verdict_def assms readCurrent_def asRequestError_def policy_env_of_def)


subsection \<open>Witnesses\<close>

definition sample_agent :: agent where
  "sample_agent = foldl agent_step
     (agent_start 0 (Some sample_owner) (StoredNone []) (nft_says None None) (nft_says None None))
     [Hello, Apply 0 (\<lambda>_. []) sample_document CheckPassed (Inr ()) (nft_says None (Some sample_listing)) False]"

definition sample_usage_env :: cephfs_env where
  "sample_usage_env = \<lparr>json_parse = (\<lambda>_. None), json_print = (\<lambda>_. []), pool_answer = (\<lambda>_. Inl []),
     read_rbytes = (\<lambda>_. Inl []), budget_over = False, driver_now = 0, driver_then = 0, incusDir = []\<rparr>"

text \<open>A start of the sample instance, which Incus refuses.\<close>

definition sample_http :: http_env where
  "sample_http = \<lparr>json_of = (\<lambda>_. Some (JObj [(''action'', JStr ''start'')])), url_of = (\<lambda>_. None),
     incus_document = (\<lambda>_. Inl (LocalIncusError IncusUnavailable [] None)),
     guard_nft = nft_says (Some renderIpv6GuardRuleset) (Some renderIpv6GuardRuleset),
     firewall_nft = nft_says (Some sample_listing) None,
     incus_answer = (\<lambda>_. Inr \<lparr>res_status = 400, res_headers = [], res_body = []\<rparr>),
     usage_env = sample_usage_env, check_delay = 0, record_delay = 0, set_delay = 0\<rparr>"

definition start_request :: policy_request where
  "start_request = sample_request PUT ''/1.0/instances/nyc-0123456789abcdef0123456789abcdef/state''"

lemma start_path:
  "parseIncusPath (req_path start_request) = Some ([''1.0'', ''instances'', ''nyc-'' @ sample_id, ''state''], [])"
  by (simp add: start_request_def sample_request_def parseIncusPath_def Let_def is_control_def to_lower_def
      lower_char_def is_upper_def decode_uri_component_plain search_params_def query_ok_def
      sample_id_def char_of_def bit_0)

lemma sample_agent_egress: "egress sample_agent = sample_run"
  using sample_document_valid
  by (simp add: sample_agent_def sample_run_def agent_start_def hello_def applyFirewall_def Let_def
      del: firewall_step.simps)

lemma start_verdict:
  "policy_verdict sample_http start_request s = (Inr (Allowed (JsonBody [(''action'', JStr ''start'')]) True), s)"
  using start_path sample_names
  by (simp add: policy_verdict_def policy_read_def checkIncusHttp_def seg_def checkInstances_def
      isManagedInstance_def Let_def checkInstanceLeaf_def checkJson_def jsonBody_def policy_env_of_def
      sample_http_def start_request_def sample_request_def INSTANCE_STATE_FIELDS_def action_text_def
      POWER_ACTIONS_def NIC_UP_ACTIONS_def forward_eq)

lemma sample_guards:
  "\<exists>a'. requireGuestGuards (guard_nft sample_http) (firewall_nft sample_http) sample_agent = (Inr (), a')"
proof -
  have "fst (check_guard (guard_nft sample_http) (guard sample_agent))"
    using rendered_guard_complete
    by (simp add: sample_http_def nft_says_def check_guard_def guard_verdict_def complete_listing_def
        renderIpv6GuardRuleset_def guard_lines_def)
  then show ?thesis using sample_ensure sample_agent_egress
    by (auto simp: requireGuestGuards_def sample_http_def Let_def split: prod.splits)
qed

lemma sample_start_sent:
  "\<exists>res a'. incusHttp sample_http start_request sample_agent = (res, a', Some (JsonBody [(''action'', JStr ''start'')]))"
proof -
  obtain a' where "requireGuestGuards (guard_nft sample_http) (firewall_nft sample_http) sample_agent = (Inr (), a')"
    using sample_guards by blast
  then show ?thesis
    by (simp add: incusHttp_def start_verdict split: prod.split)
qed

theorem relayed_requests_safe_witness:
  "\<exists>res a'. incusHttp sample_http start_request sample_agent = (res, a', Some (JsonBody [(''action'', JStr ''start'')]))
     \<and> writable_target PUT [''1.0'', ''instances'', ''nyc-'' @ sample_id, ''state'']
     \<and> guard_enforced (guard_nft sample_http) \<and> firewall_enforced (egress a')"
proof -
  obtain res a' where s: "incusHttp sample_http start_request sample_agent
      = (res, a', Some (JsonBody [(''action'', JStr ''start'')]))"
    using sample_start_sent by blast
  have wf: "\<forall>b j. json_of sample_http b = Some j \<longrightarrow> wf_json j"
      "\<forall>p j. incus_document sample_http p = Inr (Some j) \<longrightarrow> wf_json j"
    by (simp_all add: sample_http_def)
  have up: "raises_nic PUT [''1.0'', ''instances'', ''nyc-'' @ sample_id, ''state'']
      (JsonBody [(''action'', JStr ''start'')]) cur" for cur
    by (simp add: raises_nic_def)
  have m: "req_method start_request = PUT" by (simp add: start_request_def sample_request_def)
  have st: "stored_ok (StoredNone [])" by (simp add: stored_ok_def)
  from relayed_requests_safe [OF st sample_agent_def s wf] up m start_path s
  show ?thesis by fastforce
qed

definition events_env :: websocket_env where
  "events_env = \<lparr>ws_delay = 0, dial_incus = (\<lambda>_. Inr ()), ws_aborted = False, dial_backend = Inr ()\<rparr>"

lemma events_path: "parseIncusPath ''/1.0/events'' = Some ([''1.0'', ''events''], [])"
  by (simp add: parseIncusPath_def Let_def is_control_def to_lower_def lower_char_def is_upper_def
      decode_uri_component_plain search_params_def query_ok_def char_of_def bit_0)

theorem dialled_websockets_safe_witness:
  "incusWebSocket events_env ''/1.0/events'' sample_agent = (Inr (Bridge True), sample_agent, Some EVENTS_DIAL_PATH)
   \<and> filtered (Bridge True)"
proof -
  have e: "incusWebSocket events_env ''/1.0/events'' sample_agent
      = (Inr (Bridge True), sample_agent, Some EVENTS_DIAL_PATH)"
    by (simp add: incusWebSocket_def checkIncusWebSocket_def events_path seg_def events_env_def)
  have "stored_ok (StoredNone [])" by (simp add: stored_ok_def)
  from dialled_websockets_safe [OF this sample_agent_def e] e show ?thesis
    by (auto simp: EVENTS_DIAL_PATH_def)
qed

definition update_request :: policy_request where
  "update_request = sample_request PATCH ''/1.0/instances/nyc-0123456789abcdef0123456789abcdef?project=default''"

definition update_http :: http_env where
  "update_http = sample_http\<lparr>json_of := (\<lambda>_. Some (JObj []))\<rparr>"

theorem document_read_failures_witness:
  "incusHttp update_http update_request sample_agent
     = (Inl (AgentRequestError IncusUnavailable []), sample_agent, None)"
proof -
  have p: "policy_read (json_of update_http) update_request
      = Some (''/1.0/instances/'' @ encode_uri_component (''nyc-'' @ sample_id))"
    using sample_path sample_names
    by (simp add: policy_read_def update_request_def sample_request_def update_http_def isManagedInstance_def
        valid_body_def jsonBody_def)
  show ?thesis
    using document_read_failures [OF p, THEN conjunct1, THEN spec [of _ IncusUnavailable], THEN spec [of _ "[]"],
        THEN spec [of _ None], of sample_agent] by (simp add: update_http_def sample_http_def)
qed

end
