(* ===== verification/Cpu_Sets.thy ===== *)
theory Cpu_Sets
  imports Incus_Policy
begin

text \<open>
  Whole-CPU pinning: \<open>packages/backend/src/cpu/cpu-allocation.ts\<close>, the text of a CPU set
  (\<open>formatCpuSet\<close> of \<open>packages/backend/src/incus/instance-spec.ts\<close>) and the service that keeps the
  sets of users, \<open>packages/backend/src/cpu/cpu-sets.service.ts\<close>.

  CPU ids are integers, as Incus reports them; the sentinel \<open>-1\<close> of the selection loops is kept. A
  JavaScript \<open>Set\<close> is a list without repetition in insertion order, a counter \<open>Map\<close> an association
  list. The two \<open>while\<close> loops carry fuel: each round moves the size of the set one step towards the
  number of cores, so the size of the current set and the number of cores are enough. A \<open>TypeError\<close>
  is the access to the placement of a CPU the topology does not have.
\<close>


subsection \<open>Topology\<close>

record cpu_entry =
  cpu_id :: int
  cpu_core :: int
  cpu_socket :: int
  cpu_numa :: int

definition safe_field :: "json option \<Rightarrow> int option" where
  "safe_field v = (case v of Some (JNum q) \<Rightarrow> safe_int q | _ \<Rightarrow> None)"

definition or_number :: "int option \<Rightarrow> int \<Rightarrow> int" where
  "or_number v d = (case v of Some n \<Rightarrow> n | None \<Rightarrow> d)"

definition thread_entry :: "json \<Rightarrow> json \<Rightarrow> json \<Rightarrow> string + cpu_entry option" where
  "thread_entry socket core thread =
     bind_res (js_prop (Some thread) ''id'') (\<lambda>tid.
       case safe_field tid of
         None \<Rightarrow> Inr None
       | Some i \<Rightarrow>
           if js_opt_prop (Some thread) ''online'' = Some (JBool False) then Inr None
           else Inr (Some \<lparr>cpu_id = i,
                  cpu_core = or_number (safe_field (js_opt_prop (Some core) ''core'')) i,
                  cpu_socket = or_number (safe_field (js_opt_prop (Some socket) ''socket'')) 0,
                  cpu_numa = or_number (safe_field (js_opt_prop (Some thread) ''numa_node'')) 0\<rparr>))"

definition core_entries :: "json \<Rightarrow> json \<Rightarrow> string + cpu_entry list" where
  "core_entries socket core =
     bind_res (js_prop (Some core) ''threads'') (\<lambda>threads.
       case threads of
         Some (JArr ts) \<Rightarrow> bind_res (map_res (thread_entry socket core) ts)
                             (\<lambda>es. Inr (List.map_filter (\<lambda>e. e) es))
       | _ \<Rightarrow> Inr [])"

definition socket_entries :: "json \<Rightarrow> string + cpu_entry list" where
  "socket_entries socket =
     bind_res (js_prop (Some socket) ''cores'') (\<lambda>cores.
       case cores of
         Some (JArr cs) \<Rightarrow> bind_res (map_res (core_entries socket) cs) (\<lambda>es. Inr (concat es))
       | _ \<Rightarrow> Inr [])"

definition parseCpuTopology :: "json option \<Rightarrow> string + cpu_entry list" where
  "parseCpuTopology resources =
     (case js_opt_prop (js_opt_prop resources ''cpu'') ''sockets'' of
        Some (JArr sockets) \<Rightarrow> bind_res (map_res socket_entries sockets)
                                 (\<lambda>es. Inr (sort_key cpu_id (concat es)))
      | _ \<Rightarrow> Inr [])"

definition allocatableCpus :: "cpu_entry list \<Rightarrow> int list \<Rightarrow> int list" where
  "allocatableCpus topology reserved = sort (filter (\<lambda>i. i \<notin> set reserved) (map cpu_id topology))"


subsection \<open>Allocation\<close>

record cpu_allocation_input =
  topology :: "cpu_entry list"
  reserved :: "int list"
  cores :: nat
  current_set :: "int list"
  others :: "int list list"

datatype cpu_error = TypeError | OutOfFuel

definition count_of :: "('k \<times> int) list \<Rightarrow> 'k \<Rightarrow> int" where
  "count_of m k = (case map_of m k of None \<Rightarrow> 0 | Some n \<Rightarrow> n)"

definition bump :: "'k \<Rightarrow> int \<Rightarrow> ('k \<times> int) list \<Rightarrow> ('k \<times> int) list" where
  "bump k d m = AList.update k (count_of m k + d) m"

definition by_id :: "cpu_entry list \<Rightarrow> int \<Rightarrow> cpu_entry option" where
  "by_id topo cpu = map_of (rev (map (\<lambda>e. (cpu_id e, e)) topo)) cpu"

text \<open>The physical core of an allocatable CPU (\<open>None\<close>: the map has no such key).\<close>

definition core_of :: "cpu_allocation_input \<Rightarrow> int \<Rightarrow> (int \<times> int) option" where
  "core_of inp cpu =
     (if cpu \<in> set (allocatableCpus (topology inp) (reserved inp))
      then map_option (\<lambda>e. (cpu_socket e, cpu_core e)) (by_id (topology inp) cpu) else None)"

definition numa_of :: "cpu_allocation_input \<Rightarrow> int \<Rightarrow> int option" where
  "numa_of inp cpu = map_option cpu_numa (by_id (topology inp) cpu)"

definition load_map :: "cpu_allocation_input \<Rightarrow> (int \<times> int) list" where
  "load_map inp = foldl (\<lambda>m set. foldl (\<lambda>m cpu. bump cpu 1 m) m set) [] (others inp)"

definition loadOf :: "cpu_allocation_input \<Rightarrow> int \<Rightarrow> int" where
  "loadOf inp cpu = count_of (load_map inp) cpu"

definition core_load :: "cpu_allocation_input \<Rightarrow> ((int \<times> int) option \<times> int) list" where
  "core_load inp = foldl (\<lambda>m cpu. bump (core_of inp cpu) (loadOf inp cpu) m) []
     (allocatableCpus (topology inp) (reserved inp))"

record chosen_state =
  chosen :: "int list"
  per_core :: "((int \<times> int) option \<times> int) list"
  per_numa :: "(int \<times> int) list"

definition count_cpu :: "cpu_allocation_input \<Rightarrow> int \<Rightarrow> int \<Rightarrow> chosen_state \<Rightarrow> cpu_error + chosen_state" where
  "count_cpu inp cpu delta st =
     (case numa_of inp cpu of
        None \<Rightarrow> Inl TypeError
      | Some n \<Rightarrow> Inr (st\<lparr>per_core := bump (core_of inp cpu) delta (per_core st),
                          per_numa := bump n delta (per_numa st)\<rparr>))"

definition siblingsChosen :: "cpu_allocation_input \<Rightarrow> chosen_state \<Rightarrow> int \<Rightarrow> int" where
  "siblingsChosen inp st cpu =
     count_of (per_core st) (core_of inp cpu) - (if cpu \<in> set (chosen st) then 1 else 0)"

definition numaChosen :: "cpu_allocation_input \<Rightarrow> chosen_state \<Rightarrow> int \<Rightarrow> int" where
  "numaChosen inp st cpu = (case numa_of inp cpu of Some n \<Rightarrow> count_of (per_numa st) n | None \<Rightarrow> 0)"

definition compare :: "int \<Rightarrow> int \<Rightarrow> bool \<Rightarrow> bool option" where
  "compare left right descending =
     (if left = right then None else Some (if descending then left > right else left < right))"

text \<open>\<open>a ?? b\<close>.\<close>

definition if_tie :: "bool option \<Rightarrow> bool \<Rightarrow> bool" where
  "if_tie a b = (case a of Some x \<Rightarrow> x | None \<Rightarrow> b)"

definition dropBefore :: "cpu_allocation_input \<Rightarrow> chosen_state \<Rightarrow> int \<Rightarrow> int \<Rightarrow> bool" where
  "dropBefore inp st left right =
     if_tie (compare (loadOf inp left) (loadOf inp right) True)
       (if_tie (compare (siblingsChosen inp st left) (siblingsChosen inp st right) False)
          (left > right))"

definition addBefore :: "cpu_allocation_input \<Rightarrow> chosen_state \<Rightarrow> int \<Rightarrow> int \<Rightarrow> bool" where
  "addBefore inp st left right =
     if_tie (compare (loadOf inp left) (loadOf inp right) False)
       (if_tie (compare (siblingsChosen inp st left) (siblingsChosen inp st right) True)
          (if_tie (compare (count_of (core_load inp) (core_of inp left))
                     (count_of (core_load inp) (core_of inp right)) False)
             (if_tie (compare (numaChosen inp st left) (numaChosen inp st right) True)
                (left < right))))"

text \<open>The selection loop: the first CPU, then any that goes before the one held.\<close>

definition pick :: "(int \<Rightarrow> int \<Rightarrow> bool) \<Rightarrow> int list \<Rightarrow> int" where
  "pick before cpus = foldl (\<lambda>held cpu. if held < 0 \<or> before cpu held then cpu else held) (-1) cpus"

definition drop_round :: "cpu_allocation_input \<Rightarrow> chosen_state \<Rightarrow> cpu_error + chosen_state" where
  "drop_round inp st =
     (let victim = pick (dropBefore inp st) (chosen st)
      in count_cpu inp victim (-1) (st\<lparr>chosen := filter (\<lambda>c. c \<noteq> victim) (chosen st)\<rparr>))"

definition add_round :: "cpu_allocation_input \<Rightarrow> chosen_state \<Rightarrow> cpu_error + chosen_state" where
  "add_round inp st =
     (let best = pick (addBefore inp st)
            (filter (\<lambda>c. c \<notin> set (chosen st)) (allocatableCpus (topology inp) (reserved inp)))
      in count_cpu inp best 1
           (if best \<in> set (chosen st) then st else st\<lparr>chosen := chosen st @ [best]\<rparr>))"

fun drop_loop :: "nat \<Rightarrow> cpu_allocation_input \<Rightarrow> chosen_state \<Rightarrow> cpu_error + chosen_state" where
  "drop_loop fuel inp st =
     (if length (chosen st) > cores inp then
        (case fuel of 0 \<Rightarrow> Inl OutOfFuel | Suc n \<Rightarrow> bind_res (drop_round inp st) (drop_loop n inp))
      else Inr st)"

fun add_loop :: "nat \<Rightarrow> cpu_allocation_input \<Rightarrow> chosen_state \<Rightarrow> cpu_error + chosen_state" where
  "add_loop fuel inp st =
     (if length (chosen st) < cores inp then
        (case fuel of 0 \<Rightarrow> Inl OutOfFuel | Suc n \<Rightarrow> bind_res (add_round inp st) (add_loop n inp))
      else Inr st)"

declare drop_loop.simps [simp del] add_loop.simps [simp del]

fun count_all :: "cpu_allocation_input \<Rightarrow> int list \<Rightarrow> chosen_state \<Rightarrow> cpu_error + chosen_state" where
  "count_all inp [] st = Inr st"
| "count_all inp (c # cs) st = bind_res (count_cpu inp c 1 st) (count_all inp cs)"

definition initial_set :: "cpu_allocation_input \<Rightarrow> int list" where
  "initial_set inp = unique_first
     (filter (\<lambda>c. c \<in> set (allocatableCpus (topology inp) (reserved inp))) (current_set inp))"

definition allocateCpuSet :: "cpu_allocation_input \<Rightarrow> cpu_error + int list" where
  "allocateCpuSet inp =
     (let allocatable = allocatableCpus (topology inp) (reserved inp)
      in if cores inp \<ge> length allocatable then Inr allocatable
         else
           bind_res (count_all inp (initial_set inp)
                       \<lparr>chosen = initial_set inp, per_core = [], per_numa = []\<rparr>) (\<lambda>st.
           bind_res (drop_loop (length (current_set inp)) inp st) (\<lambda>st.
           bind_res (add_loop (cores inp) inp st) (\<lambda>st.
             Inr (sort (chosen st))))))"

definition cpuSetStillFits :: "int list \<Rightarrow> nat \<Rightarrow> cpu_entry list \<Rightarrow> int list \<Rightarrow> bool" where
  "cpuSetStillFits cpus n topo res =
     (let allocatable = allocatableCpus topo res
      in length cpus = min n (length allocatable) \<and> length (unique_first cpus) = length cpus
         \<and> list_all (\<lambda>c. c \<in> set allocatable) cpus)"


subsection \<open>Lemmas\<close>

text \<open>A topology Incus can report: each logical CPU once, with a number that is not negative.\<close>

definition topology_ok :: "cpu_entry list \<Rightarrow> bool" where
  "topology_ok topo \<longleftrightarrow> distinct (map cpu_id topo) \<and> (\<forall>e \<in> set topo. 0 \<le> cpu_id e)"

abbreviation allocatable :: "cpu_allocation_input \<Rightarrow> int list" where
  "allocatable inp \<equiv> allocatableCpus (topology inp) (reserved inp)"

lemma allocatable_facts:
  assumes "topology_ok topo"
  shows "distinct (allocatableCpus topo res)" "sorted (allocatableCpus topo res)"
    "\<And>c. c \<in> set (allocatableCpus topo res) \<Longrightarrow> 0 \<le> c"
    "\<And>c. c \<in> set (allocatableCpus topo res) \<longleftrightarrow> c \<in> cpu_id ` set topo \<and> c \<notin> set res"
  using assms by (auto simp: allocatableCpus_def topology_ok_def)

lemma numa_of_allocatable:
  assumes "c \<in> set (allocatable inp)"
  shows "\<exists>n. numa_of inp c = Some n"
proof -
  have "c \<in> fst ` set (rev (map (\<lambda>e. (cpu_id e, e)) (topology inp)))"
    using assms by (force simp: allocatableCpus_def)
  then have "by_id (topology inp) c \<noteq> None"
    unfolding by_id_def by (metis map_of_eq_None_iff)
  then show ?thesis by (auto simp: numa_of_def)
qed

lemma pick_held:
  assumes "\<forall>c \<in> set cs. 0 \<le> c" "0 \<le> held"
  shows "foldl (\<lambda>held cpu. if held < 0 \<or> before cpu held then cpu else held) held cs \<in> insert held (set cs)"
  using assms by (induction cs arbitrary: held) auto

lemma pick_in:
  assumes "cs \<noteq> []" "\<forall>c \<in> set cs. 0 \<le> c"
  shows "pick before cs \<in> set cs"
proof (cases cs)
  case (Cons c rest)
  then show ?thesis using pick_held [of rest c before] assms by (auto simp: pick_def)
qed (use assms in simp)

text \<open>A selection whose first criterion is a key holds a CPU with the least key.\<close>

definition key_first :: "(int \<Rightarrow> int \<Rightarrow> bool) \<Rightarrow> (int \<Rightarrow> int) \<Rightarrow> bool" where
  "key_first before key \<longleftrightarrow> (\<forall>l r. (before l r \<longrightarrow> key l \<le> key r) \<and> (\<not> before l r \<longrightarrow> key r \<le> key l))"

lemma pick_least_held:
  assumes "key_first before key" "\<forall>c \<in> set cs. 0 \<le> c" "0 \<le> held" "c \<in> insert held (set cs)"
  shows "key (foldl (\<lambda>held cpu. if held < 0 \<or> before cpu held then cpu else held) held cs) \<le> key c"
  using assms
proof (induction cs arbitrary: held c)
  case (Cons x cs)
  define h where "h = (if held < 0 \<or> before x held then x else held)"
  have h: "0 \<le> h" "key h \<le> key x" "key h \<le> key held"
    using Cons.prems by (auto simp: h_def key_first_def)
  have "key (foldl (\<lambda>held cpu. if held < 0 \<or> before cpu held then cpu else held) h cs) \<le> key d"
    if "d \<in> insert h (set cs)" for d
    using Cons.IH [OF Cons.prems(1) _ h(1) that] Cons.prems(2) by simp
  then show ?case using Cons.prems(4) h by (fastforce simp: h_def [symmetric])
qed simp

lemma pick_least:
  assumes "key_first before key" "\<forall>c \<in> set cs. 0 \<le> c" "c \<in> set cs"
  shows "key (pick before cs) \<le> key c"
proof (cases cs)
  case (Cons x rest)
  then show ?thesis using pick_least_held [OF assms(1), of rest x c] assms(2,3) by (simp add: pick_def)
qed (use assms in simp)

lemma add_key_first: "key_first (addBefore inp st) (loadOf inp)"
  by (auto simp: key_first_def addBefore_def compare_def if_tie_def)

lemma drop_key_first: "key_first (dropBefore inp st) (\<lambda>c. - loadOf inp c)"
  by (auto simp: key_first_def dropBefore_def compare_def if_tie_def)

lemma count_cpu_chosen: "count_cpu inp c d st = Inr st' \<Longrightarrow> chosen st' = chosen st"
  by (auto simp: count_cpu_def split: option.splits)

lemma count_cpu_total: "c \<in> set (allocatable inp) \<Longrightarrow> \<exists>st'. count_cpu inp c d st = Inr st' \<and> chosen st' = chosen st"
  using numa_of_allocatable [of c inp] by (auto simp: count_cpu_def)

lemma count_all_total:
  "set cs \<subseteq> set (allocatable inp) \<Longrightarrow> \<exists>st'. count_all inp cs st = Inr st' \<and> chosen st' = chosen st"
proof (induction cs arbitrary: st)
  case (Cons c cs)
  obtain st1 where st1: "count_cpu inp c 1 st = Inr st1" "chosen st1 = chosen st"
    using count_cpu_total [of c inp 1 st] Cons.prems by auto
  show ?case using Cons.IH [of st1] Cons.prems st1 by auto
qed simp

text \<open>The sets the loops work on.\<close>

definition chosen_ok :: "cpu_allocation_input \<Rightarrow> chosen_state \<Rightarrow> bool" where
  "chosen_ok inp st \<longleftrightarrow> topology_ok (topology inp) \<and> distinct (chosen st)
     \<and> set (chosen st) \<subseteq> set (allocatable inp)"

lemma length_filter_neq: "distinct xs \<Longrightarrow> v \<in> set xs \<Longrightarrow> length (filter (\<lambda>c. c \<noteq> v) xs) = length xs - 1"
proof (induction xs)
  case (Cons x xs)
  show ?case
  proof (cases "x = v")
    case True
    with Cons.prems have "filter (\<lambda>c. c \<noteq> v) xs = xs" by (auto simp: filter_id_conv)
    with True show ?thesis by simp
  next
    case False
    with Cons have "length (filter (\<lambda>c. c \<noteq> v) xs) = length xs - 1" "xs \<noteq> []" by auto
    with False show ?thesis by (cases xs) simp_all
  qed
qed simp

lemma drop_round_step:
  assumes "chosen_ok inp st" "chosen st \<noteq> []"
  obtains st' victim where "drop_round inp st = Inr st'" "chosen_ok inp st'" "victim \<in> set (chosen st)"
    "set (chosen st') = set (chosen st) - {victim}" "length (chosen st') = length (chosen st) - 1"
    "\<forall>c \<in> set (chosen st). loadOf inp c \<le> loadOf inp victim"
proof -
  have nonneg: "\<forall>c \<in> set (chosen st). 0 \<le> c"
    using assms(1) allocatable_facts(3) by (auto simp: chosen_ok_def)
  define victim where "victim = pick (dropBefore inp st) (chosen st)"
  have v: "victim \<in> set (chosen st)" unfolding victim_def by (rule pick_in [OF assms(2) nonneg])
  obtain st' where st': "count_cpu inp victim (-1) (st\<lparr>chosen := filter (\<lambda>c. c \<noteq> victim) (chosen st)\<rparr>) = Inr st'"
      "chosen st' = filter (\<lambda>c. c \<noteq> victim) (chosen st)"
    using count_cpu_total [of victim inp "-1"] v assms(1) by (fastforce simp: chosen_ok_def)
  have "\<forall>c \<in> set (chosen st). loadOf inp c \<le> loadOf inp victim"
    using pick_least [OF drop_key_first nonneg] by (fastforce simp: victim_def)
  then show thesis using that [of st' victim] st' v assms(1)
    by (auto simp: drop_round_def victim_def [symmetric] chosen_ok_def Let_def length_filter_neq)
qed

lemma drop_loop_result:
  assumes "chosen_ok inp st" "length (chosen st) \<le> cores inp + fuel"
  shows "\<exists>st'. drop_loop fuel inp st = Inr st' \<and> chosen_ok inp st' \<and> set (chosen st') \<subseteq> set (chosen st)
    \<and> length (chosen st') = min (length (chosen st)) (cores inp)
    \<and> (\<forall>c \<in> set (chosen st) - set (chosen st'). \<forall>k \<in> set (chosen st'). loadOf inp k \<le> loadOf inp c)"
  using assms
proof (induction fuel arbitrary: st)
  case 0
  then show ?case by (auto simp: drop_loop.simps)
next
  case (Suc n)
  show ?case
  proof (cases "length (chosen st) > cores inp")
    case True
    obtain st' victim where r: "drop_round inp st = Inr st'" "chosen_ok inp st'" "victim \<in> set (chosen st)"
        "set (chosen st') = set (chosen st) - {victim}" "length (chosen st') = length (chosen st) - 1"
        "\<forall>c \<in> set (chosen st). loadOf inp c \<le> loadOf inp victim"
      by (rule drop_round_step [OF Suc.prems(1)]) (use True in auto)
    have len: "length (chosen st') \<le> cores inp + n" using r(5) Suc.prems(2) by simp
    obtain st'' where l: "drop_loop n inp st' = Inr st''" "chosen_ok inp st''" "set (chosen st'') \<subseteq> set (chosen st')"
        "length (chosen st'') = min (length (chosen st')) (cores inp)"
        "\<forall>c \<in> set (chosen st') - set (chosen st''). \<forall>k \<in> set (chosen st''). loadOf inp k \<le> loadOf inp c"
      using Suc.IH [OF r(2) len] by blast
    have "drop_loop (Suc n) inp st = Inr st''" using True r(1) l(1) by (simp add: drop_loop.simps [of "Suc n"])
    moreover have "length (chosen st'') = min (length (chosen st)) (cores inp)" using True l(4) r(5) by simp
    moreover have "loadOf inp k \<le> loadOf inp c"
      if "c \<in> set (chosen st) - set (chosen st'')" "k \<in> set (chosen st'')" for c k
      using that l(3,5) r(4,6) by (cases "c = victim") auto
    ultimately show ?thesis using l r by blast
  qed (use Suc.prems in \<open>auto simp: drop_loop.simps [of "Suc n"]\<close>)
qed

lemma add_round_step:
  assumes "chosen_ok inp st" "length (chosen st) < length (allocatable inp)"
  obtains st' best where "add_round inp st = Inr st'" "chosen_ok inp st'"
    "best \<in> set (allocatable inp) - set (chosen st)"
    "set (chosen st') = insert best (set (chosen st))" "length (chosen st') = length (chosen st) + 1"
    "\<forall>c \<in> set (allocatable inp) - set (chosen st). loadOf inp best \<le> loadOf inp c"
proof -
  have top: "topology_ok (topology inp)" using assms(1) by (simp add: chosen_ok_def)
  define free where "free = filter (\<lambda>c. c \<notin> set (chosen st)) (allocatable inp)"
  have "card (set (chosen st)) < card (set (allocatable inp))"
    using assms allocatable_facts(1) [OF top] by (simp add: chosen_ok_def distinct_card)
  then have "set (allocatable inp) - set (chosen st) \<noteq> {}" by (metis Diff_eq_empty_iff List.finite_set card_mono leD)
  then have ne: "free \<noteq> []" by (auto simp: free_def filter_empty_conv)
  have nonneg: "\<forall>c \<in> set free. 0 \<le> c" using allocatable_facts(3) [OF top] by (auto simp: free_def)
  define best where "best = pick (addBefore inp st) free"
  have b: "best \<in> set (allocatable inp) - set (chosen st)"
    using pick_in [OF ne nonneg, of "addBefore inp st"] by (auto simp: best_def free_def)
  obtain st' where st': "count_cpu inp best 1 (st\<lparr>chosen := chosen st @ [best]\<rparr>) = Inr st'"
      "chosen st' = chosen st @ [best]"
    using count_cpu_total [of best inp 1] b by fastforce
  have "add_round inp st = Inr st'" using st'(1) b by (simp add: add_round_def best_def free_def)
  moreover have "\<forall>c \<in> set (allocatable inp) - set (chosen st). loadOf inp best \<le> loadOf inp c"
    using pick_least [OF add_key_first nonneg] by (fastforce simp: best_def free_def)
  ultimately show thesis using that [of st' best] st' b assms(1) by (auto simp: chosen_ok_def)
qed

lemma add_loop_result:
  assumes "chosen_ok inp st" "cores inp \<le> length (chosen st) + fuel" "cores inp < length (allocatable inp)"
  shows "\<exists>st'. add_loop fuel inp st = Inr st' \<and> chosen_ok inp st' \<and> set (chosen st) \<subseteq> set (chosen st')
    \<and> length (chosen st') = max (length (chosen st)) (cores inp)
    \<and> (\<forall>c \<in> set (chosen st') - set (chosen st). \<forall>f \<in> set (allocatable inp) - set (chosen st').
         loadOf inp c \<le> loadOf inp f)"
  using assms(1,2)
proof (induction fuel arbitrary: st)
  case 0
  then show ?case by (auto simp: add_loop.simps)
next
  case (Suc n)
  show ?case
  proof (cases "length (chosen st) < cores inp")
    case True
    obtain st' best where r: "add_round inp st = Inr st'" "chosen_ok inp st'"
        "best \<in> set (allocatable inp) - set (chosen st)"
        "set (chosen st') = insert best (set (chosen st))" "length (chosen st') = length (chosen st) + 1"
        "\<forall>c \<in> set (allocatable inp) - set (chosen st). loadOf inp best \<le> loadOf inp c"
      by (rule add_round_step [OF Suc.prems(1)]) (use True assms(3) in auto)
    have len: "cores inp \<le> length (chosen st') + n" using r(5) Suc.prems(2) by simp
    obtain st'' where l: "add_loop n inp st' = Inr st''" "chosen_ok inp st''" "set (chosen st') \<subseteq> set (chosen st'')"
        "length (chosen st'') = max (length (chosen st')) (cores inp)"
        "\<forall>c \<in> set (chosen st'') - set (chosen st'). \<forall>f \<in> set (allocatable inp) - set (chosen st'').
           loadOf inp c \<le> loadOf inp f"
      using Suc.IH [OF r(2) len] by blast
    have "add_loop (Suc n) inp st = Inr st''" using True r(1) l(1) by (simp add: add_loop.simps [of "Suc n"])
    moreover have "length (chosen st'') = max (length (chosen st)) (cores inp)" using True l(4) r(5) by simp
    moreover have "loadOf inp c \<le> loadOf inp f"
      if "c \<in> set (chosen st'') - set (chosen st)" "f \<in> set (allocatable inp) - set (chosen st'')" for c f
      using that l(3,5) r(4,6) by (cases "c = best") auto
    ultimately show ?thesis using l r by blast
  qed (use Suc.prems in \<open>auto simp: add_loop.simps [of "Suc n"]\<close>)
qed

text \<open>The load the selection uses is the number of other users' sets a CPU appears in, with repetitions.\<close>

lemma count_of_bump: "count_of (bump k d m) k' = count_of m k' + (if k' = k then d else 0)"
  by (simp add: count_of_def bump_def)

lemma count_of_bumps: "count_of (foldl (\<lambda>m cpu. bump cpu 1 m) m cs) k = count_of m k + int (count_list cs k)"
  by (induction cs arbitrary: m) (simp_all add: count_of_bump)

lemma loadOf_eq: "loadOf inp cpu = (\<Sum>cs \<leftarrow> others inp. int (count_list cs cpu))"
proof -
  have "count_of (foldl (\<lambda>m set. foldl (\<lambda>m cpu. bump cpu 1 m) m set) m sets) cpu
      = count_of m cpu + (\<Sum>cs \<leftarrow> sets. int (count_list cs cpu))" for m and sets :: "int list list"
    by (induction sets arbitrary: m) (simp_all add: count_of_bumps)
  from this [of "[]" "others inp"] show ?thesis by (simp add: loadOf_def load_map_def count_of_def)
qed

text \<open>The kept part of the current set, and what the whole allocation returns.\<close>

definition kept_cpus :: "cpu_allocation_input \<Rightarrow> int set" where
  "kept_cpus inp = set (current_set inp) \<inter> set (allocatable inp)"

lemma initial_set_facts: "set (initial_set inp) = kept_cpus inp" "distinct (initial_set inp)"
    "length (initial_set inp) \<le> length (current_set inp)"
proof -
  show "set (initial_set inp) = kept_cpus inp" by (auto simp: initial_set_def kept_cpus_def)
  show "distinct (initial_set inp)" by (simp add: initial_set_def)
  have "length (initial_set inp) \<le> length (filter (\<lambda>c. c \<in> set (allocatable inp)) (current_set inp))"
    unfolding initial_set_def length_unique_first by (rule card_length)
  then show "length (initial_set inp) \<le> length (current_set inp)"
    using length_filter_le order_trans by blast
qed

lemma allocation_result:
  assumes "topology_ok (topology inp)" "cores inp < length (allocatable inp)"
  obtains S where "allocateCpuSet inp = Inr S" "distinct S" "sorted S" "set S \<subseteq> set (allocatable inp)"
    "length S = cores inp"
    "card (kept_cpus inp) \<le> cores inp \<Longrightarrow> kept_cpus inp \<subseteq> set S"
    "cores inp \<le> card (kept_cpus inp) \<Longrightarrow> set S \<subseteq> kept_cpus inp"
    "\<forall>c \<in> set S - kept_cpus inp. \<forall>f \<in> set (allocatable inp) - set S. loadOf inp c \<le> loadOf inp f"
    "\<forall>c \<in> kept_cpus inp - set S. \<forall>k \<in> set S. loadOf inp k \<le> loadOf inp c"
proof -
  define st0 where "st0 = \<lparr>chosen = initial_set inp, per_core = [], per_numa = []\<rparr>"
  have init: "set (initial_set inp) \<subseteq> set (allocatable inp)" using initial_set_facts(1) by (auto simp: kept_cpus_def)
  obtain st1 where s1: "count_all inp (initial_set inp) st0 = Inr st1" "chosen st1 = initial_set inp"
    using count_all_total [OF init, of st0] by (auto simp: st0_def)
  have ok1: "chosen_ok inp st1" using assms(1) init initial_set_facts(2) by (simp add: chosen_ok_def s1(2))
  obtain st2 where s2: "drop_loop (length (current_set inp)) inp st1 = Inr st2" "chosen_ok inp st2"
      "set (chosen st2) \<subseteq> kept_cpus inp" "length (chosen st2) = min (length (initial_set inp)) (cores inp)"
      "\<forall>c \<in> kept_cpus inp - set (chosen st2). \<forall>k \<in> set (chosen st2). loadOf inp k \<le> loadOf inp c"
    using drop_loop_result [OF ok1, of "length (current_set inp)"] trans_le_add2 [OF initial_set_facts(3), of inp "cores inp"]
    unfolding s1(2) initial_set_facts(1) by blast
  obtain st3 where s3: "add_loop (cores inp) inp st2 = Inr st3" "chosen_ok inp st3"
      "set (chosen st2) \<subseteq> set (chosen st3)" "length (chosen st3) = max (length (chosen st2)) (cores inp)"
      "\<forall>c \<in> set (chosen st3) - set (chosen st2). \<forall>f \<in> set (allocatable inp) - set (chosen st3).
         loadOf inp c \<le> loadOf inp f"
    using add_loop_result [OF s2(2) trans_le_add2 [OF order_refl] assms(2)] by blast
  have card: "card (kept_cpus inp) = length (initial_set inp)"
    using initial_set_facts(1,2) distinct_card by metis
  have len: "length (chosen st3) = cores inp" using s3(4) s2(4) by simp
  have d2: "distinct (chosen st2)" and d3: "distinct (chosen st3)" using s2(2) s3(2) by (simp_all add: chosen_ok_def)
  have all_kept: "set (chosen st2) = kept_cpus inp" if "card (kept_cpus inp) \<le> cores inp"
    by (rule card_subset_eq) (use s2(3,4) that card d2 in \<open>auto simp: kept_cpus_def distinct_card\<close>)
  have only_kept: "set (chosen st3) = set (chosen st2)" if "cores inp \<le> card (kept_cpus inp)"
    by (rule card_subset_eq [symmetric])
       (use s3(3) s2(4) that card d2 d3 len in \<open>auto simp: distinct_card\<close>)
  have result: "allocateCpuSet inp = Inr (sort (chosen st3))"
    using assms(2) s1(1) s2(1) s3(1) by (simp add: allocateCpuSet_def st0_def)
  have dropped: "loadOf inp k \<le> loadOf inp c" if "c \<in> kept_cpus inp - set (chosen st3)" "k \<in> set (chosen st3)" for c k
  proof (cases "cores inp \<le> card (kept_cpus inp)")
    case True
    then show ?thesis using only_kept s2(5) that by auto
  next
    case False
    then show ?thesis using all_kept s3(3) that by auto
  qed
  have added: "loadOf inp c \<le> loadOf inp f"
    if "c \<in> set (chosen st3) - kept_cpus inp" "f \<in> set (allocatable inp) - set (chosen st3)" for c f
    using s3(5) s2(3) that by blast
  show thesis
    by (rule that [OF result])
       (use s3(2) len d3 all_kept only_kept s3(3) s2(3) dropped added in \<open>auto simp: chosen_ok_def\<close>)
qed


subsection \<open>The text of a CPU set\<close>

definition range_text :: "int \<times> int \<Rightarrow> string" where
  "range_text r = show_nat (nat (fst r)) @ ''-'' @ show_nat (nat (snd r))"

definition range_round :: "string list \<times> int \<times> int \<Rightarrow> int \<Rightarrow> string list \<times> int \<times> int" where
  "range_round st cpu =
     (case st of (ranges, start, previous) \<Rightarrow>
        if cpu = previous + 1 then (ranges, start, cpu)
        else (ranges @ [range_text (start, previous)], cpu, cpu))"

definition formatCpuSet :: "int list \<Rightarrow> string option" where
  "formatCpuSet cpus =
     (case sort (unique_first cpus) of
        [] \<Rightarrow> None
      | first # rest \<Rightarrow>
          if list_ex (\<lambda>c. c > max_safe_integer \<or> c < 0) (first # rest) then None
          else (case foldl range_round ([], first, first) rest of
            (ranges, start, previous) \<Rightarrow> Some (join_str '','' (ranges @ [range_text (start, previous)]))))"

text \<open>The CPUs a set text of Incus denotes.\<close>

definition item_members :: "string \<Rightarrow> int set" where
  "item_members item = (case split_char (CHR ''-'') item of
     [a] \<Rightarrow> {int (digits_val a)}
   | [a, b] \<Rightarrow> {int (digits_val a)..int (digits_val b)}
   | _ \<Rightarrow> {})"

definition cpuset_members :: "string \<Rightarrow> int set" where
  "cpuset_members t = \<Union> (item_members ` set (split_char (CHR '','') t))"

lemma range_loop:
  assumes "foldl range_round (ranges, s, p) cs = (ranges', s', p')"
    and "sorted_wrt (<) (p # cs)" "0 \<le> s" "s \<le> p"
  shows "\<exists>rs. ranges' = ranges @ map range_text rs \<and> 0 \<le> s' \<and> s' \<le> p' \<and> (\<forall>r \<in> set rs. 0 \<le> fst r \<and> fst r \<le> snd r)
    \<and> (\<Union>r \<in> set rs. {fst r..snd r}) \<union> {s'..p'} = {s..p} \<union> set cs"
  using assms
proof (induction cs arbitrary: ranges s p)
  case (Cons c cs)
  show ?case
  proof (cases "c = p + 1")
    case True
    then have "range_round (ranges, s, p) c = (ranges, s, c)" by (simp add: range_round_def)
    with Cons.prems(1) have "foldl range_round (ranges, s, c) cs = (ranges', s', p')" by simp
    from Cons.IH [OF this] Cons.prems True obtain rs where rs: "ranges' = ranges @ map range_text rs"
        "0 \<le> s'" "s' \<le> p'" "\<forall>r \<in> set rs. 0 \<le> fst r \<and> fst r \<le> snd r"
        "(\<Union>r \<in> set rs. {fst r..snd r}) \<union> {s'..p'} = {s..c} \<union> set cs" by auto
    have "{s..c} \<union> set cs = {s..p} \<union> set (c # cs)" using True Cons.prems(4) by auto
    with rs show ?thesis by (intro exI [of _ rs]) simp
  next
    case False
    then have "range_round (ranges, s, p) c = (ranges @ [range_text (s, p)], c, c)" by (simp add: range_round_def)
    with Cons.prems(1) have "foldl range_round (ranges @ [range_text (s, p)], c, c) cs = (ranges', s', p')" by simp
    from Cons.IH [OF this] Cons.prems obtain rs where rs: "ranges' = (ranges @ [range_text (s, p)]) @ map range_text rs"
        "0 \<le> s'" "s' \<le> p'" "\<forall>r \<in> set rs. 0 \<le> fst r \<and> fst r \<le> snd r"
        "(\<Union>r \<in> set rs. {fst r..snd r}) \<union> {s'..p'} = {c..c} \<union> set cs" by auto
    then show ?thesis using Cons.prems(3,4) by (intro exI [of _ "(s, p) # rs"]) auto
  qed
qed auto

lemma range_text_split:
  assumes "0 \<le> fst r" "0 \<le> snd r"
  shows "split_char (CHR ''-'') (range_text r) = [show_nat (nat (fst r)), show_nat (nat (snd r))]"
    "CHR '','' \<notin> set (range_text r)" "is_cpu_range (range_text r)" "item_members (range_text r) = {fst r..snd r}"
proof -
  have no: "CHR ''-'' \<notin> set (show_nat n)" "CHR '','' \<notin> set (show_nat n)" for n
    using show_nat_digits [of n] by (auto simp: list_all_iff is_digit_def)
  show split: "split_char (CHR ''-'') (range_text r) = [show_nat (nat (fst r)), show_nat (nat (snd r))]"
    by (simp add: range_text_def split_char_append no split_char_id)
  show "CHR '','' \<notin> set (range_text r)" by (simp add: range_text_def no)
  show "is_cpu_range (range_text r)"
    by (simp add: is_cpu_range_def split all_digits_def show_nat_digits show_nat_nonempty list_all_iff)
  show "item_members (range_text r) = {fst r..snd r}"
    using assms by (simp add: item_members_def split digits_val_show_nat)
qed

lemma formatCpuSet_total:
  assumes "cpus \<noteq> []" "\<forall>c \<in> set cpus. 0 \<le> c \<and> c \<le> max_safe_integer"
  obtains t where "formatCpuSet cpus = Some t" "CPUSET_PATTERN t" "cpuset_members t = set cpus"
proof -
  define xs where "xs = sort (unique_first cpus)"
  have xs: "set xs = set cpus" "distinct xs" "sorted xs" by (simp_all add: xs_def)
  obtain f rest where fr: "xs = f # rest" using xs(1) assms(1) by (cases xs) auto
  have strict: "sorted_wrt (<) (f # rest)" using xs(2,3) unfolding fr strict_sorted_iff by simp
  obtain ranges s p where loop: "foldl range_round ([], f, f) rest = (ranges, s, p)" by (metis prod_cases3)
  have f: "0 \<le> f" using assms(2) xs(1) fr by auto
  obtain rs where rs: "ranges = map range_text rs" "0 \<le> s" "s \<le> p" "\<forall>r \<in> set rs. 0 \<le> fst r \<and> fst r \<le> snd r"
      "(\<Union>r \<in> set rs. {fst r..snd r}) \<union> {s..p} = {f..f} \<union> set rest"
    using range_loop [OF loop strict f order_refl] by auto
  define t where "t = join_str '','' (map range_text (rs @ [(s, p)]))"
  have items: "\<forall>r \<in> set (rs @ [(s, p)]). 0 \<le> fst r \<and> 0 \<le> snd r"
    using rs(2-4) by (auto dest: order_trans)
  have split: "split_char (CHR '','') t = map range_text (rs @ [(s, p)])"
    unfolding t_def by (rule split_join) (use items range_text_split(2) in auto)
  have "formatCpuSet cpus = Some t"
    using assms(2) xs(1) loop fr
    by (auto simp: formatCpuSet_def xs_def [symmetric] t_def rs(1) list_ex_iff not_less)
  moreover have "CPUSET_PATTERN t"
    using items range_text_split(3) by (auto simp: CPUSET_PATTERN_def split list_all_iff)
  moreover have "cpuset_members t = (\<Union>r \<in> set (rs @ [(s, p)]). {fst r..snd r})"
    unfolding cpuset_members_def split set_map image_image
    by (rule SUP_cong) (use items range_text_split(4) in auto)
  then have "cpuset_members t = set cpus" using rs(5) xs(1) fr by auto
  ultimately show thesis using that by blast
qed


subsection \<open>The sets of users\<close>

text \<open>The tables the service reads and the one it owns, \<open>control.user_cpu_sets\<close>.\<close>

record cpu_db =
  server_rows :: "string \<Rightarrow> (cpu_entry list \<times> int list) option"
  access_rows :: "string \<Rightarrow> string \<Rightarrow> nat option option"
  user_cpu_sets :: "((string \<times> string) \<times> int list) list"
  container_rows :: "(string \<times> string) list"

datatype plan_write = NoWrite | Upsert | Delete

datatype cpu_service_error =
    CpuTopologyUnknown string
  | NoUnreservedCpus string
  | AllocationError cpu_error

definition other_sets :: "cpu_db \<Rightarrow> string \<Rightarrow> string \<Rightarrow> int list list" where
  "other_sets db serverId ownerId =
     map snd (filter (\<lambda>((s, u), _). s = serverId \<and> u \<noteq> ownerId \<and> (u, s) \<in> set (container_rows db))
       (user_cpu_sets db))"

definition plan_limited ::
    "cpu_db \<Rightarrow> string \<Rightarrow> string \<Rightarrow> cpu_entry list \<Rightarrow> int list \<Rightarrow> nat \<Rightarrow> int list option
      \<Rightarrow> cpu_service_error + int list \<times> plan_write" where
  "plan_limited db serverId ownerId topo res n existing =
     (if (case existing of None \<Rightarrow> False | Some cpus \<Rightarrow> cpuSetStillFits cpus n topo res)
      then Inr (sort (the existing), NoWrite)
      else case allocateCpuSet \<lparr>topology = topo, reserved = res, cores = n,
                 current_set = (case existing of None \<Rightarrow> [] | Some cpus \<Rightarrow> cpus),
                 others = other_sets db serverId ownerId\<rparr> of
        Inl e \<Rightarrow> Inl (AllocationError e)
      | Inr cpus \<Rightarrow> Inr (cpus, Upsert))"

definition plan_cpus :: "cpu_db \<Rightarrow> string \<Rightarrow> string \<Rightarrow> cpu_service_error + int list \<times> plan_write" where
  "plan_cpus db serverId ownerId =
     (let (topo, res) = (case server_rows db serverId of Some r \<Rightarrow> r | None \<Rightarrow> ([], []));
          free = allocatableCpus topo res
      in if free = [] then
           Inl (if topo = [] then CpuTopologyUnknown serverId else NoUnreservedCpus serverId)
         else
           (let grant = access_rows db ownerId serverId;
                existing = map_of (user_cpu_sets db) (serverId, ownerId)
            in case (grant, existing) of
                 (Some None, None) \<Rightarrow> Inr (free, NoWrite)
               | (Some None, Some _) \<Rightarrow> Inr (free, Delete)
               | (None, None) \<Rightarrow> Inr (free, NoWrite)
               | (Some (Some n), _) \<Rightarrow> plan_limited db serverId ownerId topo res n existing
               | (None, Some cpus) \<Rightarrow> plan_limited db serverId ownerId topo res (length cpus) existing))"

definition apply_plan :: "string \<Rightarrow> string \<Rightarrow> int list \<times> plan_write \<Rightarrow> cpu_db \<Rightarrow> cpu_db" where
  "apply_plan serverId ownerId p db =
     (case snd p of
        Delete \<Rightarrow> db\<lparr>user_cpu_sets := AList.delete (serverId, ownerId) (user_cpu_sets db)\<rparr>
      | Upsert \<Rightarrow> db\<lparr>user_cpu_sets := AList.update (serverId, ownerId) (fst p) (user_cpu_sets db)\<rparr>
      | NoWrite \<Rightarrow> db)"

definition resolve :: "string \<Rightarrow> string \<Rightarrow> cpu_db \<Rightarrow> cpu_service_error + int list \<times> cpu_db" where
  "resolve serverId ownerId db =
     bind_res (plan_cpus db serverId ownerId) (\<lambda>p. Inr (fst p, apply_plan serverId ownerId p db))"

definition preview :: "string \<Rightarrow> string \<Rightarrow> cpu_db \<Rightarrow> cpu_service_error + int list" where
  "preview serverId ownerId db = bind_res (plan_cpus db serverId ownerId) (\<lambda>p. Inr (fst p))"

definition releaseIdle :: "string \<Rightarrow> cpu_db \<Rightarrow> cpu_db" where
  "releaseIdle serverId db = db\<lparr>user_cpu_sets :=
     filter (\<lambda>((s, u), _). \<not> (s = serverId \<and> (u, s) \<notin> set (container_rows db))) (user_cpu_sets db)\<rparr>"


subsection \<open>Properties\<close>

lemma fits_iff:
  "cpuSetStillFits S n topo res \<longleftrightarrow> length S = min n (length (allocatableCpus topo res)) \<and> distinct S
     \<and> set S \<subseteq> set (allocatableCpus topo res)"
proof -
  have "length (unique_first S) = length S \<longleftrightarrow> distinct S"
    using length_unique_first [of S] card_distinct [of S] distinct_card [of S] by auto
  then show ?thesis by (auto simp: cpuSetStillFits_def Let_def list_all_iff)
qed

lemma allocation_fits:
  assumes "topology_ok (topology inp)"
  shows "\<exists>S. allocateCpuSet inp = Inr S \<and> sorted S
    \<and> cpuSetStillFits S (cores inp) (topology inp) (reserved inp)"
proof (cases "cores inp < length (allocatable inp)")
  case True
  then show ?thesis by (rule allocation_result [OF assms]) (use True in \<open>auto simp: fits_iff\<close>)
next
  case False
  then show ?thesis
    using allocatable_facts [OF assms] by (auto simp: allocateCpuSet_def fits_iff)
qed

text \<open>C38. Allocation always returns a set that fits: on any topology Incus can report, the loops end, the
  result has exactly as many CPUs as the grant allows and the server can give, all unreserved and
  without repetition; and the user keeps their CPUs as far as the grant goes.\<close>

theorem allocation_valid:
  assumes "topology_ok (topology inp)"
  shows "\<exists>S. allocateCpuSet inp = Inr S \<and> sorted S
    \<and> cpuSetStillFits S (cores inp) (topology inp) (reserved inp)
    \<and> (card (kept_cpus inp) \<le> cores inp \<longrightarrow> kept_cpus inp \<subseteq> set S)
    \<and> (cores inp \<le> card (kept_cpus inp) \<longrightarrow> set S \<subseteq> kept_cpus inp)"
proof (cases "cores inp < length (allocatable inp)")
  case True
  then show ?thesis by (rule allocation_result [OF assms]) (use True in \<open>auto simp: fits_iff\<close>)
next
  case False
  note alloc = allocatable_facts [OF assms]
  have sub: "kept_cpus inp \<subseteq> set (allocatable inp)" by (simp add: kept_cpus_def)
  then have "card (kept_cpus inp) \<le> length (allocatable inp)"
    using card_mono [OF _ sub] alloc(1) by (simp add: distinct_card)
  then have "kept_cpus inp = set (allocatable inp)" if "cores inp \<le> card (kept_cpus inp)"
    by (intro card_subset_eq [OF _ sub]) (use False that alloc(1) in \<open>simp_all add: distinct_card\<close>)
  with False alloc(1,2) sub show ?thesis by (auto simp: allocateCpuSet_def fits_iff)
qed

text \<open>Sets overlap only as far as they must: a CPU given to the user anew is in no more sets of other
  users than any unreserved CPU left out, so a shared one is given only when no free one is left.\<close>

theorem allocation_least_shared:
  assumes "topology_ok (topology inp)" "allocateCpuSet inp = Inr S"
    and "c \<in> set S" "c \<notin> set (current_set inp)" "f \<in> set (allocatable inp)" "f \<notin> set S"
  shows "(\<Sum>cs \<leftarrow> others inp. int (count_list cs c)) \<le> (\<Sum>cs \<leftarrow> others inp. int (count_list cs f))"
proof (cases "cores inp < length (allocatable inp)")
  case True
  have "loadOf inp c \<le> loadOf inp f"
    by (rule allocation_result [OF assms(1) True]) (use assms in \<open>auto simp: kept_cpus_def\<close>)
  then show ?thesis by (simp add: loadOf_eq)
next
  case False
  then show ?thesis using assms by (simp add: allocateCpuSet_def)
qed

text \<open>A set that still fits is never moved.\<close>

theorem allocation_stable:
  assumes "topology_ok (topology inp)"
    and "cpuSetStillFits (current_set inp) (cores inp) (topology inp) (reserved inp)"
  shows "allocateCpuSet inp = Inr (sort (current_set inp))"
proof -
  have fits: "length (current_set inp) = min (cores inp) (length (allocatable inp))"
      "distinct (current_set inp)" "set (current_set inp) \<subseteq> set (allocatable inp)"
    using assms(2) by (simp_all add: fits_iff)
  have "\<exists>S. allocateCpuSet inp = Inr S \<and> sorted S \<and> distinct S \<and> length S = length (current_set inp)
      \<and> set (current_set inp) \<subseteq> set S"
  proof (cases "cores inp < length (allocatable inp)")
    case True
    have kept: "kept_cpus inp = set (current_set inp)" using fits(3) by (auto simp: kept_cpus_def)
    have len: "length (current_set inp) = cores inp" using fits(1) True by simp
    then have c: "card (kept_cpus inp) \<le> cores inp" using fits(2) by (simp add: kept distinct_card)
    show ?thesis by (rule allocation_result [OF assms(1) True]) (metis c kept len)
  next
    case False
    then show ?thesis
      using fits(1,3) allocatable_facts(1,2) [OF assms(1)] by (simp add: allocateCpuSet_def)
  qed
  then obtain S where S: "allocateCpuSet inp = Inr S" "sorted S" "distinct S" "length S = length (current_set inp)"
      "set (current_set inp) \<subseteq> set S" by blast
  have "set (current_set inp) = set S"
    by (rule card_subset_eq) (use S fits in \<open>auto simp: distinct_card\<close>)
  then have "sort (current_set inp) = S"
    by (metis S(2,3) fits(2) distinct_sort set_sort sorted_distinct_set_unique sorted_sort)
  with S(1) show ?thesis by simp
qed

text \<open>The text of a CPU set denotes exactly the set, and it is one the agent accepts as
  \<open>limits.cpu\<close>: a single CPU is written as a range, never as a number of CPUs.\<close>

theorem cpu_text_accepted:
  assumes "cpus \<noteq> []" "\<forall>c \<in> set cpus. 0 \<le> c \<and> c \<le> max_safe_integer"
  shows "\<exists>t. formatCpuSet cpus = Some t \<and> cpuset_members t = set cpus \<and> checkConfigEntry ''limits.cpu'' t = ALLOW"
proof -
  obtain t where t: "formatCpuSet cpus = Some t" "CPUSET_PATTERN t" "cpuset_members t = set cpus"
    by (rule formatCpuSet_total [OF assms])
  have "checkConfigEntry ''limits.cpu'' t = ALLOW" using t(2) by (simp add: checkConfigEntry_def)
  with t show ?thesis by blast
qed

lemma limited_plan:
  assumes "topology_ok topo" "allocatableCpus topo res \<noteq> []"
  obtains S w where "plan_limited db s u topo res n existing = Inr (S, w)" "cpuSetStillFits S n topo res"
    "sorted S" "w = NoWrite \<Longrightarrow> (\<exists>e. existing = Some e \<and> set e = set S \<and> S = sort e \<and> cpuSetStillFits e n topo res)"
    "w \<noteq> Delete"
proof (cases "\<exists>cpus. existing = Some cpus \<and> cpuSetStillFits cpus n topo res")
  case True
  then obtain cpus where "existing = Some cpus" "cpuSetStillFits cpus n topo res" by blast
  then show thesis by (intro that [of "sort cpus" NoWrite]) (auto simp: plan_limited_def fits_iff)
next
  case False
  define inp where "inp = \<lparr>topology = topo, reserved = res, cores = n,
    current_set = (case existing of None \<Rightarrow> [] | Some cpus \<Rightarrow> cpus), others = other_sets db s u\<rparr>"
  obtain S where "allocateCpuSet inp = Inr S" "sorted S" "cpuSetStillFits S n topo res"
    using allocation_fits [of inp] assms(1) by (auto simp: inp_def)
  with False show thesis
    by (intro that [of S Upsert]) (auto simp: plan_limited_def inp_def split: option.splits)
qed

lemma limited_plan_again:
  assumes "cpuSetStillFits e n topo res"
  shows "plan_limited db s u topo res n (Some e) = Inr (sort e, NoWrite)"
  using assms by (simp add: plan_limited_def)

text \<open>A limited grant: the plan is written, and the next plan finds it as it is.\<close>

lemma limited_resolve:
  assumes topo: "server_rows db s = Some (topo, res)" "topology_ok topo" "allocatableCpus topo res \<noteq> []"
    and plan: "plan_cpus db s u = plan_limited db s u topo res n (map_of (user_cpu_sets db) (s, u))"
    and again: "\<And>db' S. access_rows db' u s = access_rows db u s \<Longrightarrow> server_rows db' s = Some (topo, res) \<Longrightarrow>
      map_of (user_cpu_sets db') (s, u) = Some S \<Longrightarrow> length S = min n (length (allocatableCpus topo res)) \<Longrightarrow>
      \<exists>m. plan_cpus db' s u = plan_limited db' s u topo res m (Some S)
        \<and> min m (length (allocatableCpus topo res)) = min n (length (allocatableCpus topo res))"
  shows "\<exists>cpus db'. resolve s u db = Inr (cpus, db') \<and> resolve s u db' = Inr (cpus, db')
    \<and> preview s u db = Inr cpus \<and> cpuSetStillFits cpus n topo res
    \<and> (\<forall>s' u'. (s', u') \<noteq> (s, u) \<longrightarrow>
         map_of (user_cpu_sets db') (s', u') = map_of (user_cpu_sets db) (s', u'))"
proof -
  obtain S w where p: "plan_limited db s u topo res n (map_of (user_cpu_sets db) (s, u)) = Inr (S, w)"
      "cpuSetStillFits S n topo res" "sorted S" "w \<noteq> Delete"
      "w = NoWrite \<longrightarrow> (\<exists>e. map_of (user_cpu_sets db) (s, u) = Some e \<and> set e = set S \<and> S = sort e \<and> cpuSetStillFits e n topo res)"
    by (rule limited_plan [OF topo(2,3)]) blast
  define db' where "db' = apply_plan s u (S, w) db"
  obtain e where e: "map_of (user_cpu_sets db') (s, u) = Some e" "S = sort e" "cpuSetStillFits e n topo res"
  proof (cases w)
    case NoWrite
    then show thesis using p(5) that by (auto simp: db'_def apply_plan_def)
  next
    case Upsert
    then show thesis using p(2,3) by (intro that [of S]) (simp_all add: db'_def apply_plan_def sorted_sort_id)
  qed (use p(4) in simp)
  have rows: "access_rows db' u s = access_rows db u s" "server_rows db' s = Some (topo, res)"
    using topo(1) by (cases w; simp add: db'_def apply_plan_def)+
  obtain m where "plan_cpus db' s u = plan_limited db' s u topo res m (Some e)"
      "min m (length (allocatableCpus topo res)) = min n (length (allocatableCpus topo res))"
    using again [OF rows e(1)] e(3) by (auto simp: fits_iff)
  moreover from this have "cpuSetStillFits e m topo res" using e(3) by (simp add: fits_iff)
  ultimately have "plan_cpus db' s u = Inr (S, NoWrite)" using limited_plan_again e(2) by metis
  then have "resolve s u db' = Inr (S, db')" by (simp add: resolve_def apply_plan_def)
  moreover have "resolve s u db = Inr (S, db')" "preview s u db = Inr S"
    using plan p(1) by (simp_all add: resolve_def preview_def db'_def)
  moreover have "\<forall>s' u'. (s', u') \<noteq> (s, u) \<longrightarrow>
      map_of (user_cpu_sets db') (s', u') = map_of (user_cpu_sets db) (s', u')"
    using p(4) by (cases w) (auto simp: db'_def apply_plan_def)
  ultimately show ?thesis using p(2) by blast
qed

text \<open>Resolving the CPUs of an owner: it always succeeds on a server with an unreserved CPU, a limited
  grant gets a set that fits it and an unlimited one every unreserved CPU, the preview says the same,
  resolving again changes nothing, and the sets of other owners and servers stay as they were.\<close>

theorem resolve_pins_owner:
  assumes "server_rows db s = Some (topo, res)" "topology_ok topo" "allocatableCpus topo res \<noteq> []"
  shows "\<exists>cpus db'. resolve s u db = Inr (cpus, db') \<and> resolve s u db' = Inr (cpus, db')
    \<and> preview s u db = Inr cpus \<and> set cpus \<subseteq> set (allocatableCpus topo res)
    \<and> (\<forall>n. access_rows db u s = Some (Some n) \<longrightarrow> cpuSetStillFits cpus n topo res)
    \<and> (access_rows db u s = Some None \<longrightarrow> cpus = allocatableCpus topo res)
    \<and> (\<forall>s' u'. (s', u') \<noteq> (s, u) \<longrightarrow>
         map_of (user_cpu_sets db') (s', u') = map_of (user_cpu_sets db) (s', u'))"
proof -
  have sub: "set S \<subseteq> set (allocatableCpus topo res)" if "cpuSetStillFits S n topo res" for S n
    using that by (simp add: fits_iff)
  have lim: ?thesis
    if "\<exists>cpus db'. resolve s u db = Inr (cpus, db') \<and> resolve s u db' = Inr (cpus, db')
          \<and> preview s u db = Inr cpus \<and> cpuSetStillFits cpus n topo res
          \<and> (\<forall>s' u'. (s', u') \<noteq> (s, u) \<longrightarrow> map_of (user_cpu_sets db') (s', u') = map_of (user_cpu_sets db) (s', u'))"
      "access_rows db u s \<noteq> Some None" "\<forall>m. access_rows db u s = Some (Some m) \<longrightarrow> m = n" for n
    using that sub by blast
  consider "access_rows db u s = None" "map_of (user_cpu_sets db) (s, u) = None"
    | cpus where "access_rows db u s = None" "map_of (user_cpu_sets db) (s, u) = Some cpus"
    | "access_rows db u s = Some None" | n where "access_rows db u s = Some (Some n)"
    by (metis option.exhaust)
  then show ?thesis
  proof cases
    case 1
    with assms show ?thesis by (auto simp: resolve_def preview_def plan_cpus_def apply_plan_def)
  next
    case (2 cpus)
    show ?thesis
      by (rule lim, rule limited_resolve [OF assms, of u "length cpus"]) (use 2 assms in \<open>auto simp: plan_cpus_def\<close>)
  next
    case 3
    with assms show ?thesis
      by (cases "map_of (user_cpu_sets db) (s, u)") (auto simp: resolve_def preview_def plan_cpus_def apply_plan_def)
  next
    case (4 n)
    show ?thesis
      by (rule lim, rule limited_resolve [OF assms, of u "n"]) (use 4 assms in \<open>auto simp: plan_cpus_def\<close>)
  qed
qed


subsection \<open>Witnesses\<close>

text \<open>A socket with two cores of two threads each; CPU 0 is reserved, another user holds CPU 1.\<close>

definition sample_topology :: "cpu_entry list" where
  "sample_topology = [\<lparr>cpu_id = 0, cpu_core = 0, cpu_socket = 0, cpu_numa = 0\<rparr>,
     \<lparr>cpu_id = 1, cpu_core = 0, cpu_socket = 0, cpu_numa = 0\<rparr>,
     \<lparr>cpu_id = 2, cpu_core = 1, cpu_socket = 0, cpu_numa = 0\<rparr>,
     \<lparr>cpu_id = 3, cpu_core = 1, cpu_socket = 0, cpu_numa = 0\<rparr>]"

definition sample_allocation :: cpu_allocation_input where
  "sample_allocation = \<lparr>topology = sample_topology, reserved = [0], cores = 2, current_set = [3], others = [[1]]\<rparr>"

lemma sample_topology_ok: "topology_ok sample_topology"
  by (simp add: topology_ok_def sample_topology_def)

lemma sample_allocatable: "allocatableCpus sample_topology [0] = [1, 2, 3]"
  by (simp add: allocatableCpus_def sample_topology_def)

lemma sample_allocated: "allocateCpuSet sample_allocation = Inr [2, 3]"
  by code_simp

theorem allocation_valid_witness:
  "topology_ok (topology sample_allocation) \<and> (\<exists>S. allocateCpuSet sample_allocation = Inr S \<and> sorted S
    \<and> cpuSetStillFits S 2 sample_topology [0] \<and> 3 \<in> set S)"
proof -
  have ok: "topology_ok (topology sample_allocation)"
    by (simp add: sample_allocation_def sample_topology_ok)
  have kept: "kept_cpus sample_allocation = {3}"
    by (simp add: kept_cpus_def sample_allocation_def sample_allocatable)
  show ?thesis using allocation_valid [OF ok] ok
    by (simp add: kept) (auto simp: sample_allocation_def)
qed

theorem allocation_least_shared_witness:
  "(\<Sum>cs \<leftarrow> [[1]]. int (count_list cs (2::int))) \<le> (\<Sum>cs \<leftarrow> [[1]]. int (count_list cs 1))"
  using allocation_least_shared [of sample_allocation "[2, 3]" 2 1] sample_allocated sample_topology_ok
    sample_allocatable
  by (simp add: sample_allocation_def)

theorem allocation_stable_witness:
  "allocateCpuSet (sample_allocation\<lparr>current_set := [3, 1]\<rparr>) = Inr [1, 3]"
  using allocation_stable [of "sample_allocation\<lparr>current_set := [3, 1]\<rparr>"] sample_topology_ok sample_allocatable
  by (simp add: sample_allocation_def cpuSetStillFits_def)

theorem cpu_text_accepted_witness:
  "\<exists>t. formatCpuSet [3, 1, 2, 7] = Some t \<and> cpuset_members t = set [3, 1, 2, 7] \<and> checkConfigEntry ''limits.cpu'' t = ALLOW"
  by (rule cpu_text_accepted) (simp_all add: max_safe_integer_def)

definition sample_cpu_db :: cpu_db where
  "sample_cpu_db = \<lparr>server_rows = (\<lambda>s. Some (sample_topology, [0])), access_rows = (\<lambda>u s. Some (Some 2)),
     user_cpu_sets = [((''s'', ''b''), [1])], container_rows = [(''b'', ''s'')]\<rparr>"

theorem resolve_pins_owner_witness:
  "\<exists>cpus db'. resolve ''s'' ''a'' sample_cpu_db = Inr (cpus, db') \<and> resolve ''s'' ''a'' db' = Inr (cpus, db')
    \<and> cpuSetStillFits cpus 2 sample_topology [0] \<and> map_of (user_cpu_sets db') (''s'', ''b'') = Some [1]"
proof -
  have rows: "server_rows sample_cpu_db ''s'' = Some (sample_topology, [0])" "access_rows sample_cpu_db ''a'' ''s'' = Some (Some 2)"
      "map_of (user_cpu_sets sample_cpu_db) (''s'', ''b'') = Some [1]"
    by (simp_all add: sample_cpu_db_def)
  have "allocatableCpus sample_topology [0] \<noteq> []" by (simp add: sample_allocatable)
  from resolve_pins_owner [OF rows(1) sample_topology_ok this, of "''a''"] rows(2,3) show ?thesis
    by fastforce
qed

end
