(* ===== verification/Instance_Spec.thy ===== *)
theory Instance_Spec
  imports Cpu_Sets Firewall_Protocol
begin

text \<open>
  The Incus document of a container: \<open>packages/backend/src/incus/instance-spec.ts\<close> (the desired document,
  its comparison with the actual one and the document to write), the GPU part
  (\<open>packages/backend/src/gpu/instance-spec.ts\<close>, \<open>packages/common/src/gpu/pci.ts\<close> and \<open>schema.ts\<close>), the
  assembly for a container row (\<open>buildContainerSpec\<close> of
  \<open>packages/backend/src/containers/container-instance-ops.ts\<close>) and the body of the update
  (\<open>readModifyWriteInstance\<close> of \<open>packages/backend/src/incus/incus-client.ts\<close>).

  A JavaScript record of strings is an association list in insertion order. A number is a rational,
  an \<open>InstanceSpecInteger\<close> the decimal text the code turns it into first. \<open>createHash('sha256')\<close> is the
  parameter \<open>sha256\<close>: the hexadecimal digest of a text. The order of the entries of a difference
  (sorted by key) is left out: nothing reads it.
\<close>

subsection \<open>Inputs\<close>

type_synonym string_map = "(string \<times> string) list"
type_synonym device_map = "(string \<times> string_map) list"

datatype spec_error = IncusError (err_code: string) (err_reason: string)

record image_source_input =
  src_server :: "string option"
  src_protocol :: "string option"
  src_project :: "string option"

record spec_container =
  container_id :: string
  container_name :: string
  container_server :: string
  container_revision :: rat
  image_fingerprint :: string
  container_image_source :: "image_source_input option"
  cpus :: "int list"
  mem_bytes :: string
  nesting :: "bool option"
  syscall_intercept :: "bool option"
  root_pool :: string
  root_size_bytes :: string
  routed_ip :: string

record runtime_limits =
  limit_processes :: rat
  ingress_mbit :: rat
  egress_mbit :: rat
  disk_read_mbps :: rat
  disk_write_mbps :: rat

record spec_server =
  server_id :: string
  server_name :: string
  parent_interface :: string
  server_image_source :: "image_source_input option"

record spec_attachment =
  attachment_id :: string
  volume_id :: string
  incus_name :: string
  pool_name :: string
  container_path :: string
  read_only :: bool

record instance_spec =
  spec_name :: string
  spec_source :: string_map
  spec_config :: string_map
  spec_devices :: device_map


subsection \<open>Checks\<close>

definition fail :: "string \<Rightarrow> string \<Rightarrow> spec_error + 'a" where
  "fail code why = Inl (IncusError code why)"

lemma fail_not_Inr [simp]: "fail c r \<noteq> Inr x"
  by (simp add: fail_def)

definition hex_group :: "nat \<Rightarrow> string \<Rightarrow> bool" where
  "hex_group n s \<longleftrightarrow> length s = n \<and> list_all is_hex s"

definition UUID_PATTERN :: "string \<Rightarrow> bool" where
  "UUID_PATTERN v = (case split_char (CHR ''-'') v of
     [a, b, c, d, e] \<Rightarrow> hex_group 8 a \<and> hex_group 4 b \<and> hex_group 4 c \<and> hd c \<in> set ''12345''
       \<and> hex_group 4 d \<and> hd d \<in> set ''89abAB'' \<and> hex_group 12 e
   | _ \<Rightarrow> False)"

definition UUID32_PATTERN :: "string \<Rightarrow> bool" where
  "UUID32_PATTERN v = hex_group 32 v"

definition uuid32 :: "string \<Rightarrow> string \<Rightarrow> spec_error + string" where
  "uuid32 v label =
     (if \<not> UUID_PATTERN v \<and> \<not> UUID32_PATTERN v then fail ''INVALID_INSTANCE_ID'' label
      else Inr (to_lower (filter (\<lambda>c. c \<noteq> CHR ''-'') v)))"

definition positiveInteger :: "string \<Rightarrow> string \<Rightarrow> string \<Rightarrow> spec_error + string" where
  "positiveInteger txt code label =
     (if \<not> (all_digits txt \<and> (txt = ''0'' \<or> hd txt \<noteq> CHR ''0'')) \<or> digits_val txt = 0 then fail code label
      else Inr txt)"

definition nonNegativeInteger :: "rat \<Rightarrow> string \<Rightarrow> spec_error + nat" where
  "nonNegativeInteger v label =
     (case safe_int v of
        None \<Rightarrow> fail ''INVALID_INSTANCE_SPEC'' label
      | Some n \<Rightarrow> if n < 0 then fail ''INVALID_INSTANCE_SPEC'' label else Inr (nat n))"

definition validateName :: "string \<Rightarrow> string \<Rightarrow> spec_error + string" where
  "validateName v label =
     (if v = [] \<or> list_ex (\<lambda>c. is_control c \<or> c = CHR ''/'' \<or> c = CHR 0x5C) v
      then fail ''INVALID_INSTANCE_SPEC'' label else Inr v)"

definition validateSourceValue :: "string \<Rightarrow> string \<Rightarrow> spec_error + string" where
  "validateSourceValue v label =
     (if v = [] \<or> list_ex is_control v then fail ''INVALID_INSTANCE_SPEC'' label else Inr v)"

text \<open>\<open>isIP(value) === 4\<close>: four decimal octets without leading zeros.\<close>

definition is_octet :: "string \<Rightarrow> bool" where
  "is_octet p \<longleftrightarrow> all_digits p \<and> (p = ''0'' \<or> hd p \<noteq> CHR ''0'') \<and> length p \<le> 3 \<and> digits_val p \<le> 255"

definition is_ipv4 :: "string \<Rightarrow> bool" where
  "is_ipv4 v = (let ps = split_char (CHR ''.'') v in length ps = 4 \<and> list_all is_octet ps)"

definition validateIpv4 :: "string \<Rightarrow> string \<Rightarrow> spec_error + string" where
  "validateIpv4 v label =
     (if \<not> is_ipv4 v \<or> CHR ''/'' \<in> set v then fail ''INVALID_INSTANCE_SPEC'' label else Inr v)"


subsection \<open>Parts of the document\<close>

definition GUEST_IPV6_SYSCTL_CONFIG :: string_map where
  "GUEST_IPV6_SYSCTL_CONFIG = map (\<lambda>key. (key, ''1'')) GUEST_IPV6_DISABLE_SYSCTLS"

definition limitsConfig :: "runtime_limits \<Rightarrow> spec_error + string_map" where
  "limitsConfig limits = bind_res (nonNegativeInteger (limit_processes limits) ''limits_processes'') (\<lambda>n.
     Inr [(''limits.processes'', show_nat n)])"

definition diskLimits :: "runtime_limits \<Rightarrow> spec_error + string_map" where
  "diskLimits limits =
     bind_res (nonNegativeInteger (disk_read_mbps limits) ''disk_read'') (\<lambda>r.
     bind_res (nonNegativeInteger (disk_write_mbps limits) ''disk_write'') (\<lambda>w.
       Inr [(''limits.read'', show_nat r @ ''MB''), (''limits.write'', show_nat w @ ''MB'')]))"

definition FINGERPRINT_PATTERN :: "string \<Rightarrow> bool" where
  "FINGERPRINT_PATTERN v = hex_group 64 v"

definition source_part :: "string option \<Rightarrow> string \<Rightarrow> string \<Rightarrow> spec_error + string_map" where
  "source_part v key label = (case v of
     None \<Rightarrow> Inr []
   | Some s \<Rightarrow> bind_res (validateSourceValue s label) (\<lambda>s. Inr [(key, s)]))"

definition imageSource :: "spec_container \<Rightarrow> spec_server \<Rightarrow> spec_error + string_map" where
  "imageSource container server =
     (if \<not> FINGERPRINT_PATTERN (image_fingerprint container)
      then fail ''INVALID_IMAGE_FINGERPRINT'' ''image_fingerprint''
      else
        (let inp = or_else (container_image_source container) (server_image_source server)
         in bind_res (source_part (Option.bind inp src_server) ''server'' ''image_source_server'') (\<lambda>srv.
            bind_res (if Option.bind inp src_protocol = None \<and> srv \<noteq> []
                      then Inr [(''protocol'', ''simplestreams'')]
                      else source_part (Option.bind inp src_protocol) ''protocol'' ''image_source_protocol'') (\<lambda>prot.
            bind_res (source_part (Option.bind inp src_project) ''project'' ''image_source_project'') (\<lambda>proj.
              Inr ([(''type'', ''image''), (''fingerprint'', to_lower (image_fingerprint container))]
                   @ srv @ prot @ proj))))))"

definition deriveInstanceName :: "string \<Rightarrow> spec_error + string" where
  "deriveInstanceName v = bind_res (uuid32 v ''container_id'') (\<lambda>i. Inr (''nyc-'' @ i))"

definition deriveVolumeName :: "string \<Rightarrow> spec_error + string" where
  "deriveVolumeName v = bind_res (uuid32 v ''volume_id'') (\<lambda>i. Inr (''nyv-'' @ i))"

definition deriveAttachmentDeviceName :: "string \<Rightarrow> spec_error + string" where
  "deriveAttachmentDeviceName v = bind_res (uuid32 v ''attachment_id'') (\<lambda>i. Inr (''nyd-'' @ i))"

definition deriveNicHostName :: "(string \<Rightarrow> string) \<Rightarrow> string \<Rightarrow> spec_error + string" where
  "deriveNicHostName sha256 v = bind_res (uuid32 v ''instance_id'') (\<lambda>i. Inr (''nyh'' @ take 12 (sha256 i)))"

text \<open>\<open>byte.toString(16).padStart(2, '0')\<close>.\<close>

definition byte_hex :: "nat \<Rightarrow> string" where
  "byte_hex b = [hex_char (b div 16), hex_char (b mod 16)]"

definition GUEST_HWADDR_PREFIX :: "nat list" where
  "GUEST_HWADDR_PREFIX = [0x02, 0x6e]"

definition deriveGuestHwaddr :: "string \<Rightarrow> spec_error + string" where
  "deriveGuestHwaddr ip = bind_res (validateIpv4 ip ''guest_ipv4_address'') (\<lambda>a.
     Inr (join_str '':'' (map byte_hex (GUEST_HWADDR_PREFIX @ map digits_val (split_char (CHR ''.'') a)))))"

definition buildGuestNicDevice ::
    "(string \<Rightarrow> string) \<Rightarrow> string \<Rightarrow> string \<Rightarrow> string \<Rightarrow> spec_error + string_map" where
  "buildGuestNicDevice sha256 parentInterface hardwareId ipv4Address =
     bind_res (deriveGuestHwaddr ipv4Address) (\<lambda>mac.
     bind_res (deriveNicHostName sha256 hardwareId) (\<lambda>host.
       Inr [(''type'', ''nic''), (''nictype'', ''bridged''), (''parent'', parentInterface), (''name'', ''eth0''),
            (''hwaddr'', mac), (''host_name'', host), (''ipv4.address'', ipv4Address),
            (''security.ipv4_filtering'', ''true''), (''security.mac_filtering'', ''true'')]))"

record contribution =
  con_config :: string_map
  con_devices :: device_map

fun merge_entries :: "string \<Rightarrow> (string \<times> 'v) list \<Rightarrow> (string \<times> 'v) list \<Rightarrow> spec_error + (string \<times> 'v) list" where
  "merge_entries what acc [] = Inr acc"
| "merge_entries what acc ((key, v) # rest) =
     (if key \<in> set (keys acc) then fail ''INVALID_INSTANCE_SPEC'' (what @ key)
      else merge_entries what (acc @ [(key, v)]) rest)"

fun mergeInstanceSpecContributions :: "instance_spec \<Rightarrow> contribution list \<Rightarrow> spec_error + instance_spec" where
  "mergeInstanceSpecContributions base [] = Inr base"
| "mergeInstanceSpecContributions base (c # cs) =
     bind_res (merge_entries ''config_collision_'' (spec_config base) (con_config c)) (\<lambda>config.
     bind_res (merge_entries ''device_collision_'' (spec_devices base) (con_devices c)) (\<lambda>devices.
       mergeInstanceSpecContributions (base\<lparr>spec_config := config, spec_devices := devices\<rparr>) cs))"

definition DISPLAY_CONTAINER_NAME_KEY :: string where
  "DISPLAY_CONTAINER_NAME_KEY = ''user.nyabase.display.container''"

definition DISPLAY_SERVER_NAME_KEY :: string where
  "DISPLAY_SERVER_NAME_KEY = ''user.nyabase.display.server''"

definition bool_text :: "bool \<Rightarrow> string" where
  "bool_text b = (if b then ''true'' else ''false'')"

definition or_true :: "bool option \<Rightarrow> bool" where
  "or_true b = (case b of None \<Rightarrow> True | Some x \<Rightarrow> x)"

definition attachment_device :: "spec_attachment \<Rightarrow> spec_error + string \<times> string_map" where
  "attachment_device a =
     bind_res (uuid32 (attachment_id a) ''attachment_id'') (\<lambda>aid.
     bind_res (uuid32 (volume_id a) ''volume_id'') (\<lambda>vid.
     if incus_name a \<noteq> ''nyv-'' @ vid then fail ''INVALID_VOLUME_NAME'' (''volume_name_'' @ volume_id a)
     else bind_res (validateName (pool_name a) ''volume_pool'') (\<lambda>volumePool.
       let path = container_path a
       in if \<not> starts_with ''/'' path \<or> path = ''/'' \<or> list_ex is_control path
            \<or> list_ex (\<lambda>segment. segment = ''..'' \<or> segment = ''.'') (split_char (CHR ''/'') path)
          then fail ''INVALID_ATTACHMENT_PATH'' (''attachment_'' @ aid)
          else Inr (''nyd-'' @ aid,
                 [(''type'', ''disk''), (''pool'', volumePool), (''source'', incus_name a), (''path'', path)]
                 @ (if read_only a then [(''readonly'', ''true'')] else [])))))"

fun add_attachments :: "device_map \<Rightarrow> spec_attachment list \<Rightarrow> spec_error + device_map" where
  "add_attachments devices [] = Inr devices"
| "add_attachments devices (a # as) =
     bind_res (attachment_device a) (\<lambda>(name, device). add_attachments (AList.update name device devices) as)"

definition cpu_text :: "int list \<Rightarrow> spec_error + string" where
  "cpu_text cs = (case formatCpuSet cs of None \<Rightarrow> fail ''INVALID_INSTANCE_SPEC'' ''cpu_set'' | Some t \<Rightarrow> Inr t)"

definition desired_config ::
    "spec_container \<Rightarrow> spec_server \<Rightarrow> string \<Rightarrow> string \<Rightarrow> nat \<Rightarrow> string \<Rightarrow> runtime_limits \<Rightarrow> spec_error + string_map" where
  "desired_config container server containerId serverId revn memBytes limits =
     bind_res (cpu_text (cpus container)) (\<lambda>cpu.
     bind_res (limitsConfig limits) (\<lambda>processes.
       Inr ([(''limits.cpu'', cpu), (''limits.memory'', memBytes)]
         @ processes
         @ [(''security.privileged'', ''false''), (''security.idmap.isolated'', ''true'')]
         @ GUEST_IPV6_SYSCTL_CONFIG
         @ [(''security.nesting'', bool_text (or_true (nesting container))),
            (''security.syscalls.intercept.mknod'', bool_text (or_true (syscall_intercept container))),
            (''security.syscalls.intercept.setxattr'', bool_text (or_true (syscall_intercept container))),
            (''user.nyabase.managed'', ''true''), (''user.nyabase.container_id'', containerId),
            (''user.nyabase.server_id'', serverId), (''user.nyabase.revision'', show_nat revn),
            (DISPLAY_CONTAINER_NAME_KEY, container_name container),
            (DISPLAY_SERVER_NAME_KEY, server_name server)])))"

definition desired_devices ::
    "(string \<Rightarrow> string) \<Rightarrow> string \<Rightarrow> string \<Rightarrow> string \<Rightarrow> string \<Rightarrow> string \<Rightarrow> runtime_limits \<Rightarrow> spec_error + device_map" where
  "desired_devices sha256 containerId rootPool rootSizeBytes parentInterface routedIp limits =
     bind_res (diskLimits limits) (\<lambda>disk.
     bind_res (buildGuestNicDevice sha256 parentInterface containerId routedIp) (\<lambda>nic.
     bind_res (nonNegativeInteger (ingress_mbit limits) ''network_ingress'') (\<lambda>i.
     bind_res (nonNegativeInteger (egress_mbit limits) ''network_egress'') (\<lambda>e.
       Inr [(''root'', [(''type'', ''disk''), (''path'', ''/''), (''pool'', rootPool), (''size'', rootSizeBytes)] @ disk),
            (''eth0'', nic @ [(''limits.ingress'', show_nat i @ ''Mbit''), (''limits.egress'', show_nat e @ ''Mbit'')])]))))"

definition buildDesiredInstanceSpec ::
    "(string \<Rightarrow> string) \<Rightarrow> spec_container \<Rightarrow> spec_server \<Rightarrow> spec_attachment list \<Rightarrow> runtime_limits
      \<Rightarrow> spec_error + instance_spec" where
  "buildDesiredInstanceSpec sha256 container server attachments limits =
     bind_res (uuid32 (container_id container) ''container_id'') (\<lambda>containerId.
     bind_res (uuid32 (server_id server) ''server_id'') (\<lambda>serverId.
     if to_lower (filter (\<lambda>c. c \<noteq> CHR ''-'') (container_server container)) \<noteq> serverId
     then fail ''INVALID_INSTANCE_SPEC'' ''container_server_mismatch''
     else bind_res (nonNegativeInteger (container_revision container) ''revision'') (\<lambda>revn. 
     bind_res (positiveInteger (root_size_bytes container) ''INVALID_INSTANCE_SPEC'' ''root_size_bytes'') (\<lambda>rootSizeBytes.
     bind_res (positiveInteger (mem_bytes container) ''INVALID_INSTANCE_SPEC'' ''mem_bytes'') (\<lambda>memBytes.
     bind_res (validateName (root_pool container) ''root_pool'') (\<lambda>rootPool.
     bind_res (validateName (parent_interface server) ''parent_interface'') (\<lambda>parentInterface.
     bind_res (validateIpv4 (routed_ip container) ''routed_ip'') (\<lambda>routedIp.
     bind_res (desired_config container server containerId serverId revn memBytes limits) (\<lambda>config.
     bind_res (desired_devices sha256 containerId rootPool rootSizeBytes parentInterface routedIp limits) (\<lambda>devices.
     bind_res (add_attachments devices attachments) (\<lambda>devices.
     bind_res (imageSource container server) (\<lambda>source.
       Inr \<lparr>spec_name = ''nyc-'' @ containerId, spec_source = source, spec_config = config,
            spec_devices = devices\<rparr>))))))))))))"


subsection \<open>GPUs\<close>

definition MAX_GPU_DEVICES :: nat where
  "MAX_GPU_DEVICES = 256"

definition PCI_ADDRESS_RE :: "string \<Rightarrow> bool" where
  "PCI_ADDRESS_RE v = (case split_char (CHR '':'') v of
     [domn, bus, slot] \<Rightarrow> (hex_group 4 domn \<or> hex_group 8 domn) \<and> hex_group 2 bus
       \<and> length slot = 4 \<and> list_all is_hex (take 2 slot) \<and> slot ! 2 = CHR ''.'' \<and> slot ! 3 \<in> set ''01234567''
   | _ \<Rightarrow> False)"

definition canonicalPciAddress :: "string \<Rightarrow> string option" where
  "canonicalPciAddress v =
     (let normalized = to_lower v;
          domain = takeWhile (\<lambda>c. c \<noteq> CHR '':'') normalized
      in if \<not> PCI_ADDRESS_RE normalized then None
         else Some (replicate (8 - length domain) (CHR ''0'') @ domain
                    @ dropWhile (\<lambda>c. c \<noteq> CHR '':'') normalized))"

definition toIncusPciAddress :: "string \<Rightarrow> string" where
  "toIncusPciAddress canonical =
     (let domain = takeWhile (\<lambda>c. c \<noteq> CHR '':'') canonical
      in if CHR '':'' \<notin> set canonical \<or> domain = [] then canonical
         else drop (length domain - 4) domain @ dropWhile (\<lambda>c. c \<noteq> CHR '':'') canonical)"

record gpu_state =
  nvidiaRuntime :: bool
  pciAddresses :: "string list"

text \<open>\<open>zPciAddress\<close>, \<open>zGpuPciAddresses\<close> and \<open>zGpuContainerState\<close> on a parsed value.\<close>

definition zPciAddress :: "json \<Rightarrow> string option" where
  "zPciAddress v = (case v of
     JStr s \<Rightarrow> if CHR ''*'' \<in> set s then None else canonicalPciAddress s
   | _ \<Rightarrow> None)"

fun all_some :: "'a option list \<Rightarrow> 'a list option" where
  "all_some [] = Some []"
| "all_some (None # xs) = None"
| "all_some (Some x # xs) = map_option (Cons x) (all_some xs)"

definition zGpuPciAddresses :: "json \<Rightarrow> string list option" where
  "zGpuPciAddresses v = (case v of
     JArr xs \<Rightarrow>
       if length xs > MAX_GPU_DEVICES then None
       else (case all_some (map zPciAddress xs) of
         None \<Rightarrow> None
       | Some as \<Rightarrow> if distinct as then Some as else None)
   | _ \<Rightarrow> None)"

definition zGpuContainerState :: "js_object \<Rightarrow> gpu_state option" where
  "zGpuContainerState ps =
     (if \<not> list_all (\<lambda>key. key = ''nvidiaRuntime'' \<or> key = ''pciAddresses'') (keys ps) then None
      else (case (js_get ps ''nvidiaRuntime'', Option.bind (js_get ps ''pciAddresses'') zGpuPciAddresses) of
        (Some (JBool b), Some as) \<Rightarrow> if as \<noteq> [] \<and> \<not> b then None else Some \<lparr>nvidiaRuntime = b, pciAddresses = as\<rparr>
      | _ \<Rightarrow> None))"

definition parseContainerState :: "json option \<Rightarrow> gpu_state option" where
  "parseContainerState state = (case state of
     Some (JObj ps) \<Rightarrow> if ps = [] then None else zGpuContainerState ps
   | _ \<Rightarrow> None)"

definition state_json :: "gpu_state \<Rightarrow> json" where
  "state_json s = JObj [(''nvidiaRuntime'', JBool (nvidiaRuntime s)), (''pciAddresses'', JArr (map JStr (pciAddresses s)))]"

definition gpuStateOccupies :: "json option \<Rightarrow> bool" where
  "gpuStateOccupies state = (case parseContainerState state of
     None \<Rightarrow> False | Some s \<Rightarrow> nvidiaRuntime s \<or> pciAddresses s \<noteq> [])"

definition gpu_device :: "nat \<times> string \<Rightarrow> string \<times> string_map" where
  "gpu_device ia = (''gpu'' @ show_nat (fst ia),
     [(''type'', ''gpu''), (''gputype'', ''physical''), (''pci'', toIncusPciAddress (snd ia))])"

definition gpuInstanceSpec :: "json option \<Rightarrow> contribution" where
  "gpuInstanceSpec state = (case parseContainerState state of
     None \<Rightarrow> \<lparr>con_config = [], con_devices = []\<rparr>
   | Some s \<Rightarrow>
       if \<not> gpuStateOccupies (Some (state_json s)) then \<lparr>con_config = [], con_devices = []\<rparr>
       else \<lparr>con_config = [(''nvidia.runtime'', bool_text (nvidiaRuntime s))],
             con_devices = map gpu_device (enumerate 0 (pciAddresses s))\<rparr>)"


subsection \<open>The document of a container row\<close>

record container_row =
  row_id :: string
  row_name :: string
  row_server_id :: string
  row_revision :: rat
  row_image_fingerprint :: string
  row_mem_bytes :: string
  row_nesting :: bool
  row_syscall_intercept :: bool
  row_root_pool :: string
  row_root_size :: string
  row_routed_ip :: "string option"
  row_server_name :: string
  row_parent_interface :: "string option"
  row_gpu_enabled :: bool
  row_gpu_state :: "json option"

definition or_empty :: "string option \<Rightarrow> string" where
  "or_empty v = (case v of None \<Rightarrow> [] | Some s \<Rightarrow> s)"

definition buildContainerSpec ::
    "(string \<Rightarrow> string) \<Rightarrow> container_row \<Rightarrow> spec_attachment list \<Rightarrow> int list \<Rightarrow> runtime_limits
      \<Rightarrow> spec_error + instance_spec" where
  "buildContainerSpec sha256 row attachments runtimeCpus limits =
     bind_res (buildDesiredInstanceSpec sha256
       \<lparr>container_id = row_id row, container_name = row_name row, container_server = row_server_id row,
        container_revision = row_revision row, image_fingerprint = row_image_fingerprint row,
        container_image_source = None, cpus = runtimeCpus, mem_bytes = row_mem_bytes row,
        nesting = Some (row_nesting row), syscall_intercept = Some (row_syscall_intercept row),
        root_pool = row_root_pool row, root_size_bytes = row_root_size row,
        routed_ip = or_empty (row_routed_ip row)\<rparr>
       \<lparr>server_id = row_server_id row, server_name = row_server_name row,
        parent_interface = or_empty (row_parent_interface row), server_image_source = None\<rparr>
       attachments limits) (\<lambda>base.
     mergeInstanceSpecContributions base
       (if row_gpu_enabled row then [gpuInstanceSpec (row_gpu_state row)] else []))"

text \<open>The document as the agent parses it.\<close>

definition string_json :: "string_map \<Rightarrow> json" where
  "string_json m = JObj (map (\<lambda>(k, v). (k, JStr v)) m)"

definition devices_json :: "device_map \<Rightarrow> json" where
  "devices_json ds = JObj (map (\<lambda>(n, d). (n, string_json d)) ds)"

definition spec_json :: "instance_spec \<Rightarrow> js_object" where
  "spec_json spec = [(''name'', JStr (spec_name spec)), (''type'', JStr ''container''), (''profiles'', JArr []),
     (''source'', string_json (spec_source spec)), (''config'', string_json (spec_config spec)),
     (''devices'', devices_json (spec_devices spec))]"


subsection \<open>Comparison\<close>

definition copyStringMap :: "json option \<Rightarrow> string_map" where
  "copyStringMap v = (case v of Some (JObj ps) \<Rightarrow> string_entries ps | _ \<Rightarrow> [])"

definition copyDeviceMap :: "json option \<Rightarrow> device_map" where
  "copyDeviceMap v = (case v of
     Some (JObj ps) \<Rightarrow> map (\<lambda>(name, device). (name, copyStringMap (Some device))) ps
   | _ \<Rightarrow> [])"

definition MEMORY_UNITS :: "(string \<times> nat) list" where
  "MEMORY_UNITS = [(''b'', 1), (''kb'', 1000), (''kib'', 1024), (''mb'', 1000 ^ 2), (''mib'', 1024 ^ 2),
     (''gb'', 1000 ^ 3), (''gib'', 1024 ^ 3), (''tb'', 1000 ^ 4), (''tib'', 1024 ^ 4)]"

text \<open>\<open>/^([0-9]+)(?:\s*)(b|kb|\<dots>|tib)?$/i\<close> on the trimmed text.\<close>

definition parseMemoryBytes :: "string \<Rightarrow> string option" where
  "parseMemoryBytes v =
     (let s = js_trim v;
          amount = takeWhile is_digit s;
          unit = trim_start js_whitespace (dropWhile is_digit s)
      in if amount = [] then None
         else if unit = [] then Some (show_nat (digits_val amount))
         else map_option (\<lambda>m. show_nat (digits_val amount * m)) (map_of MEMORY_UNITS (to_lower unit)))"

text \<open>\<open>whole.replace(/^0+(?=\d)/, '')\<close> and \<open>fraction.replace(/0+$/, '')\<close>.\<close>

definition strip_leading_zeros :: "string \<Rightarrow> string" where
  "strip_leading_zeros ds =
     (let r = dropWhile (\<lambda>c. c = CHR ''0'') ds in if r = [] then drop (length ds - 1) ds else r)"

definition strip_trailing_zeros :: "string \<Rightarrow> string" where
  "strip_trailing_zeros ds = rev (dropWhile (\<lambda>c. c = CHR ''0'') (rev ds))"

definition canonicalDecimal :: "string \<Rightarrow> string option" where
  "canonicalDecimal v = (case split_char (CHR ''.'') v of
     [whole] \<Rightarrow> if all_digits whole then Some (strip_leading_zeros whole) else None
   | [whole, fraction] \<Rightarrow>
       if all_digits whole \<and> all_digits fraction
       then (let f = strip_trailing_zeros fraction
             in Some (strip_leading_zeros whole @ (if f = [] then [] else ''.'' @ f)))
       else None
   | _ \<Rightarrow> None)"

definition cpu_token :: "string \<Rightarrow> nat list option" where
  "cpu_token token =
     (let bounds = (case split_char (CHR ''-'') token of
            [a] \<Rightarrow> if all_digits a then Some (digits_val a, digits_val a) else None
          | [a, b] \<Rightarrow> if all_digits a \<and> all_digits b then Some (digits_val a, digits_val b) else None
          | _ \<Rightarrow> None)
      in case bounds of
           None \<Rightarrow> None
         | Some (start, stop) \<Rightarrow>
             if int start > max_safe_integer \<or> int stop > max_safe_integer \<or> stop < start \<or> stop - start > 4096
             then None else Some [start..<Suc stop])"

definition cpu_range_text :: "nat \<times> nat \<Rightarrow> string" where
  "cpu_range_text r = (if fst r = snd r then show_nat (fst r) else show_nat (fst r) @ ''-'' @ show_nat (snd r))"

definition cpu_range_round :: "string list \<times> nat \<times> nat \<Rightarrow> nat \<Rightarrow> string list \<times> nat \<times> nat" where
  "cpu_range_round st cpu = (case st of (ranges, start, previous) \<Rightarrow>
     if cpu = previous + 1 then (ranges, start, cpu)
     else (ranges @ [cpu_range_text (start, previous)], cpu, cpu))"

definition cpu_ranges :: "nat list \<Rightarrow> string option" where
  "cpu_ranges cs = (case cs of
     [] \<Rightarrow> None
   | first # rest \<Rightarrow> (case foldl cpu_range_round ([], first, first) rest of
       (ranges, start, previous) \<Rightarrow> Some (join_str '','' (ranges @ [cpu_range_text (start, previous)]))))"

definition canonicalCpu :: "string \<Rightarrow> string option" where
  "canonicalCpu v =
     (let trimmed = to_lower (js_trim v)
      in case canonicalDecimal trimmed of
           Some d \<Rightarrow> Some d
         | None \<Rightarrow>
             if ends_with ''%'' trimmed
             then map_option (\<lambda>p. p @ ''%'') (canonicalDecimal (butlast trimmed))
             else (let tokens = filter (\<lambda>t. t \<noteq> []) (split_char (CHR '','') trimmed)
                   in if tokens = [] then None
                      else (case all_some (map cpu_token tokens) of
                        None \<Rightarrow> None
                      | Some sets \<Rightarrow> cpu_ranges (sort (unique_first (concat sets))))))"

definition normalizeManagedValue :: "string \<Rightarrow> string option \<Rightarrow> string option" where
  "normalizeManagedValue key v = (case v of
     None \<Rightarrow> None
   | Some s \<Rightarrow>
       if key = ''limits.memory'' then Some (case parseMemoryBytes s of Some t \<Rightarrow> t | None \<Rightarrow> js_trim s)
       else if key = ''limits.cpu'' then Some (case canonicalCpu s of Some t \<Rightarrow> t | None \<Rightarrow> js_trim s)
       else Some s)"

definition unmanagedConfigPrefixes :: "string list" where
  "unmanagedConfigPrefixes = [''volatile.'', ''image.'']"

definition isManagedConfigKey :: "string \<Rightarrow> bool" where
  "isManagedConfigKey key = (\<not> list_ex (\<lambda>p. starts_with p key) unmanagedConfigPrefixes)"

type_synonym value_diff = "string option \<times> string option"
type_synonym device_diff = "string_map option \<times> string_map option"

datatype managed_diff =
    ManagedFailure (failure_code: string) (failure_details: string_map)
  | ManagedDiff (diff_config: "(string \<times> value_diff) list") (diff_devices: "(string \<times> device_diff) list")
      (diff_profiles: bool)

definition compareConfig :: "string_map \<Rightarrow> string_map \<Rightarrow> (string \<times> value_diff) list" where
  "compareConfig actual desired =
     (let ks = unique_first (filter isManagedConfigKey (keys actual) @ filter isManagedConfigKey (keys desired))
      in map (\<lambda>key. (key, (map_of actual key, map_of desired key)))
           (filter (\<lambda>key. normalizeManagedValue key (map_of actual key)
              \<noteq> normalizeManagedValue key (map_of desired key)) ks))"

definition deviceMatches :: "string_map option \<Rightarrow> string_map option \<Rightarrow> bool" where
  "deviceMatches actual desired = (case (actual, desired) of
     (Some a, Some d) \<Rightarrow> list_all (\<lambda>key. map_of a key = map_of d key) (keys a @ keys d)
   | (None, None) \<Rightarrow> True
   | _ \<Rightarrow> False)"

definition compareDevices :: "device_map \<Rightarrow> device_map \<Rightarrow> (string \<times> device_diff) list" where
  "compareDevices actual desired =
     map (\<lambda>name. (name, (map_of actual name, map_of desired name)))
       (filter (\<lambda>name. \<not> deviceMatches (map_of actual name) (map_of desired name))
          (unique_first (keys actual @ keys desired)))"

datatype document_source = Actual | Desired

definition source_text :: "document_source \<Rightarrow> string" where
  "source_text s = (case s of Actual \<Rightarrow> ''actual'' | Desired \<Rightarrow> ''desired'')"

definition eth0_failure :: "string \<Rightarrow> document_source \<Rightarrow> string_map \<Rightarrow> managed_diff option" where
  "eth0_failure code source extra =
     Some (ManagedFailure code ([(''source'', source_text source), (''device'', ''eth0'')] @ extra))"

definition validateEth0 :: "device_map \<Rightarrow> document_source \<Rightarrow> managed_diff option" where
  "validateEth0 devices source =
     (case map_of devices ''eth0'' of
        None \<Rightarrow> eth0_failure ''MISSING_MANAGED_NETWORK_ADDRESS'' source []
      | Some eth0 \<Rightarrow>
          if map_of eth0 ''type'' \<noteq> Some ''nic''
            then eth0_failure ''MISSING_MANAGED_NETWORK_ADDRESS'' source []
          else if map_of eth0 ''nictype'' \<noteq> Some ''bridged''
            then eth0_failure ''INVALID_MANAGED_NETWORK_TYPE'' source [(''nictype'', text_or_empty eth0 ''nictype'')]
          else if source \<noteq> Desired then None
          else if text_or_empty eth0 ''parent'' = []
            then eth0_failure ''INVALID_MANAGED_NETWORK_TYPE'' source [(''key'', ''parent'')]
          else if map_of eth0 ''name'' \<noteq> Some ''eth0''
            then eth0_failure ''INVALID_MANAGED_NETWORK_TYPE'' source [(''key'', ''name'')]
          else if text_or_empty eth0 ''hwaddr'' = []
            then eth0_failure ''INVALID_MANAGED_NETWORK_TYPE'' source [(''key'', ''hwaddr'')]
          else
            (let address = text_or_empty eth0 ''ipv4.address''
             in if address = [] \<or> \<not> is_ipv4 address \<or> CHR ''/'' \<in> set address
                  then eth0_failure ''INVALID_MANAGED_FILTER_IDENTITY'' source [(''key'', ''ipv4.address'')]
                else if map_of eth0 ''security.ipv4_filtering'' \<noteq> Some ''true''
                  then eth0_failure ''INVALID_MANAGED_FILTER_IDENTITY'' source [(''key'', ''security.ipv4_filtering'')]
                else if map_of eth0 ''security.mac_filtering'' \<noteq> Some ''true''
                  then eth0_failure ''INVALID_MANAGED_FILTER_IDENTITY'' source [(''key'', ''security.mac_filtering'')]
                else None))"

text \<open>\<open>(actualInput.profiles ?? []).length > 0\<close>.\<close>

definition has_profiles :: "js_object \<Rightarrow> bool" where
  "has_profiles doc = (case js_get doc ''profiles'' of
     Some (JArr xs) \<Rightarrow> xs \<noteq> [] | Some (JStr s) \<Rightarrow> s \<noteq> [] | _ \<Rightarrow> False)"

definition compareManagedFields :: "js_object \<Rightarrow> instance_spec \<Rightarrow> managed_diff" where
  "compareManagedFields actualInput desired =
     (let actualConfig = copyStringMap (js_get actualInput ''config'');
          actualDevices = copyDeviceMap (js_get actualInput ''devices'')
      in case validateEth0 actualDevices Actual of
           Some failure \<Rightarrow> failure
         | None \<Rightarrow> (case validateEth0 (spec_devices desired) Desired of
             Some failure \<Rightarrow> failure
           | None \<Rightarrow> ManagedDiff (compareConfig actualConfig (spec_config desired))
                       (compareDevices actualDevices (spec_devices desired)) (has_profiles actualInput)))"

definition diff_empty :: "managed_diff \<Rightarrow> bool" where
  "diff_empty d = (case d of ManagedFailure _ _ \<Rightarrow> False
     | ManagedDiff c ds p \<Rightarrow> c = [] \<and> ds = [] \<and> \<not> p)"

definition applied_config :: "string_map \<Rightarrow> string_map \<Rightarrow> string_map" where
  "applied_config actual desired =
     foldl (\<lambda>m (key, v). AList.update key v m)
       (filter (\<lambda>(key, v). \<not> isManagedConfigKey key) actual)
       (filter (\<lambda>(key, v). isManagedConfigKey key) desired)"

definition applyManagedFields :: "js_object \<Rightarrow> instance_spec \<Rightarrow> string_map \<times> device_map" where
  "applyManagedFields actualInput desired =
     (applied_config (copyStringMap (js_get actualInput ''config'')) (spec_config desired), spec_devices desired)"

definition observeRootQuotaPending :: "js_object \<Rightarrow> string option \<Rightarrow> bool \<times> string option" where
  "observeRootQuotaPending actual pendingSizeBytes =
     (let applyQuota = map_of (copyStringMap (js_get actual ''config'')) ''volatile.root.apply_quota'';
          pending = (case applyQuota of None \<Rightarrow> False | Some q \<Rightarrow> to_lower (js_trim q) = ''true'')
      in (pending, if pending then pendingSizeBytes else None))"

text \<open>
  \<open>readModifyWriteInstance\<close> with the change of \<open>putManagedFields\<close>: the body of the \<open>PUT\<close>. A field Incus
  did not report is left out of it.
\<close>

definition kept_field :: "js_object \<Rightarrow> string \<Rightarrow> js_object" where
  "kept_field doc key = (case js_get doc key of None \<Rightarrow> [] | Some v \<Rightarrow> [(key, v)])"

definition managed_put :: "js_object \<Rightarrow> instance_spec \<Rightarrow> js_object" where
  "managed_put doc desired = (case applyManagedFields doc desired of (config, devices) \<Rightarrow>
     kept_field doc ''architecture'' @ [(''config'', string_json config)] @ kept_field doc ''description''
     @ [(''devices'', devices_json devices)] @ kept_field doc ''ephemeral''
     @ [(''profiles'', JArr [])] @ kept_field doc ''stateful'')"

end
