(* ===== verification/Desired_Document.thy ===== *)
theory Desired_Document
  imports Instance_Spec
begin

text \<open>
  What the Backend's instance documents promise: every document \<open>buildContainerSpec\<close> answers is one the
  agent's policy accepts, for the creation and for an update, and the comparison of documents sees exactly the
  differences that matter.
\<close>


subsection \<open>Names\<close>

lemma hex_not: "is_hex c \<Longrightarrow> c \<noteq> CHR ''-'' \<and> c \<noteq> CHR '':'' \<and> c \<noteq> CHR ''.''"
  by (auto simp: char_class_defs)

lemma hex_group_lower: "hex_group n s \<Longrightarrow> filter (\<lambda>c. c \<noteq> CHR ''-'') s = s \<and> list_all is_lower_hex (to_lower s)"
proof -
  assume "hex_group n s"
  then have "\<forall>c \<in> set s. is_hex c" by (simp add: hex_group_def list_all_iff)
  then have "\<forall>c \<in> set s. c \<noteq> CHR ''-'' \<and> is_lower_hex (lower_char c)" by (auto simp: is_hex_def [symmetric] dest: hex_not)
  then show ?thesis by (auto simp: filter_id_conv to_lower_def list_all_iff)
qed

lemma uuid32_hex:
  assumes "uuid32 v label = Inr i"
  shows "length i = 32 \<and> list_all is_lower_hex i"
proof -
  have i: "i = to_lower (filter (\<lambda>c. c \<noteq> CHR ''-'') v)" and p: "UUID_PATTERN v \<or> UUID32_PATTERN v"
    using assms by (auto simp: uuid32_def split: if_split_asm)
  from p show ?thesis
  proof
    assume "UUID32_PATTERN v"
    then show ?thesis using hex_group_lower [of 32 v] i by (simp add: UUID32_PATTERN_def hex_group_def)
  next
    assume u: "UUID_PATTERN v"
    then obtain a b c d e where s: "split_char (CHR ''-'') v = [a, b, c, d, e]"
      by (auto simp: UUID_PATTERN_def split: list.splits)
    have h: "hex_group 8 a" "hex_group 4 b" "hex_group 4 c" "hex_group 4 d" "hex_group 12 e"
      using u by (simp_all add: UUID_PATTERN_def s)
    have "v = a @ ''-'' @ b @ ''-'' @ c @ ''-'' @ d @ ''-'' @ e"
      using join_split [of "CHR ''-''" v] by (simp add: s)
    then have "filter (\<lambda>c. c \<noteq> CHR ''-'') v = a @ b @ c @ d @ e"
      using h [THEN hex_group_lower] by simp
    then show ?thesis
      using h [THEN hex_group_lower] h unfolding i by (simp add: to_lower_append hex_group_def)
  qed
qed

lemma hex_name_prefix: "hex_name p n (p @ s) \<longleftrightarrow> length s = n \<and> list_all is_lower_hex s"
  by (simp add: hex_name_def starts_with_iff)

lemma uuid32_name: "uuid32 v label = Inr i \<Longrightarrow> hex_name p 32 (p @ i)"
  by (simp add: hex_name_prefix uuid32_hex)


subsection \<open>The desired config\<close>

lemma digits_limit:
  assumes "all_digits t"
  shows "is_limit_value t"
proof -
  have "\<forall>c \<in> set t. is_digit c" using assms by (simp add: all_digits_def list_all_iff)
  then have e: "takeWhile is_digit t = t" "dropWhile is_digit t = []" by auto
  show ?thesis unfolding is_limit_value_def Let_def e using assms by (simp add: all_digits_def)
qed

lemma show_nat_all_digits: "all_digits (show_nat n)"
  using show_nat_digits by (simp add: all_digits_def list_all_iff)

lemma positiveInteger_limit: "positiveInteger t c l = Inr v \<Longrightarrow> is_limit_value v \<and> v = t"
  using digits_limit by (auto simp: positiveInteger_def split: if_split_asm)

lemma cpu_text_pattern:
  assumes "cpu_text cs = Inr t"
  shows "CPUSET_PATTERN t"
proof -
  have f: "formatCpuSet cs = Some t" using assms by (auto simp: cpu_text_def split: option.splits)
  obtain x xs where xs: "sort (unique_first cs) = x # xs" and ok: "\<not> list_ex (\<lambda>c. c > max_safe_integer \<or> c < 0) (x # xs)"
    using f by (cases "sort (unique_first cs)") (auto simp: formatCpuSet_def split: if_split_asm)
  have "set cs = set (x # xs)" unfolding xs [symmetric] by simp
  moreover have "\<forall>c \<in> set (x # xs). 0 \<le> c \<and> c \<le> max_safe_integer" using ok unfolding list_ex_iff by force
  ultimately have cs: "cs \<noteq> []" "\<forall>c \<in> set cs. 0 \<le> c \<and> c \<le> max_safe_integer" by auto
  obtain t' where "formatCpuSet cs = Some t'" "CPUSET_PATTERN t'" by (rule formatCpuSet_total [OF cs])
  with f show ?thesis by simp
qed

text \<open>An entry the agent accepts in the config of a new instance.\<close>

definition entry_ok :: "string \<times> string \<Rightarrow> bool" where
  "entry_ok e \<longleftrightarrow> checkConfigEntry (fst e) (snd e) = ALLOW \<and> isManagedConfigKey (fst e)"

lemma desired_config_ok:
  assumes "desired_config container server cid sid revn mem limits = Inr cfg" "is_limit_value mem"
  shows "\<forall>e \<in> set cfg. entry_ok e" "map_of cfg ''security.idmap.isolated'' = Some ''true''"
    "map_of cfg ''security.privileged'' = Some ''false''" "distinct (keys cfg)" "''nvidia.runtime'' \<notin> set (keys cfg)"
proof -
  obtain cpu n where cpu: "cpu_text (cpus container) = Inr cpu"
    and cfg: "cfg = [(''limits.cpu'', cpu), (''limits.memory'', mem), (''limits.processes'', show_nat n),
        (''security.privileged'', ''false''), (''security.idmap.isolated'', ''true'')]
         @ GUEST_IPV6_SYSCTL_CONFIG
         @ [(''security.nesting'', bool_text (or_true (nesting container))),
            (''security.syscalls.intercept.mknod'', bool_text (or_true (syscall_intercept container))),
            (''security.syscalls.intercept.setxattr'', bool_text (or_true (syscall_intercept container))),
            (''user.nyabase.managed'', ''true''), (''user.nyabase.container_id'', cid),
            (''user.nyabase.server_id'', sid), (''user.nyabase.revision'', show_nat revn),
            (DISPLAY_CONTAINER_NAME_KEY, container_name container),
            (DISPLAY_SERVER_NAME_KEY, server_name server)]"
    using assms(1) by (auto simp: desired_config_def limitsConfig_def res_simps)
  have "entry_ok (''limits.cpu'', cpu)" using cpu_text_pattern [OF cpu]
    by (simp add: entry_ok_def checkConfigEntry_def volatile_key_def isManagedConfigKey_def unmanagedConfigPrefixes_def)
  moreover have "entry_ok (''limits.memory'', mem)" "entry_ok (''limits.processes'', show_nat n)"
    using assms(2) digits_limit [OF show_nat_all_digits]
    by (simp_all add: entry_ok_def checkConfigEntry_def volatile_key_def isManagedConfigKey_def unmanagedConfigPrefixes_def)
  moreover have "entry_ok (''security.nesting'', bool_text b)" "entry_ok (''security.syscalls.intercept.mknod'', bool_text b)"
      "entry_ok (''security.syscalls.intercept.setxattr'', bool_text b)" for b
    by (simp_all add: entry_ok_def checkConfigEntry_def volatile_key_def isManagedConfigKey_def unmanagedConfigPrefixes_def
        bool_text_def BOOLEAN_VALUES_def)
  moreover have "entry_ok (''security.privileged'', ''false'')" "entry_ok (''security.idmap.isolated'', ''true'')"
    by (simp_all add: entry_ok_def checkConfigEntry_def volatile_key_def isManagedConfigKey_def unmanagedConfigPrefixes_def)
  moreover have "\<forall>e \<in> set GUEST_IPV6_SYSCTL_CONFIG. entry_ok e"
    by (simp add: entry_ok_def checkConfigEntry_def volatile_key_def isManagedConfigKey_def unmanagedConfigPrefixes_def
        GUEST_IPV6_SYSCTL_CONFIG_def GUEST_IPV6_DISABLE_SYSCTLS_def)
  moreover have "entry_ok (''user.nyabase.'' @ k, v)" for k v
    by (simp add: entry_ok_def checkConfigEntry_def volatile_key_def isManagedConfigKey_def unmanagedConfigPrefixes_def)
  from this [of "''managed''"] this [of "''container_id''"] this [of "''server_id''"] this [of "''revision''"]
    this [of "''display.container''"] this [of "''display.server''"]
  have "entry_ok (''user.nyabase.managed'', v)" "entry_ok (''user.nyabase.container_id'', v)"
    "entry_ok (''user.nyabase.server_id'', v)" "entry_ok (''user.nyabase.revision'', v)"
    "entry_ok (DISPLAY_CONTAINER_NAME_KEY, v)" "entry_ok (DISPLAY_SERVER_NAME_KEY, v)" for v
    by (simp_all add: DISPLAY_CONTAINER_NAME_KEY_def DISPLAY_SERVER_NAME_KEY_def)
  ultimately show "\<forall>e \<in> set cfg. entry_ok e" unfolding cfg set_append ball_Un by simp
  show "map_of cfg ''security.idmap.isolated'' = Some ''true''" "map_of cfg ''security.privileged'' = Some ''false''"
    unfolding cfg by simp_all
  show "distinct (keys cfg)" "''nvidia.runtime'' \<notin> set (keys cfg)"
    unfolding cfg GUEST_IPV6_SYSCTL_CONFIG_def GUEST_IPV6_DISABLE_SYSCTLS_def DISPLAY_CONTAINER_NAME_KEY_def
      DISPLAY_SERVER_NAME_KEY_def by simp_all
qed


subsection \<open>The desired devices\<close>

lemma string_entries_json [simp]: "string_entries (map (\<lambda>(k, v). (k, JStr v)) m) = m"
  by (induction m) auto

lemma stringMap_json [simp]: "stringMap (Some (string_json m)) = m" "copyStringMap (Some (string_json m)) = m"
  by (simp_all add: stringMap_def copyStringMap_def string_json_def)

lemma keys_json [simp]: "keys (map (\<lambda>(k, v). (k, f k v)) m) = keys m"
  by (induction m) auto

definition device_ok :: "string \<times> string_map \<Rightarrow> bool" where
  "device_ok d \<longleftrightarrow> checkDevice (fst d) (string_json (snd d)) = ALLOW"

lemma device_ok_disk: "map_of d ''type'' = Some ''disk'' \<Longrightarrow> device_ok (n, d) \<longleftrightarrow> checkDisk n d = ALLOW"
  and device_ok_nic: "map_of d ''type'' = Some ''nic'' \<Longrightarrow> device_ok (n, d) \<longleftrightarrow> checkNic n d = ALLOW"
  by (simp_all add: device_ok_def checkDevice_def string_json_def stringMap_def Let_def)

lemma device_ok_gpu:
  assumes "is_gpu_name n" "is_pci_text pci"
  shows "device_ok (n, [(''type'', ''gpu''), (''gputype'', ''physical''), (''pci'', pci)])"
  using assms by (simp add: device_ok_def checkDevice_def string_json_def stringMap_def Let_def onlyKeys_def GPU_KEYS_def
      text_or_empty_def)

lemma validateName_Inr: "validateName v l = Inr w \<longleftrightarrow> w = v \<and> v \<noteq> [] \<and> \<not> list_ex (\<lambda>c. is_control c \<or> c = CHR ''/'' \<or> c = CHR 0x5C) v"
  by (auto simp: validateName_def)

lemma validateIpv4_Inr: "validateIpv4 v l = Inr w \<longleftrightarrow> w = v \<and> is_ipv4 v \<and> CHR ''/'' \<notin> set v"
  by (auto simp: validateIpv4_def)

text \<open>The documented form of a SHA-256 digest in hexadecimal.\<close>

definition sha256_hex :: "(string \<Rightarrow> string) \<Rightarrow> bool" where
  "sha256_hex sha256 \<longleftrightarrow> (\<forall>s. length (sha256 s) = 64 \<and> list_all is_lower_hex (sha256 s))"

lemma nic_host_name:
  assumes "sha256_hex sha256" "deriveNicHostName sha256 i = Inr h"
  shows "MANAGED_NIC_HOST_NAME_PATTERN h"
proof -
  obtain j where "h = ''nyh'' @ take 12 (sha256 j)" using assms(2) by (auto simp: deriveNicHostName_def res_simps)
  moreover have "length (sha256 j) = 64" "list_all is_lower_hex (take 12 (sha256 j))"
    using assms(1) by (auto simp: sha256_hex_def list_all_iff dest: in_set_takeD)
  ultimately show ?thesis unfolding MANAGED_NIC_HOST_NAME_PATTERN_def by (simp only: hex_name_prefix) simp
qed

lemma is_ipv4_nonempty: "is_ipv4 v \<Longrightarrow> v \<noteq> []"
  by (auto simp: is_ipv4_def)

lemma desired_devices_ok:
  assumes "desired_devices sha256 cid pool rootSize parent ip limits = Inr ds" "sha256_hex sha256"
    and "pool \<noteq> []" "parent \<noteq> []"
  shows "\<forall>d \<in> set ds. device_ok d" "keys ds = [''root'', ''eth0'']" "validateEth0 ds Desired = None"
    "\<forall>d \<in> set ds. distinct (keys (snd d))"
proof -
  obtain r w mac host i e where
      ds: "ds = [(''root'', [(''type'', ''disk''), (''path'', ''/''), (''pool'', pool), (''size'', rootSize),
             (''limits.read'', show_nat r @ ''MB''), (''limits.write'', show_nat w @ ''MB'')]),
           (''eth0'', [(''type'', ''nic''), (''nictype'', ''bridged''), (''parent'', parent), (''name'', ''eth0''),
             (''hwaddr'', mac), (''host_name'', host), (''ipv4.address'', ip),
             (''security.ipv4_filtering'', ''true''), (''security.mac_filtering'', ''true''),
             (''limits.ingress'', show_nat i @ ''Mbit''), (''limits.egress'', show_nat e @ ''Mbit'')])]"
      and mac: "deriveGuestHwaddr ip = Inr mac" and host: "deriveNicHostName sha256 cid = Inr host"
    using assms(1) by (auto simp: desired_devices_def diskLimits_def buildGuestNicDevice_def res_simps)
  have ip: "is_ipv4 ip" "CHR ''/'' \<notin> set ip" "ip \<noteq> []"
    using mac is_ipv4_nonempty by (auto simp: deriveGuestHwaddr_def res_simps validateIpv4_Inr)
  have mac': "mac \<noteq> []"
    using mac by (auto simp: deriveGuestHwaddr_def res_simps GUEST_HWADDR_PREFIX_def byte_hex_def join_str_hd)
  note h = nic_host_name [OF assms(2) host]
  show "\<forall>d \<in> set ds. device_ok d"
    using h assms(3,4) ip by (simp add: ds device_ok_disk device_ok_nic checkDisk_def checkNic_def onlyKeys_def DISK_KEYS_def NIC_KEYS_def
        text_or_empty_def)
  show "keys ds = [''root'', ''eth0'']" by (simp add: ds)
  show "validateEth0 ds Desired = None"
    using ip mac' assms(4) by (simp add: ds validateEth0_def text_or_empty_def)
  show "\<forall>d \<in> set ds. distinct (keys (snd d))" by (simp add: ds)
qed

lemma attachment_device_ok:
  assumes "attachment_device a = Inr d" "\<not> isForbiddenContainerMountPath (container_path a)"
  shows "device_ok d" "\<exists>i. fst d = ''nyd-'' @ i" "distinct (keys (snd d))"
proof -
  obtain aid vid where
      ids: "uuid32 (attachment_id a) ''attachment_id'' = Inr aid" "uuid32 (volume_id a) ''volume_id'' = Inr vid"
      and vol: "incus_name a = ''nyv-'' @ vid" and pool: "pool_name a \<noteq> []"
      and path: "starts_with ''/'' (container_path a)" "container_path a \<noteq> ''/''" "\<not> list_ex is_control (container_path a)"
        "\<not> list_ex (\<lambda>segment. segment = ''..'' \<or> segment = ''.'') (split_char (CHR ''/'') (container_path a))"
      and d: "d = (''nyd-'' @ aid, [(''type'', ''disk''), (''pool'', pool_name a), (''source'', incus_name a),
                (''path'', container_path a)] @ (if read_only a then [(''readonly'', ''true'')] else []))"
    using assms(1) by (auto simp: attachment_device_def res_simps validateName_Inr Let_def split: if_split_asm)
  have names: "MANAGED_ATTACHMENT_DEVICE_PATTERN (''nyd-'' @ aid)" "MANAGED_VOLUME_NAME_PATTERN (incus_name a)"
    unfolding MANAGED_ATTACHMENT_DEVICE_PATTERN_def MANAGED_VOLUME_NAME_PATTERN_def vol
    using uuid32_name ids by blast+
  have "''nyd-'' @ aid \<noteq> ''root''" by simp
  then have "checkDisk (fst d) (snd d) = ALLOW"
    using names pool path assms(2)
    by (simp add: d checkDisk_def onlyKeys_def DISK_KEYS_def text_or_empty_def Let_def list_ex_iff del: append.simps)
  moreover have "map_of (snd d) ''type'' = Some ''disk''" by (simp add: d)
  ultimately show "device_ok d" by (metis device_ok_disk prod.collapse)
  show "\<exists>i. fst d = ''nyd-'' @ i" by (simp add: d)
  show "distinct (keys (snd d))" by (simp add: d)
qed

lemma set_AList_update: "set (AList.update k v m) \<subseteq> insert (k, v) (set m)"
  by (induction m) auto

lemma add_attachments_ok:
  assumes "add_attachments ds as = Inr ds'" "\<forall>a \<in> set as. \<not> isForbiddenContainerMountPath (container_path a)"
    and "\<forall>d \<in> set ds. device_ok d \<and> distinct (keys (snd d))" "distinct (keys ds)"
  shows "(\<forall>d \<in> set ds'. device_ok d \<and> distinct (keys (snd d))) \<and> distinct (keys ds')
    \<and> map_of ds' ''eth0'' = map_of ds ''eth0''
    \<and> set (keys ds') \<subseteq> set (keys ds) \<union> {n. \<exists>i. n = ''nyd-'' @ i}"
  using assms
proof (induction as arbitrary: ds)
  case (Cons a as)
  obtain n d where a: "attachment_device a = Inr (n, d)" and rest: "add_attachments (AList.update n d ds) as = Inr ds'"
    using Cons.prems(1) by (auto simp: res_simps)
  note ok = attachment_device_ok [OF a, simplified]
  have "\<not> isForbiddenContainerMountPath (container_path a)" using Cons.prems(2) by simp
  note ok = ok [OF this]
  have "\<forall>x \<in> set (AList.update n d ds). device_ok x \<and> distinct (keys (snd x))"
    using set_AList_update [of n d ds] Cons.prems(3) ok by auto
  moreover have "distinct (keys (AList.update n d ds))" using Cons.prems(4) by (rule distinct_update)
  moreover define N where "N = {n. \<exists>i. n = ''nyd-'' @ i}"
  ultimately have IH: "(\<forall>d \<in> set ds'. device_ok d \<and> distinct (keys (snd d))) \<and> distinct (keys ds')
      \<and> map_of ds' ''eth0'' = map_of (AList.update n d ds) ''eth0''
      \<and> set (keys ds') \<subseteq> set (keys (AList.update n d ds)) \<union> N"
    using Cons.IH [OF rest] Cons.prems(2) by simp
  have n: "n \<in> N" "n \<noteq> ''eth0''" using ok(2) by (auto simp: N_def)
  have "set (keys (AList.update n d ds)) \<subseteq> insert n (set (keys ds))"
    using image_mono [OF set_AList_update, of fst n d ds] by simp
  with IH n have "set (keys ds') \<subseteq> set (keys ds) \<union> N" by blast
  with IH n(2) show ?case unfolding N_def [symmetric] by simp
qed simp


subsection \<open>GPU devices\<close>

lemma takeWhile_sep: "c \<notin> set a \<Longrightarrow> takeWhile (\<lambda>x. x \<noteq> c) (a @ c # r) = a" "c \<notin> set a \<Longrightarrow> dropWhile (\<lambda>x. x \<noteq> c) (a @ c # r) = c # r"
  by (induction a) auto

lemma canonical_pci_text:
  assumes "canonicalPciAddress s = Some c"
  shows "is_pci_text (toIncusPciAddress c)"
proof -
  define n where "n = to_lower s"
  have re: "PCI_ADDRESS_RE n" using assms by (auto simp: canonicalPciAddress_def n_def Let_def split: if_split_asm)
  then obtain a b d where s: "split_char (CHR '':'') n = [a, b, d]"
    by (auto simp: PCI_ADDRESS_RE_def split: list.splits)
  have h: "hex_group 4 a \<or> hex_group 8 a" "hex_group 2 b" "length d = 4" "list_all is_hex (take 2 d)" "d ! 2 = CHR ''.''"
      "d ! 3 \<in> set ''01234567''"
    using re by (simp_all add: PCI_ADDRESS_RE_def s)
  have no: "CHR '':'' \<notin> set a" using h(1) by (auto simp: hex_group_def list_all_iff dest: hex_not)
  have n: "n = a @ CHR '':'' # (b @ '':'' @ d)" using join_split [of "CHR '':''" n] by (simp add: s)
  define z where "z = replicate (8 - length a) (CHR ''0'')"
  have c: "c = (z @ a) @ CHR '':'' # (b @ '':'' @ d)"
    using assms re takeWhile_sep [OF no] by (simp add: canonicalPciAddress_def n_def [symmetric] n z_def)
  have za: "length (z @ a) = 8" "\<forall>x \<in> set (z @ a). is_hex x" "CHR '':'' \<notin> set (z @ a)"
    using h(1) no by (auto simp: z_def hex_group_def list_all_iff char_class_defs)
  have inc: "toIncusPciAddress c = drop 4 (z @ a) @ CHR '':'' # (b @ '':'' @ d)"
  proof -
    have "z @ a \<noteq> []" using za(1) by auto
    then show ?thesis unfolding c toIncusPciAddress_def Let_def takeWhile_sep [OF za(3)] za(1) by simp
  qed
  obtain p q r t where d: "d = [p, q, r, t]" using h(3) by (auto simp: numeral_eq_Suc length_Suc_conv)
  have "is_hex t" using h(6) by (auto simp: d char_class_defs)
  then have "\<forall>x \<in> set d. is_hex x \<or> x = CHR ''.''" using h(4,5) by (simp add: d)
  then show ?thesis
    using za h(2,3) by (auto simp: inc is_pci_text_def hex_group_def list_all_iff dest: in_set_dropD)
qed

lemma all_some_Some: "all_some xs = Some ys \<longleftrightarrow> xs = map Some ys"
proof (induction xs arbitrary: ys)
  case (Cons x xs)
  then show ?case by (cases x) (auto simp: map_eq_Cons_conv)
qed auto

lemma parsed_addresses:
  assumes "parseContainerState state = Some s"
  shows "\<forall>a \<in> set (pciAddresses s). \<exists>t. canonicalPciAddress t = Some a"
proof -
  obtain xs where "all_some (map zPciAddress xs) = Some (pciAddresses s)"
    using assms by (auto simp: parseContainerState_def zGpuContainerState_def zGpuPciAddresses_def
        split: option.splits json.splits if_split_asm bind_splits)
  then have "map zPciAddress xs = map Some (pciAddresses s)" by (simp add: all_some_Some)
  then have "\<forall>a \<in> set (pciAddresses s). \<exists>x. zPciAddress x = Some a"
    by (metis (no_types, lifting) in_set_conv_nth length_map nth_map)
  moreover have "\<exists>t. canonicalPciAddress t = Some a" if "zPciAddress x = Some a" for x a
    using that by (cases x) (auto simp: zPciAddress_def split: if_split_asm)
  ultimately show ?thesis by blast
qed

lemma show_nat_inject: "show_nat a = show_nat b \<Longrightarrow> a = b"
  by (metis digits_val_show_nat)

lemma gpu_contribution:
  "\<forall>e \<in> set (con_config (gpuInstanceSpec state)). entry_ok e"
  "\<forall>d \<in> set (con_devices (gpuInstanceSpec state)). device_ok d \<and> distinct (keys (snd d)) \<and> fst d \<noteq> ''eth0''"
proof -
  have gpu: "device_ok (gpu_device (i, a)) \<and> distinct (keys (snd (gpu_device (i, a)))) \<and> fst (gpu_device (i, a)) \<noteq> ''eth0''"
    if "canonicalPciAddress t = Some a" for i a t
  proof -
    have "is_gpu_name (''gpu'' @ show_nat i)"
      using show_nat_all_digits by (simp add: is_gpu_name_def)
    then show ?thesis using device_ok_gpu [OF _ canonical_pci_text [OF that]] by (simp add: gpu_device_def)
  qed
  show "\<forall>d \<in> set (con_devices (gpuInstanceSpec state)). device_ok d \<and> distinct (keys (snd d)) \<and> fst d \<noteq> ''eth0''"
  proof (cases "parseContainerState state")
    case (Some s)
    have "device_ok (gpu_device ia) \<and> distinct (keys (snd (gpu_device ia))) \<and> fst (gpu_device ia) \<noteq> ''eth0''"
      if "ia \<in> set (enumerate 0 (pciAddresses s))" for ia
    proof -
      have "snd ia \<in> set (pciAddresses s)"
        using that by (metis in_set_zip enumerate_eq_zip nth_mem snd_conv)
      then obtain t where "canonicalPciAddress t = Some (snd ia)" using parsed_addresses [OF Some] by blast
      from gpu [OF this, of "fst ia"] show ?thesis by simp
    qed
    then show ?thesis by (simp add: gpuInstanceSpec_def Some)
  qed (simp add: gpuInstanceSpec_def)
  have "entry_ok (''nvidia.runtime'', bool_text b)" for b
    by (simp add: entry_ok_def checkConfigEntry_def volatile_key_def isManagedConfigKey_def unmanagedConfigPrefixes_def
        bool_text_def BOOLEAN_VALUES_def GUEST_IPV6_DISABLE_SYSCTLS_def)
  then show "\<forall>e \<in> set (con_config (gpuInstanceSpec state)). entry_ok e"
    by (auto simp: gpuInstanceSpec_def split: option.splits)
qed


subsection \<open>The whole document\<close>

lemma merge_entries_append: "merge_entries what acc es = Inr r \<Longrightarrow> r = acc @ es"
  by (induction what acc es rule: merge_entries.induct) (auto split: if_split_asm)

lemma merge_entries_distinct: "merge_entries what acc es = Inr r \<Longrightarrow> distinct (keys acc) \<Longrightarrow> distinct (keys r)"
proof (induction what acc es rule: merge_entries.induct)
  case (2 what acc key v rest)
  then have "key \<notin> set (keys acc)" "merge_entries what (acc @ [(key, v)]) rest = Inr r" by (auto split: if_split_asm)
  then show ?case using 2 by simp
qed simp

text \<open>What the agent needs of a document: see \<open>entry_ok\<close> and \<open>device_ok\<close>.\<close>

definition spec_ok :: "instance_spec \<Rightarrow> bool" where
  "spec_ok spec \<longleftrightarrow> MANAGED_INSTANCE_NAME_PATTERN (spec_name spec)
     \<and> (\<exists>f. spec_source spec = [(''type'', ''image''), (''fingerprint'', f)])
     \<and> (\<forall>e \<in> set (spec_config spec). entry_ok e) \<and> distinct (keys (spec_config spec))
     \<and> map_of (spec_config spec) ''security.idmap.isolated'' = Some ''true''
     \<and> map_of (spec_config spec) ''security.privileged'' = Some ''false''
     \<and> (\<forall>d \<in> set (spec_devices spec). device_ok d \<and> distinct (keys (snd d))) \<and> distinct (keys (spec_devices spec))
     \<and> validateEth0 (spec_devices spec) Desired = None"

lemma validateEth0_cong: "map_of ds ''eth0'' = map_of ds' ''eth0'' \<Longrightarrow> validateEth0 ds s = validateEth0 ds' s"
  by (simp add: validateEth0_def)

lemma desired_spec_ok:
  assumes "buildDesiredInstanceSpec sha256 container server as limits = Inr spec" "sha256_hex sha256"
    and "container_image_source container = None" "server_image_source server = None"
    and "\<forall>a \<in> set as. \<not> isForbiddenContainerMountPath (container_path a)"
  shows "spec_ok spec"
proof -
  obtain cid sid revn rootSize mem config ds ds' source where
      cid: "uuid32 (container_id container) ''container_id'' = Inr cid"
      and mem: "positiveInteger (mem_bytes container) ''INVALID_INSTANCE_SPEC'' ''mem_bytes'' = Inr mem"
      and names: "root_pool container \<noteq> []" "parent_interface server \<noteq> []"
      and config: "desired_config container server cid sid revn mem limits = Inr config"
      and ds: "desired_devices sha256 cid (root_pool container) rootSize (parent_interface server) (routed_ip container) limits = Inr ds"
      and ds': "add_attachments ds as = Inr ds'" and source: "imageSource container server = Inr source"
      and spec: "spec = \<lparr>spec_name = ''nyc-'' @ cid, spec_source = source, spec_config = config, spec_devices = ds'\<rparr>"
    using assms(1)
    by (auto simp: buildDesiredInstanceSpec_def res_simps validateName_Inr validateIpv4_Inr split: if_split_asm)
  note c = desired_config_ok [OF config conjunct1 [OF positiveInteger_limit [OF mem]]]
  note d = desired_devices_ok [OF ds assms(2) names]
  have dd: "(\<forall>d \<in> set ds'. device_ok d \<and> distinct (keys (snd d))) \<and> distinct (keys ds')
      \<and> map_of ds' ''eth0'' = map_of ds ''eth0''"
    using add_attachments_ok [OF ds' assms(5)] d by simp
  have "\<exists>f. source = [(''type'', ''image''), (''fingerprint'', f)]"
    using source assms(3,4) by (auto simp: imageSource_def source_part_def res_simps split: if_split_asm)
  moreover have "MANAGED_INSTANCE_NAME_PATTERN (''nyc-'' @ cid)"
    unfolding MANAGED_INSTANCE_NAME_PATTERN_def by (rule uuid32_name [OF cid])
  ultimately show ?thesis
    using c d dd validateEth0_cong [of ds' ds Desired] by (simp add: spec_ok_def spec)
qed

lemma merged_spec_ok:
  assumes "spec_ok base" "mergeInstanceSpecContributions base [c] = Inr spec"
    and "\<forall>e \<in> set (con_config c). entry_ok e"
    and "\<forall>d \<in> set (con_devices c). device_ok d \<and> distinct (keys (snd d)) \<and> fst d \<noteq> ''eth0''"
  shows "spec_ok spec"
proof -
  obtain cfg ds where m: "merge_entries ''config_collision_'' (spec_config base) (con_config c) = Inr cfg"
      "merge_entries ''device_collision_'' (spec_devices base) (con_devices c) = Inr ds"
      and spec: "spec = base\<lparr>spec_config := cfg, spec_devices := ds\<rparr>"
    using assms(2) by (auto simp: res_simps)
  note e = merge_entries_append [OF m(1)] merge_entries_append [OF m(2)]
  note dist = merge_entries_distinct [OF m(1)] merge_entries_distinct [OF m(2)]
  have "map_of (con_devices c) ''eth0'' = None" using assms(4) by (auto simp: map_of_eq_None_iff)
  then have "map_of ds ''eth0'' = map_of (spec_devices base) ''eth0''" using e by (simp add: map_add_def split: option.split)
  from validateEth0_cong [OF this] have "validateEth0 ds Desired = None" using assms(1) by (simp add: spec_ok_def)
  moreover have "map_of cfg k = Some v" if "map_of (spec_config base) k = Some v" for k v
    using that unfolding e(1) by simp
  moreover have "(\<forall>x \<in> set cfg. entry_ok x) \<and> (\<forall>d \<in> set ds. device_ok d \<and> distinct (keys (snd d)))"
    using assms(1,3,4) unfolding e spec_ok_def by auto
  ultimately show ?thesis using assms(1) dist unfolding spec_ok_def spec by (simp del: map_of_eq_Some_iff)
qed

lemma container_spec_ok:
  assumes "buildContainerSpec sha256 row as cs limits = Inr spec" "sha256_hex sha256"
    and "\<forall>a \<in> set as. \<not> isForbiddenContainerMountPath (container_path a)"
  shows "spec_ok spec"
proof -
  obtain container server base where
      b: "buildDesiredInstanceSpec sha256 container server as limits = Inr base"
        "container_image_source container = None" "server_image_source server = None"
      and m: "mergeInstanceSpecContributions base
        (if row_gpu_enabled row then [gpuInstanceSpec (row_gpu_state row)] else []) = Inr spec"
    using assms(1) unfolding buildContainerSpec_def bind_res_Inr by (metis spec_container.select_convs(6) spec_server.select_convs(4))
  have base: "spec_ok base" by (rule desired_spec_ok [OF b(1) assms(2) b(2,3) assms(3)])
  show ?thesis
  proof (cases "row_gpu_enabled row")
    case True
    then show ?thesis using merged_spec_ok [OF base _ gpu_contribution] m by simp
  qed (use m base in simp)
qed


subsection \<open>What the agent accepts\<close>

lemma first_denied_ALLOW: "\<forall>x \<in> set xs. check x = ALLOW \<Longrightarrow> first_denied check xs = ALLOW"
  by (induction xs) auto

lemma js_get_json: "js_get (map (\<lambda>(k, v). (k, f v)) m) key = map_option f (map_of m key)"
  by (simp add: map_of_map)

lemma config_accepted:
  assumes "\<forall>e \<in> set c. checkConfigEntry (fst e) (snd e) = ALLOW"
    and "map_of c ''security.idmap.isolated'' = Some ''true''" "map_of c ''security.privileged'' = Some ''false''"
  shows "checkInstanceConfig (map (\<lambda>(k, v). (k, JStr v)) c) options = ALLOW"
proof -
  have "first_denied (\<lambda>(key, v). config_round (current options) key v) (map (\<lambda>(k, v). (k, JStr v)) c) = ALLOW"
    by (rule first_denied_ALLOW) (use assms(1) in \<open>auto simp: config_round_def\<close>)
  then show ?thesis by (simp only: checkInstanceConfig_def Let_def js_get_json assms(2,3)) simp
qed

lemma devices_accepted:
  assumes "\<forall>d \<in> set ds. device_ok d"
  shows "first_denied (\<lambda>(name, device). checkDevice name device) (map (\<lambda>(n, d). (n, string_json d)) ds) = ALLOW"
  by (rule first_denied_ALLOW) (use assms in \<open>auto simp: device_ok_def\<close>)

lemma document_accepted:
  assumes "js_get body ''profiles'' = Some (JArr [])" "js_get body ''ephemeral'' \<noteq> Some (JBool True)"
    "js_get body ''stateful'' \<noteq> Some (JBool True)" "js_get body ''config'' = Some (string_json c)"
    "js_get body ''devices'' = Some (devices_json ds)"
    and c: "\<forall>e \<in> set c. checkConfigEntry (fst e) (snd e) = ALLOW"
      "map_of c ''security.idmap.isolated'' = Some ''true''" "map_of c ''security.privileged'' = Some ''false''"
    and d: "\<forall>d \<in> set ds. device_ok d"
  shows "checkInstanceDocument body options = ALLOW"
proof -
  have "config_part body options = ALLOW"
    using assms(4) config_accepted [OF c] by (simp add: config_part_def string_json_def)
  moreover have "devices_part body options = ALLOW"
    using assms(5) devices_accepted [OF d] by (simp add: devices_part_def devices_json_def)
  ultimately show ?thesis using assms(1-3) by (simp add: checkInstanceDocument_def)
qed

lemma entry_not_volatile: "entry_ok e \<Longrightarrow> checkConfigEntry (fst e) (snd e) = ALLOW \<and> \<not> volatile_key (fst e)"
  by (auto simp: entry_ok_def isManagedConfigKey_def unmanagedConfigPrefixes_def volatile_key_def)

lemma create_document_accepted:
  assumes "spec_ok spec" "jsonBody (parse_json E) raw = Some (spec_json spec)"
  shows "checkInstanceCreate E raw = Allowed (JsonBody (spec_json spec)) False"
proof -
  define c ds where "c = spec_config spec" "ds = spec_devices spec"
  note s = assms(1) [unfolded spec_ok_def c_ds_def [symmetric]]
  obtain f where src: "spec_source spec = [(''type'', ''image''), (''fingerprint'', f)]" using s by blast
  have entries: "\<forall>e \<in> set c. checkConfigEntry (fst e) (snd e) = ALLOW" and vol: "\<forall>e \<in> set c. \<not> volatile_key (fst e)"
    using s entry_not_volatile by blast+
  have fields: "fieldsProblem (spec_json spec) INSTANCE_CREATE_FIELDS ''instance'' = None"
    by (simp add: spec_json_def INSTANCE_CREATE_FIELDS_def string_json_def devices_json_def)
  have source: "js_get (spec_json spec) ''source'' = Some (JObj [(''type'', JStr ''image''), (''fingerprint'', JStr f)])"
    by (simp add: spec_json_def src string_json_def)
  have sourceFields: "fieldsProblem [(''type'', JStr ''image''), (''fingerprint'', JStr f)] INSTANCE_SOURCE_FIELDS ''instance source'' = None"
    "imageServerProblem E [(''type'', JStr ''image''), (''fingerprint'', JStr f)] = None"
    by (simp_all add: INSTANCE_SOURCE_FIELDS_def imageServerProblem_def)
  have "\<not> sets_volatile (spec_json spec)"
    using vol by (auto simp: sets_volatile_def spec_json_def string_json_def c_ds_def)
  moreover have "checkInstanceDocument (spec_json spec) \<lparr>full = True, current = None\<rparr> = ALLOW"
    by (rule document_accepted [where c = c and ds = ds]) (use s entries in \<open>simp_all add: spec_json_def c_ds_def\<close>)
  moreover have "isManagedInstance (stringField (spec_json spec) ''name'')"
    using s by (simp add: isManagedInstance_def stringField_def spec_json_def)
  ultimately show ?thesis
    using assms(2) fields source sourceFields
    by (simp add: checkInstanceCreate_def) (simp add: spec_json_def)
qed

lemma instances_path: "parseIncusPath ''/1.0/instances'' = Some ([''1.0'', ''instances''], [])"
  by code_simp

lemma hex_plain: "is_lower_hex c \<Longrightarrow> c \<notin> {CHR ''?'', CHR 0x5C, CHR ''#'', CHR ''%'', CHR ''/'', CHR ''.''} \<and> \<not> is_control c \<and> uri_unreserved c"
  by (auto simp: is_lower_hex_def is_digit_def is_control_def uri_unreserved_def is_lower_def)

lemma percent_to_lower: "CHR ''%'' \<in> set (to_lower s) \<longleftrightarrow> CHR ''%'' \<in> set s"
proof -
  have "of_char c \<noteq> (5 :: nat)" if "is_upper c" for c using that by (simp add: is_upper_def)
  then have "CHR ''%'' = lower_char c \<longleftrightarrow> c = CHR ''%''" for c
    by (auto simp: lower_char_def is_upper_def eq_commute [of "CHR ''%''"] char_of_eq)
  then show ?thesis by (simp add: to_lower_def image_iff)
qed

lemma instance_name_chars:
  assumes "MANAGED_INSTANCE_NAME_PATTERN n"
  obtains h where "n = ''nyc-'' @ h"
    "\<forall>c \<in> set n. c \<notin> {CHR ''?'', CHR 0x5C, CHR ''#'', CHR ''%'', CHR ''/'', CHR ''.''} \<and> \<not> is_control c \<and> uri_unreserved c"
proof -
  obtain h where n: "n = ''nyc-'' @ h" using assms by (auto simp: MANAGED_INSTANCE_NAME_PATTERN_def hex_name_def starts_with_iff)
  then have "list_all is_lower_hex h"
    using assms unfolding MANAGED_INSTANCE_NAME_PATTERN_def by (simp only: hex_name_prefix)
  then have hh: "\<forall>c \<in> set h. c \<notin> {CHR ''?'', CHR 0x5C, CHR ''#'', CHR ''%'', CHR ''/'', CHR ''.''} \<and> \<not> is_control c \<and> uri_unreserved c"
    using hex_plain by (auto simp: list_all_iff)
  have "\<forall>c \<in> set n. c \<notin> {CHR ''?'', CHR 0x5C, CHR ''#'', CHR ''%'', CHR ''/'', CHR ''.''} \<and> \<not> is_control c \<and> uri_unreserved c"
    unfolding n set_append ball_Un by (rule conjI [OF _ hh]) (simp add: is_control_def uri_unreserved_def is_lower_def)
  with n that show thesis by blast
qed

lemma instance_path:
  assumes "MANAGED_INSTANCE_NAME_PATTERN n"
  shows "parseIncusPath (''/1.0/instances/'' @ n) = Some ([''1.0'', ''instances'', n], [])" "encode_uri_component n = n"
proof -
  obtain h where n: "n = ''nyc-'' @ h"
    and ch: "\<forall>c \<in> set n. c \<notin> {CHR ''?'', CHR 0x5C, CHR ''#'', CHR ''%'', CHR ''/'', CHR ''.''} \<and> \<not> is_control c \<and> uri_unreserved c"
    by (rule instance_name_chars [OF assms])
  define p where "p = ''/1.0/instances/'' @ n"
  have chars: "CHR ''?'' \<notin> set p" "CHR ''%'' \<notin> set p" "CHR 0x5C \<notin> set p" "CHR ''#'' \<notin> set p" "\<forall>c \<in> set p. \<not> is_control c"
    using ch by (auto simp: p_def is_control_def)
  have q: "split_char (CHR ''?'') p = [p]" by (rule split_char_id [OF chars(1)])
  have slash: "split_char (CHR ''/'') n = [n]" using ch by (intro split_char_id) auto
  then have s: "split_char (CHR ''/'') p = [[], ''1.0'', ''instances'', n]" by (simp add: p_def)
  have pc: "\<not> str_includes (CHR ''%'' # r) (to_lower p)" for r
    using chars(2) percent_to_lower [of p] by (auto simp: str_includes_iff)
  have "CHR ''/'' \<notin> set n" using ch by blast
  then have nn: "\<not> str_includes ''//'' n" by (auto simp: str_includes_iff)
  have "starts_with ''//'' (CHR ''/'' # n) = False" by (simp add: n)
  with nn have ss: "\<not> str_includes ''//'' p" by (simp add: p_def)
  have dots: "n \<noteq> ''.''" "n \<noteq> ''..''" by (auto simp: n)
  have dec: "decode_segments [''1.0'', ''instances'', n] = Some [''1.0'', ''instances'', n]"
  proof -
    have "CHR ''%'' \<notin> set n" using ch by blast
    then show ?thesis by (simp add: decode_uri_component_plain)
  qed
  have st: "starts_with ''/1.0'' p" by (simp add: p_def)
  have seg: "\<not> (\<exists>segment \<in> set [[], ''1.0'', ''instances'', n]. segment = ''.'' \<or> segment = ''..'')" using dots by simp
  have bad: "\<not> (\<exists>c \<in> set p. is_control c \<or> c = CHR 0x5C \<or> c = CHR ''#'')" using chars by auto
  have q0: "search_params [] = []" by (simp add: search_params_def)
  have "parseIncusPath p = Some ([''1.0'', ''instances'', n], [])"
    unfolding parseIncusPath_def Let_def q s list.sel list.case using pc ss seg bad st dec q0 by (simp only: list.size q0 query_ok_def) simp
  then show "parseIncusPath (''/1.0/instances/'' @ n) = Some ([''1.0'', ''instances'', n], [])" by (simp add: p_def)
  have "map (\<lambda>c. if uri_unreserved c then [c] else [CHR ''%'', upper_hex_char (of_char c div 16), upper_hex_char (of_char c mod 16)]) n
      = map (\<lambda>c. [c]) n"
    using ch by simp
  then show "encode_uri_component n = n" by (simp only: encode_uri_component_def) simp
qed


subsection \<open>The document to write\<close>

lemma foldl_update_append:
  "distinct (keys d) \<Longrightarrow> set (keys a) \<inter> set (keys d) = {} \<Longrightarrow> foldl (\<lambda>m (key, v). AList.update key v m) a d = a @ d"
proof (induction d arbitrary: a)
  case (Cons e d)
  obtain k v where e: "e = (k, v)" by fastforce
  have "k \<notin> set (keys a)" using Cons.prems(2) by (auto simp: e)
  then have "foldl (\<lambda>m (key, v). AList.update key v m) a (e # d) = foldl (\<lambda>m (key, v). AList.update key v m) (a @ [(k, v)]) d"
    by (simp add: e AList_update_new)
  also have "\<dots> = (a @ [(k, v)]) @ d" by (rule Cons.IH) (use Cons.prems e in auto)
  finally show ?case by (simp add: e)
qed simp

lemma applied_config_eq:
  assumes "distinct (keys d)" "\<forall>e \<in> set d. isManagedConfigKey (fst e)"
  shows "applied_config a d = filter (\<lambda>e. \<not> isManagedConfigKey (fst e)) a @ d"
proof -
  have "filter (\<lambda>(key, v). isManagedConfigKey key) d = d" using assms(2) by (auto simp: filter_id_conv)
  moreover have "filter (\<lambda>(key, v). \<not> isManagedConfigKey key) a = filter (\<lambda>e. \<not> isManagedConfigKey (fst e)) a"
    by (rule filter_cong) auto
  moreover have "set (keys (filter (\<lambda>e. \<not> isManagedConfigKey (fst e)) a)) \<inter> set (keys d) = {}" using assms(2) by auto
  ultimately show ?thesis unfolding applied_config_def by (simp only: foldl_update_append [OF assms(1)])
qed

lemma unmanaged_accepted: "\<not> isManagedConfigKey key \<Longrightarrow> checkConfigEntry key v = ALLOW"
proof -
  assume "\<not> isManagedConfigKey key"
  then have "volatile_key key \<or> starts_with ''image.'' key"
    by (simp add: isManagedConfigKey_def unmanagedConfigPrefixes_def volatile_key_def)
  then show ?thesis by (elim disjE) (simp_all add: checkConfigEntry_def)
qed

lemma spec_config_managed: "spec_ok spec \<Longrightarrow> \<forall>e \<in> set (spec_config spec). isManagedConfigKey (fst e)"
  by (simp add: spec_ok_def entry_ok_def)

text \<open>An instance document as Incus reports it, of an instance that is neither ephemeral nor stateful.\<close>

definition incus_instance :: "js_object \<Rightarrow> bool" where
  "incus_instance doc \<longleftrightarrow> distinct (keys (copyStringMap (js_get doc ''config'')))
     \<and> (case js_get doc ''architecture'' of None \<Rightarrow> True | Some v \<Rightarrow> is_string v)
     \<and> (case js_get doc ''description'' of None \<Rightarrow> True | Some v \<Rightarrow> is_string v)
     \<and> js_get doc ''ephemeral'' \<in> {None, Some (JBool False)} \<and> js_get doc ''stateful'' \<in> {None, Some (JBool False)}"

abbreviation actual_config :: "js_object \<Rightarrow> string_map" where
  "actual_config doc \<equiv> copyStringMap (js_get doc ''config'')"

abbreviation actual_devices :: "js_object \<Rightarrow> device_map" where
  "actual_devices doc \<equiv> copyDeviceMap (js_get doc ''devices'')"

lemma kept_field_get:
  "js_get (kept_field doc k @ r) k' = (if k = k' then (case js_get doc k of None \<Rightarrow> js_get r k' | Some v \<Rightarrow> Some v) else js_get r k')"
  by (simp add: kept_field_def split: option.split)

lemma managed_put_fields:
  "js_get (managed_put doc spec) ''config'' = Some (string_json (applied_config (actual_config doc) (spec_config spec)))"
  "js_get (managed_put doc spec) ''devices'' = Some (devices_json (spec_devices spec))"
  "js_get (managed_put doc spec) ''profiles'' = Some (JArr [])"
  "js_get (managed_put doc spec) ''ephemeral'' = js_get doc ''ephemeral''"
  "js_get (managed_put doc spec) ''stateful'' = js_get doc ''stateful''"
  using kept_field_get [of doc "''stateful''" "[]"]
  by (simp_all add: managed_put_def applyManagedFields_def kept_field_get split: option.split del: map_of_append)

lemma managed_put_schema:
  assumes "incus_instance doc"
  shows "fieldsProblem (managed_put doc spec) INSTANCE_UPDATE_FIELDS ''instance'' = None"
proof -
  have kept: "fieldsProblem (kept_field doc key @ r) INSTANCE_UPDATE_FIELDS ''instance'' = fieldsProblem r INSTANCE_UPDATE_FIELDS ''instance''"
    if "map_of INSTANCE_UPDATE_FIELDS key = Some check" "\<forall>v. js_get doc key = Some v \<longrightarrow> check v" for key check r
    using that by (simp add: kept_field_def split: option.split)
  have "\<forall>v. js_get doc ''architecture'' = Some v \<longrightarrow> is_string v" "\<forall>v. js_get doc ''description'' = Some v \<longrightarrow> is_string v"
      "\<forall>v. js_get doc ''ephemeral'' = Some v \<longrightarrow> is_boolean v" "\<forall>v. js_get doc ''stateful'' = Some v \<longrightarrow> is_boolean v"
    using assms by (auto simp: incus_instance_def)
  note k = this [THEN kept [rotated]]
  have schema: "map_of INSTANCE_UPDATE_FIELDS ''architecture'' = Some is_string" "map_of INSTANCE_UPDATE_FIELDS ''config'' = Some is_record"
    "map_of INSTANCE_UPDATE_FIELDS ''description'' = Some is_string" "map_of INSTANCE_UPDATE_FIELDS ''devices'' = Some is_record"
    "map_of INSTANCE_UPDATE_FIELDS ''ephemeral'' = Some is_boolean" "map_of INSTANCE_UPDATE_FIELDS ''profiles'' = Some is_array"
    "map_of INSTANCE_UPDATE_FIELDS ''stateful'' = Some is_boolean"
    by (simp_all add: INSTANCE_UPDATE_FIELDS_def)
  have last: "fieldsProblem (kept_field doc ''stateful'') INSTANCE_UPDATE_FIELDS ''instance'' = None"
    using k(4) [of "[]"] by (simp add: schema)
  show ?thesis
    by (simp add: managed_put_def applyManagedFields_def k last schema string_json_def devices_json_def)
qed

lemma put_keeps_volatile:
  assumes "spec_ok spec" "incus_instance doc"
  shows "withCurrentVolatile (managed_put doc spec) (actual_config doc) up = Allowed (JsonBody (managed_put doc spec)) up"
proof -
  define c where "c = applied_config (actual_config doc) (spec_config spec)"
  have managed: "\<forall>e \<in> set (spec_config spec). isManagedConfigKey (fst e)" by (rule spec_config_managed [OF assms(1)])
  have ceq: "c = filter (\<lambda>e. \<not> isManagedConfigKey (fst e)) (actual_config doc) @ spec_config spec"
    unfolding c_def by (rule applied_config_eq [OF _ managed]) (use assms(1) in \<open>simp add: spec_ok_def\<close>)
  have same: "(if \<not> volatile_key k then [(k, JStr v)]
      else case map_of (actual_config doc) k of Some c \<Rightarrow> [(k, JStr c)] | None \<Rightarrow> []) = [(k, JStr v)]" if "(k, v) \<in> set c" for k v
  proof (cases "volatile_key k")
    case True
    then have "\<not> isManagedConfigKey k" by (simp add: isManagedConfigKey_def unmanagedConfigPrefixes_def volatile_key_def)
    then have "(k, v) \<in> set (actual_config doc)" using that managed by (auto simp: ceq)
    then have "map_of (actual_config doc) k = Some v" using assms(2) by (simp add: incus_instance_def)
    with True show ?thesis by (simp del: map_of_eq_Some_iff)
  qed simp
  define rewritten where "rewritten = concat (map (\<lambda>(key, v). if \<not> volatile_key key then [(key, v)]
      else case map_of (actual_config doc) key of Some c \<Rightarrow> [(key, JStr c)] | None \<Rightarrow> []) (map (\<lambda>(k, v). (k, JStr v)) c))"
  have "rewritten = concat (map (\<lambda>(k, v). [(k, JStr v)]) c)"
    unfolding rewritten_def map_map o_def
    by (rule arg_cong [where f = concat], rule map_cong [OF refl]) (use same in \<open>auto simp del: map_of_eq_Some_iff\<close>)
  also have "\<dots> = map (\<lambda>(k, v). (k, JStr v)) c" by (induction c) auto
  finally have r: "JObj rewritten = string_json c" by (simp add: string_json_def)
  have cfg: "js_get (managed_put doc spec) ''config'' = Some (JObj (map (\<lambda>(k, v). (k, JStr v)) c))"
    using managed_put_fields(1) by (simp add: c_def string_json_def)
  have "AList.update ''config'' (JObj rewritten) (managed_put doc spec) = managed_put doc spec"
    unfolding r c_def by (simp add: managed_put_def applyManagedFields_def kept_field_def split: option.splits)
  then show ?thesis
    unfolding withCurrentVolatile_def cfg option.case json.case Let_def rewritten_def [symmetric] by simp
qed


subsection \<open>The comparison\<close>

lemma compareConfig_empty:
  "compareConfig a d = [] \<longleftrightarrow>
     (\<forall>key. isManagedConfigKey key \<longrightarrow> normalizeManagedValue key (map_of a key) = normalizeManagedValue key (map_of d key))"
proof -
  have "normalizeManagedValue key (map_of a key) = normalizeManagedValue key (map_of d key)"
    if "key \<notin> set (keys a)" "key \<notin> set (keys d)" for key
    using that map_of_eq_None_iff [of a key] map_of_eq_None_iff [of d key] by simp
  then show ?thesis unfolding compareConfig_def Let_def by (auto simp: filter_empty_conv simp del: set_map)
qed

lemma deviceMatches_iff: "deviceMatches a d \<longleftrightarrow> rel_option (\<lambda>a d. map_of a = map_of d) a d"
proof (cases a; cases d)
  fix x y assume xy: "a = Some x" "d = Some y"
  have "map_of x key = map_of y key" if "key \<notin> set (keys x)" "key \<notin> set (keys y)" for key
    using that map_of_eq_None_iff [of x key] map_of_eq_None_iff [of y key] by simp
  then show ?thesis by (auto simp: deviceMatches_def xy list_all_iff fun_eq_iff simp del: set_map)
qed (simp_all add: deviceMatches_def)

lemma compareDevices_empty:
  "compareDevices a d = [] \<longleftrightarrow> (\<forall>name. rel_option (\<lambda>a d. map_of a = map_of d) (map_of a name) (map_of d name))"
proof -
  have "deviceMatches (map_of a name) (map_of d name)" if "name \<notin> set (keys a)" "name \<notin> set (keys d)" for name
    using that map_of_eq_None_iff [of a name] map_of_eq_None_iff [of d name] by (simp add: deviceMatches_def)
  then show ?thesis
    unfolding compareDevices_def deviceMatches_iff [symmetric] by (auto simp: filter_empty_conv simp del: set_map)
qed

lemma validateEth0_weaker: "validateEth0 ds Desired = None \<Longrightarrow> validateEth0 ds s = None"
  by (auto simp: validateEth0_def eth0_failure_def Let_def split: option.splits if_split_asm)

lemma compare_empty:
  assumes "validateEth0 (spec_devices spec) Desired = None"
  shows "diff_empty (compareManagedFields doc spec) \<longleftrightarrow>
     validateEth0 (actual_devices doc) Actual = None
     \<and> (\<forall>key. isManagedConfigKey key \<longrightarrow>
          normalizeManagedValue key (map_of (actual_config doc) key) = normalizeManagedValue key (map_of (spec_config spec) key))
     \<and> (\<forall>name. rel_option (\<lambda>a d. map_of a = map_of d) (map_of (actual_devices doc) name) (map_of (spec_devices spec) name))
     \<and> \<not> has_profiles doc"
proof -
  have never: "\<not> diff_empty f" if "validateEth0 ds Actual = Some f" for ds f
    using that by (auto simp: validateEth0_def eth0_failure_def diff_empty_def split: option.splits if_split_asm)
  show ?thesis
  proof (cases "validateEth0 (actual_devices doc) Actual")
    case None
    then show ?thesis
      unfolding compareConfig_empty [symmetric] compareDevices_empty [symmetric]
      using assms by (simp add: compareManagedFields_def diff_empty_def Let_def)
  next
    case (Some f)
    then show ?thesis using never [OF Some] by (simp add: compareManagedFields_def)
  qed
qed

lemma copyDeviceMap_json [simp]: "copyDeviceMap (Some (devices_json ds)) = ds"
proof -
  have "map (\<lambda>(name, device). (name, copyStringMap (Some device))) (map (\<lambda>(n, d). (n, string_json d)) ds) = ds"
    by (induction ds) auto
  then show ?thesis by (simp add: copyDeviceMap_def devices_json_def)
qed

lemma put_config:
  assumes "spec_ok spec"
  shows "applied_config (actual_config doc) (spec_config spec)
      = filter (\<lambda>e. \<not> isManagedConfigKey (fst e)) (actual_config doc) @ spec_config spec"
  by (rule applied_config_eq [OF _ spec_config_managed [OF assms]]) (use assms in \<open>simp add: spec_ok_def\<close>)

lemma put_config_get:
  assumes "spec_ok spec"
  shows "map_of (applied_config (actual_config doc) (spec_config spec)) key
      = (if isManagedConfigKey key then map_of (spec_config spec) key else map_of (actual_config doc) key)"
proof -
  have "map_of (spec_config spec) key = None" if "\<not> isManagedConfigKey key"
    using that spec_config_managed [OF assms] by (auto simp: map_of_eq_None_iff)
  then show ?thesis
    unfolding put_config [OF assms] map_of_append map_add_def map_of_filter_key [of "\<lambda>k. \<not> isManagedConfigKey k"]
    by (simp split: option.split)
qed

lemma put_compares_equal:
  assumes "spec_ok spec"
  shows "diff_empty (compareManagedFields (managed_put doc spec) spec)"
    "\<forall>key. \<not> isManagedConfigKey key \<longrightarrow> map_of (actual_config (managed_put doc spec)) key = map_of (actual_config doc) key"
proof -
  have parts: "map_of (actual_config (managed_put doc spec)) key
      = (if isManagedConfigKey key then map_of (spec_config spec) key else map_of (actual_config doc) key)" for key
    unfolding managed_put_fields stringMap_json by (rule put_config_get [OF assms])
  show "\<forall>key. \<not> isManagedConfigKey key \<longrightarrow> map_of (actual_config (managed_put doc spec)) key = map_of (actual_config doc) key"
    unfolding parts by simp
  have eth0: "validateEth0 (spec_devices spec) Desired = None" using assms by (simp add: spec_ok_def)
  have "rel_option (\<lambda>a d. map_of a = map_of d) x x" for x :: "string_map option" by (cases x) simp_all
  then show "diff_empty (compareManagedFields (managed_put doc spec) spec)"
    unfolding compare_empty [OF eth0] parts managed_put_fields(2) copyDeviceMap_json
    using validateEth0_weaker [OF eth0] by (simp add: has_profiles_def managed_put_fields(3))
qed

lemma put_accepted:
  assumes "spec_ok spec" "incus_instance doc" "jsonBody (parse_json E) raw = Some (managed_put doc spec)"
    and "read_current E path = Some doc"
  shows "\<exists>up. checkInstanceUpdate E \<lparr>req_method = PUT, req_path = p, req_body = raw\<rparr> path
      = Allowed (JsonBody (managed_put doc spec)) up"
proof -
  define c where "c = applied_config (actual_config doc) (spec_config spec)"
  have "\<forall>e \<in> set (spec_config spec). checkConfigEntry (fst e) (snd e) = ALLOW"
    using assms(1) by (simp add: spec_ok_def entry_ok_def)
  then have entries: "\<forall>e \<in> set c. checkConfigEntry (fst e) (snd e) = ALLOW"
    unfolding c_def put_config [OF assms(1)] using unmanaged_accepted by auto
  have keys: "isManagedConfigKey ''security.idmap.isolated''" "isManagedConfigKey ''security.privileged''"
    by (simp_all add: isManagedConfigKey_def unmanagedConfigPrefixes_def)
  have secure: "map_of c ''security.idmap.isolated'' = Some ''true''" "map_of c ''security.privileged'' = Some ''false''"
    unfolding c_def put_config_get [OF assms(1)] using assms(1) keys by (simp_all add: spec_ok_def del: map_of_eq_Some_iff)
  have devices: "\<forall>d \<in> set (spec_devices spec). device_ok d" using assms(1) by (auto simp: spec_ok_def)
  have plain: "js_get doc ''ephemeral'' \<noteq> Some (JBool True)" "js_get doc ''stateful'' \<noteq> Some (JBool True)"
    using assms(2) by (auto simp: incus_instance_def)
  have "checkInstanceDocument (managed_put doc spec) options = ALLOW" for options
    by (rule document_accepted [OF _ _ _ _ _ entries secure devices]) (use plain in \<open>simp_all add: managed_put_fields c_def\<close>)
  moreover have "stringMap v = copyStringMap v" for v by (simp add: stringMap_def copyStringMap_def)
  ultimately show ?thesis
    using assms(3,4) managed_put_schema [OF assms(2)] put_keeps_volatile [OF assms(1,2)]
    by (simp add: checkInstanceUpdate_def)
qed


subsection \<open>CPU texts\<close>

lemma show_nat_hd: "n \<noteq> 0 \<Longrightarrow> hd (show_nat n) \<noteq> CHR ''0''"
proof (induction n rule: show_nat.induct)
  case (1 n)
  show ?case
  proof (cases "n < 10")
    case True
    then have "digit_val (digit_char n) = n" by (rule digit_val_digit_char)
    then have "digit_char n \<noteq> CHR ''0''" using \<open>n \<noteq> 0\<close> by (auto simp: digit_val_def)
    with True show ?thesis by (simp add: show_nat.simps [of n])
  next
    case False
    then have "hd (show_nat (n div 10)) \<noteq> CHR ''0''" using 1(1) by simp
    with False show ?thesis by (subst show_nat.simps) simp
  qed
qed

lemma strip_show: "strip_leading_zeros (show_nat n) = show_nat n"
proof (cases "n = 0")
  case True
  have "show_nat 0 = ''0''" by (subst show_nat.simps) (simp add: digit_char_eval)
  with True show ?thesis by (simp add: strip_leading_zeros_def)
next
  case False
  then have "dropWhile (\<lambda>c. c = CHR ''0'') (show_nat n) = show_nat n"
    using show_nat_hd [OF False] by (cases "show_nat n") auto
  then show ?thesis by (simp add: strip_leading_zeros_def)
qed

lemma show_nat_chars:
  "c \<in> set (show_nat n) \<Longrightarrow> is_digit c" "CHR ''.'' \<notin> set (show_nat n)" "CHR ''-'' \<notin> set (show_nat n)" "CHR '','' \<notin> set (show_nat n)"
  using show_nat_digits [of n] by (auto simp: is_digit_def)

lemma digit_lower: "is_digit c \<Longrightarrow> lower_char c = c"
  by (auto simp: lower_char_def is_digit_def is_upper_def)

lemma single_cpu_texts:
  assumes "int n \<le> max_safe_integer"
  shows "canonicalCpu (show_nat n) = Some (show_nat n)" "canonicalCpu (show_nat n @ ''-'' @ show_nat n) = Some (show_nat n)"
proof -
  define t where "t = show_nat n @ ''-'' @ show_nat n"
  have ends: "is_digit (hd (show_nat n))" "is_digit (last (show_nat n))" by (rule show_nat_chars(1) [where n = n], simp)+
  have lower: "to_lower (show_nat n) = show_nat n" using show_nat_chars(1) digit_lower by (simp add: to_lower_def map_idI)
  have trim: "js_trim (show_nat n) = show_nat n" "js_trim t = t"
    using ends by (auto intro!: js_trim_id simp: t_def)
  have single: "split_char (CHR ''.'') (show_nat n) = [show_nat n]" "split_char (CHR ''.'') t = [t]"
    using show_nat_chars(2) by (auto intro!: split_char_id simp: t_def)
  show "canonicalCpu (show_nat n) = Some (show_nat n)"
    by (simp add: canonicalCpu_def trim lower canonicalDecimal_def single show_nat_all_digits strip_show)
  have "to_lower ''-'' = ''-''" by (simp add: to_lower_def lower_char_def is_upper_def)
  then have lt: "to_lower t = t" unfolding t_def to_lower_append lower by simp
  have "\<not> all_digits t" by (simp add: t_def all_digits_def is_digit_def)
  then have dec: "canonicalDecimal t = None" by (simp add: canonicalDecimal_def single)
  have "last t \<noteq> CHR ''%''" using ends(2) by (auto simp: t_def is_digit_def)
  then have pct: "\<not> ends_with ''%'' t" by (auto simp: ends_with_iff)
  have toks: "split_char (CHR '','') t = [t]" using show_nat_chars(4) by (auto intro!: split_char_id simp: t_def)
  have dash: "split_char (CHR ''-'') t = [show_nat n, show_nat n]"
    using show_nat_chars(3) by (simp add: t_def split_char_append split_char_id)
  have tok: "cpu_token t = Some [n]"
    using assms by (simp add: cpu_token_def dash show_nat_all_digits)
  show "canonicalCpu (show_nat n @ ''-'' @ show_nat n) = Some (show_nat n)"
    unfolding t_def [symmetric]
    by (simp add: canonicalCpu_def trim lt dec pct toks tok cpu_ranges_def cpu_range_text_def) (simp add: t_def)
qed

lemma format_single: "0 \<le> n \<Longrightarrow> n \<le> max_safe_integer \<Longrightarrow> formatCpuSet [n] = Some (show_nat (nat n) @ ''-'' @ show_nat (nat n))"
  by (simp add: formatCpuSet_def range_text_def)


subsection \<open>Guest MAC addresses\<close>

lemma digits_val_inj:
  assumes "is_octet p"
  shows "show_nat (digits_val p) = p"
proof -
  have "all_digits p" "p = ''0'' \<or> hd p \<noteq> CHR ''0''" using assms by (auto simp: is_octet_def)
  then show ?thesis
  proof (induction p rule: rev_induct)
    case (snoc c p)
    have c: "is_digit c" using snoc.prems(1) by (simp add: all_digits_def)
    then have dv: "digit_val c < 10" "digit_char (digit_val c) = c"
      by (auto simp: is_digit_def digit_val_def digit_char_def)
    show ?case
    proof (cases "p = []")
      case True
      with dv show ?thesis by (simp add: digits_val_def show_nat.simps)
    next
      case False
      then have p: "all_digits p" "hd p \<noteq> CHR ''0''" using snoc.prems by (auto simp: all_digits_def)
      then have IH: "show_nat (digits_val p) = p" using snoc.IH by simp
      have "digits_val p \<noteq> 0"
      proof
        assume "digits_val p = 0"
        then have "p = show_nat 0" using IH by simp
        then show False using p(2) by (simp add: show_nat.simps digit_char_eval)
      qed
      then have "digits_val (p @ [c]) \<ge> 10" "digits_val (p @ [c]) div 10 = digits_val p" "digits_val (p @ [c]) mod 10 = digit_val c"
        using dv(1) by (simp_all add: digits_val_snoc)
      then show ?thesis using IH dv(2) by (subst show_nat.simps) simp
    qed
  qed (simp add: all_digits_def)
qed

lemma hex_char_inj: "a < 16 \<Longrightarrow> b < 16 \<Longrightarrow> hex_char a = hex_char b \<Longrightarrow> a = b"
  by (auto simp: hex_char_def char_of_eq_iff take_bit_nat_eq_self split: if_split_asm)

lemma byte_hex_inj: "a < 256 \<Longrightarrow> b < 256 \<Longrightarrow> byte_hex a = byte_hex b \<Longrightarrow> a = b"
proof -
  assume "a < 256" "b < 256" "byte_hex a = byte_hex b"
  then have "a div 16 = b div 16" "a mod 16 = b mod 16"
    using hex_char_inj [of "a div 16" "b div 16"] hex_char_inj [of "a mod 16" "b mod 16"] by (simp_all add: byte_hex_def)
  then show "a = b" by (metis div_mult_mod_eq)
qed

lemma join_str_chars: "c \<notin> set sep \<Longrightarrow> \<forall>p \<in> set ps. c \<notin> set p \<Longrightarrow> c \<notin> set (join_str sep ps)"
  by (induction sep ps rule: join_str.induct) auto

lemma is_ipv4_valid: "is_ipv4 v \<Longrightarrow> validateIpv4 v l = Inr v"
proof -
  assume v: "is_ipv4 v"
  then have "\<forall>p \<in> set (split_char (CHR ''.'') v). CHR ''/'' \<notin> set p"
    by (fastforce simp: is_ipv4_def is_octet_def all_digits_def list_all_iff is_digit_def Let_def)
  then have "CHR ''/'' \<notin> set (join_str ''.'' (split_char (CHR ''.'') v))" by (intro join_str_chars) simp_all
  then show ?thesis using v by (simp add: validateIpv4_Inr join_split)
qed

lemma map_inj_on_eq: "map f xs = map f ys \<Longrightarrow> inj_on f A \<Longrightarrow> set xs \<subseteq> A \<Longrightarrow> set ys \<subseteq> A \<Longrightarrow> xs = ys"
  by (metis inj_on_map_eq_map inj_on_subset le_sup_iff)

lemma guest_mac_inj:
  assumes "is_ipv4 a" "is_ipv4 b" "deriveGuestHwaddr a = deriveGuestHwaddr b"
  shows "a = b"
proof -
  define parts where "parts v = split_char (CHR ''.'') v" for v
  define bytes where "bytes v = GUEST_HWADDR_PREFIX @ map digits_val (parts v)" for v
  have octets: "\<forall>p \<in> set (parts v). is_octet p" if "is_ipv4 v" for v
    using that by (simp add: is_ipv4_def list_all_iff parts_def Let_def)
  then have small: "set (bytes v) \<subseteq> {..<256}" if "is_ipv4 v" for v
    using that by (fastforce simp: bytes_def GUEST_HWADDR_PREFIX_def is_octet_def)
  have "\<forall>x \<in> set (map byte_hex (bytes v)). CHR '':'' \<notin> set x" if "is_ipv4 v" for v
  proof -
    have hex: "CHR '':'' \<noteq> hex_char n" if "n < 16" for n
      using that by (auto simp: hex_char_def eq_commute [of "CHR '':''"] char_of_eq)
    have "CHR '':'' \<notin> set (byte_hex x)" if "x < 256" for x
      using that hex [of "x div 16"] hex [of "x mod 16"] by (simp add: byte_hex_def)
    then show ?thesis using small [OF that] by auto
  qed
  then have split: "split_char (CHR '':'') (join_str '':'' (map byte_hex (bytes v))) = map byte_hex (bytes v)" if "is_ipv4 v" for v
    using that by (intro split_join) (auto simp: bytes_def GUEST_HWADDR_PREFIX_def)
  have "join_str '':'' (map byte_hex (bytes a)) = join_str '':'' (map byte_hex (bytes b))"
    using assms by (simp add: deriveGuestHwaddr_def is_ipv4_valid bytes_def parts_def)
  then have "map byte_hex (bytes a) = map byte_hex (bytes b)" using split assms(1,2) by metis
  moreover have "inj_on byte_hex {..<256}" by (auto simp: inj_on_def byte_hex_inj)
  ultimately have "bytes a = bytes b" using small assms(1,2) by (metis map_inj_on_eq)
  then have "map show_nat (map digits_val (parts a)) = map show_nat (map digits_val (parts b))" by (simp add: bytes_def)
  then have "parts a = parts b"
    using octets assms(1,2) digits_val_inj by (simp add: map_idI)
  then show ?thesis by (metis join_split parts_def)
qed


subsection \<open>Properties\<close>

text \<open>C7. Every document the Backend builds for a container row is one the agent creates an instance from: whatever
  the row, its attachments (outside \<open>/proc\<close>, \<open>/sys\<close> and \<open>/dev\<close>, as the API requires), its CPUs, its GPU
  state and the platform limits are, if \<open>buildContainerSpec\<close> answers a document then the policy forwards that
  document unchanged, and does not take it for one that brings a guest NIC up.\<close>

theorem desired_document_accepted:
  assumes "buildContainerSpec sha256 row as cs limits = Inr spec" "sha256_hex sha256"
    and "\<forall>a \<in> set as. \<not> isForbiddenContainerMountPath (container_path a)"
    and "jsonBody (parse_json E) raw = Some (spec_json spec)"
  shows "checkIncusHttp E knows \<lparr>req_method = POST, req_path = ''/1.0/instances'', req_body = raw\<rparr> l
    = (Allowed (JsonBody (spec_json spec)) False, l)"
proof -
  have "spec_ok spec" by (rule container_spec_ok [OF assms(1-3)])
  from create_document_accepted [OF this assms(4)] show ?thesis
    by (simp add: checkIncusHttp_def instances_path seg_def checkInstances_def)
qed

text \<open>C8. Every update the Backend writes converges: for a document it built, and any instance Incus reports, the
  body of the \<open>PUT\<close> passes the policy and is forwarded unchanged; an instance with that content compares equal to
  the desired document; and the keys Incus owns keep the values they had.\<close>

theorem update_converges:
  assumes "buildContainerSpec sha256 row as cs limits = Inr spec" "sha256_hex sha256"
    and "\<forall>a \<in> set as. \<not> isForbiddenContainerMountPath (container_path a)"
    and "incus_instance doc" "jsonBody (parse_json E) raw = Some (managed_put doc spec)"
    and "read_current E (''/1.0/instances/'' @ spec_name spec) = Some doc"
  shows "(\<exists>up. checkIncusHttp E knows \<lparr>req_method = PUT, req_path = ''/1.0/instances/'' @ spec_name spec, req_body = raw\<rparr> l
        = (Allowed (JsonBody (managed_put doc spec)) up, l))
    \<and> diff_empty (compareManagedFields (managed_put doc spec) spec)
    \<and> (\<forall>key. \<not> isManagedConfigKey key \<longrightarrow>
         map_of (actual_config (managed_put doc spec)) key = map_of (actual_config doc) key)"
proof -
  have ok: "spec_ok spec" by (rule container_spec_ok [OF assms(1-3)])
  then have name: "MANAGED_INSTANCE_NAME_PATTERN (spec_name spec)" by (simp add: spec_ok_def)
  note path = instance_path [OF name]
  obtain up where "checkInstanceUpdate E \<lparr>req_method = PUT, req_path = ''/1.0/instances/'' @ spec_name spec, req_body = raw\<rparr>
      (''/1.0/instances/'' @ spec_name spec) = Allowed (JsonBody (managed_put doc spec)) up"
    using put_accepted [OF ok assms(4-6)] by blast
  then have "checkIncusHttp E knows \<lparr>req_method = PUT, req_path = ''/1.0/instances/'' @ spec_name spec, req_body = raw\<rparr> l
      = (Allowed (JsonBody (managed_put doc spec)) up, l)"
    unfolding checkIncusHttp_def policy_request.select_convs path(1)
    by (simp add: seg_def checkInstances_def isManagedInstance_def name path(2))
  then show ?thesis using put_compares_equal [OF ok] by blast
qed

text \<open>C29. The comparison of an instance with a desired document that names its NIC answers \<open>empty\<close> exactly when the
  instance has a bridged \<open>eth0\<close>, every config key the platform owns reads the same after normalisation, the
  devices are the same ones with the same values, and there is no profile: an unknown key, an extra device
  or a missing one always shows.\<close>

theorem comparison_exact:
  assumes "validateEth0 (spec_devices spec) Desired = None"
  shows "diff_empty (compareManagedFields doc spec) \<longleftrightarrow>
     validateEth0 (actual_devices doc) Actual = None
     \<and> (\<forall>key. isManagedConfigKey key \<longrightarrow>
          normalizeManagedValue key (map_of (actual_config doc) key) = normalizeManagedValue key (map_of (spec_config spec) key))
     \<and> (\<forall>name. rel_option (\<lambda>a d. map_of a = map_of d) (map_of (actual_devices doc) name) (map_of (spec_devices spec) name))
     \<and> \<not> has_profiles doc"
  by (rule compare_empty [OF assms])

text \<open>C40. The normalisation of \<open>limits.cpu\<close> does not tell a number of CPUs from one pinned CPU: the count \<open>n\<close> and
  the set of the one CPU \<open>n\<close>, which \<open>formatCpuSet\<close> writes as a range so that the two differ, have the same
  normal form, so the comparison never shows an instance that lost its pinning that way.\<close>

theorem cpu_count_drift_unseen:
  assumes "0 \<le> n" "n \<le> max_safe_integer"
  shows "\<exists>t. formatCpuSet [n] = Some t \<and> t \<noteq> show_nat (nat n) \<and> \<not> CPUSET_PATTERN (show_nat (nat n))
    \<and> normalizeManagedValue ''limits.cpu'' (Some t) = normalizeManagedValue ''limits.cpu'' (Some (show_nat (nat n)))"
proof -
  have n: "int (nat n) \<le> max_safe_integer" using assms by simp
  have "split_char (CHR '','') (show_nat (nat n)) = [show_nat (nat n)]" "split_char (CHR ''-'') (show_nat (nat n)) = [show_nat (nat n)]"
    using show_nat_chars by (simp_all add: split_char_id)
  then have "\<not> CPUSET_PATTERN (show_nat (nat n))" by (simp add: CPUSET_PATTERN_def is_cpu_range_def)
  moreover have "normalizeManagedValue ''limits.cpu'' (Some t) = Some (show_nat (nat n))"
    if "canonicalCpu t = Some (show_nat (nat n))" for t
    by (simp add: normalizeManagedValue_def that)
  note this [OF single_cpu_texts(1) [OF n]] this [OF single_cpu_texts(2) [OF n]]
  moreover have "show_nat (nat n) @ ''-'' @ show_nat (nat n) \<noteq> show_nat (nat n)" by (simp only: append_self_conv) simp
  ultimately show ?thesis unfolding format_single [OF assms] by (intro exI conjI) (rule refl | assumption | simp only:)+
qed

text \<open>Two guests have the same MAC address only if they have the same IPv4 address: \<open>deriveGuestHwaddr\<close> answers
  for every IPv4 address and is injective.\<close>

theorem guest_mac_injective:
  assumes "is_ipv4 a" "is_ipv4 b"
  shows "(\<exists>m. deriveGuestHwaddr a = Inr m) \<and> (deriveGuestHwaddr a = deriveGuestHwaddr b \<longleftrightarrow> a = b)"
  using guest_mac_inj [OF assms] is_ipv4_valid [OF assms(1)] by (auto simp: deriveGuestHwaddr_def)


subsection \<open>A container\<close>

definition zero_sha256 :: "string \<Rightarrow> string" where
  "zero_sha256 s = replicate 64 (CHR ''0'')"

definition sample_row :: container_row where
  "sample_row = \<lparr>row_id = ''0123456789abcdef0123456789abcdef'', row_name = ''web'',
     row_server_id = ''00112233-4455-4677-8899-aabbccddeeff'', row_revision = 3,
     row_image_fingerprint = replicate 64 (CHR ''a''), row_mem_bytes = ''512'', row_nesting = True,
     row_syscall_intercept = True, row_root_pool = ''default'', row_root_size = ''100'',
     row_routed_ip = Some ''10.0.0.7'', row_server_name = ''rack'', row_parent_interface = Some ''br0'',
     row_gpu_enabled = True,
     row_gpu_state = Some (JObj [(''nvidiaRuntime'', JBool True), (''pciAddresses'', JArr [JStr ''0000:01:00.0''])])\<rparr>"

definition sample_attachment :: spec_attachment where
  "sample_attachment = \<lparr>attachment_id = replicate 32 (CHR ''b''), volume_id = replicate 32 (CHR ''c''),
     incus_name = ''nyv-'' @ replicate 32 (CHR ''c''), pool_name = ''default'', container_path = ''/data'', read_only = True\<rparr>"

definition sample_limits :: runtime_limits where
  "sample_limits = \<lparr>limit_processes = 40, ingress_mbit = 10, egress_mbit = 10, disk_read_mbps = 5, disk_write_mbps = 5\<rparr>"

definition sample_built :: "spec_error + instance_spec" where
  "sample_built = buildContainerSpec zero_sha256 sample_row [sample_attachment] [1] sample_limits"

definition sample_spec :: instance_spec where
  "sample_spec = projr sample_built"

lemma sample_built_ok: "\<not> isl sample_built"
  by code_simp

lemma sample_built_eq: "buildContainerSpec zero_sha256 sample_row [sample_attachment] [1] sample_limits = Inr sample_spec"
  using sample_built_ok unfolding sample_spec_def sample_built_def by simp

lemma sample_sha: "sha256_hex zero_sha256"
  by (simp add: sha256_hex_def zero_sha256_def list_all_iff is_lower_hex_def is_digit_def)

lemma sample_mount: "\<forall>a \<in> set [sample_attachment]. \<not> isForbiddenContainerMountPath (container_path a)"
  by code_simp

text \<open>The instance Incus reports: its volatile key, a profile and a wrong limit.\<close>

definition sample_instance :: js_object where
  "sample_instance = [(''architecture'', JStr ''x86_64''), (''status'', JStr ''Running''),
     (''config'', JObj [(''volatile.uuid'', JStr ''u''), (''limits.cpu'', JStr ''4'')]), (''ephemeral'', JBool False),
     (''profiles'', JArr [JStr ''default''])]"

definition sample_policy :: "js_object \<Rightarrow> policy_env" where
  "sample_policy body = \<lparr>parse_json = (\<lambda>_. Some (JObj body)), parse_url = (\<lambda>_. None), read_current = (\<lambda>_. Some sample_instance)\<rparr>"

theorem desired_document_accepted_witness:
  "buildContainerSpec zero_sha256 sample_row [sample_attachment] [1] sample_limits = Inr sample_spec
   \<and> checkIncusHttp (sample_policy (spec_json sample_spec)) (\<lambda>l oid. (False, l))
       \<lparr>req_method = POST, req_path = ''/1.0/instances'', req_body = Some ''{}''\<rparr> ()
     = (Allowed (JsonBody (spec_json sample_spec)) False, ())"
proof -
  have "jsonBody (parse_json (sample_policy (spec_json sample_spec))) (Some ''{}'') = Some (spec_json sample_spec)"
    by (simp add: jsonBody_def sample_policy_def)
  with desired_document_accepted [OF sample_built_eq sample_sha sample_mount, where knows = "\<lambda>l oid. (False, l)" and l = "()"]
    sample_built_eq show ?thesis by blast
qed

theorem update_converges_witness:
  "diff_empty (compareManagedFields (managed_put sample_instance sample_spec) sample_spec)
   \<and> map_of (actual_config (managed_put sample_instance sample_spec)) ''volatile.uuid'' = Some ''u''"
proof -
  define E where "E = sample_policy (managed_put sample_instance sample_spec)"
  have raw: "jsonBody (parse_json E) (Some ''{}'') = Some (managed_put sample_instance sample_spec)"
    by (simp add: jsonBody_def E_def sample_policy_def)
  have doc: "incus_instance sample_instance"
    by (simp add: incus_instance_def sample_instance_def copyStringMap_def)
  have cur: "read_current E (''/1.0/instances/'' @ spec_name sample_spec) = Some sample_instance"
    by (simp add: E_def sample_policy_def)
  have key: "\<not> isManagedConfigKey ''volatile.uuid''" by (simp add: isManagedConfigKey_def unmanagedConfigPrefixes_def)
  have old: "map_of (actual_config sample_instance) ''volatile.uuid'' = Some ''u''"
    by (simp add: sample_instance_def copyStringMap_def)
  show ?thesis
    using update_converges [OF sample_built_eq sample_sha sample_mount doc raw cur, where knows = "\<lambda>l oid. (False, l)" and l = "()"]
      key old by metis
qed

text \<open>A document with a NIC alone, and two instances.\<close>

definition nic_spec :: instance_spec where
  "nic_spec = \<lparr>spec_name = ''n'', spec_source = [], spec_config = [(''limits.processes'', ''9'')],
     spec_devices = [(''eth0'', [(''type'', ''nic''), (''nictype'', ''bridged''), (''parent'', ''br0''), (''name'', ''eth0''),
       (''hwaddr'', ''02:6e:0a:00:00:07''), (''ipv4.address'', ''10.0.0.7''), (''security.ipv4_filtering'', ''true''),
       (''security.mac_filtering'', ''true'')])]\<rparr>"

definition nic_instance :: "js_object \<Rightarrow> js_object" where
  "nic_instance extra = [(''config'', JObj ([(''limits.processes'', JStr ''9''), (''image.os'', JStr ''x'')] @ extra)),
     (''devices'', devices_json (spec_devices nic_spec))]"

lemma nic_spec_eth0: "validateEth0 (spec_devices nic_spec) Desired = None"
  by code_simp

theorem comparison_exact_witness:
  "diff_empty (compareManagedFields (nic_instance []) nic_spec)
   \<and> validateEth0 (actual_devices (nic_instance [])) Actual = None \<and> \<not> has_profiles (nic_instance [])
   \<and> \<not> diff_empty (compareManagedFields (nic_instance [(''raw.lxc'', JStr ''x'')]) nic_spec)"
proof -
  have "diff_empty (compareManagedFields (nic_instance []) nic_spec)" by code_simp
  moreover have "isManagedConfigKey ''raw.lxc''"
    "normalizeManagedValue ''raw.lxc'' (map_of (actual_config (nic_instance [(''raw.lxc'', JStr ''x'')])) ''raw.lxc'')
     \<noteq> normalizeManagedValue ''raw.lxc'' (map_of (spec_config nic_spec) ''raw.lxc'')"
    by code_simp+
  ultimately show ?thesis
    using comparison_exact [OF nic_spec_eth0, of "nic_instance []"]
      comparison_exact [OF nic_spec_eth0, of "nic_instance [(''raw.lxc'', JStr ''x'')]"] by blast
qed

theorem cpu_count_drift_unseen_witness:
  "\<exists>t. formatCpuSet [3] = Some t \<and> t \<noteq> ''3''
     \<and> normalizeManagedValue ''limits.cpu'' (Some t) = normalizeManagedValue ''limits.cpu'' (Some ''3'')"
proof -
  have "show_nat (nat 3) = ''3''" by (simp add: show_nat.simps digit_char_eval)
  with cpu_count_drift_unseen [of 3] show ?thesis by (auto simp: max_safe_integer_def)
qed

theorem guest_mac_injective_witness:
  "(\<exists>m. deriveGuestHwaddr ''10.0.0.7'' = Inr m) \<and> deriveGuestHwaddr ''10.0.0.7'' \<noteq> deriveGuestHwaddr ''10.0.0.8''"
proof -
  have "is_ipv4 ''10.0.0.7''" "is_ipv4 ''10.0.0.8''" by code_simp+
  from guest_mac_injective [OF this] show ?thesis by simp
qed

end
