(* ===== verification/Ip_Pools.thy ===== *)
theory Ip_Pools
  imports Firewall_Protocol Js_Value
begin

text \<open>
  IP pools and the addresses containers claim from them: the service
  \<open>packages/backend/src/ip-pools/ip-pools.service.ts\<close>, its repository
  \<open>packages/backend/src/ip-pools/ip-pools.repository.ts\<close>, the checks of the request bodies
  (\<open>assertIpPoolNetworkFields\<close> of \<open>packages/common/src/protocol/rest-schema.ts\<close>), the choice of an
  address (\<open>findAvailableAddress\<close> of \<open>packages/backend/src/containers/container-control.repository.ts\<close>,
  \<open>allocateAddress\<close> of \<open>packages/backend/src/containers/container-create.service.ts\<close>) and the release of
  a container's claim (\<open>releaseContainerState\<close> of
  \<open>packages/backend/src/containers/container-reconcile.store.ts\<close>).

  The state is the tables: pools, their servers, the claims, the known server ids. A transaction is one
  step; an error leaves the tables as they were. The clock is read once per transaction, in
  milliseconds. \<open>reserved_ips\<close> is the list its JSON text stands for. Constraints of the schema
  (\<open>000001_initial.sql\<close>) that the code turns into an answer are part of the step: the unique name and
  CIDR of a pool and its primary key.
\<close>

unbundle bit_operations_syntax


subsection \<open>Tables\<close>

record pool =
  pool_id :: string
  pool_name :: string
  pool_cidr :: string
  allocation_cidr :: string
  gateway :: string
  reserved_ips :: "string list"
  revision :: int

datatype claim_state = Active | Releasing

record claim =
  claim_container :: "string option"
  claim_server :: string
  network_key :: string
  address :: string
  state :: claim_state
  reusable_at :: "int option"

record pool_db =
  pools :: "pool list"
  pool_servers :: "(string \<times> string) list"
  claims :: "claim list"
  server_ids :: "string list"

datatype pool_error =
    InvalidInput string
  | CidrConflict string
  | PoolNotFound
  | RevisionConflict
  | PoolInUse string
  | Thrown ip_error


subsection \<open>Repository\<close>

definition live_claim :: "int \<Rightarrow> claim \<Rightarrow> bool" where
  "live_claim now c \<longleftrightarrow> state c = Active
     \<or> state c = Releasing \<and> (case reusable_at c of None \<Rightarrow> False | Some t \<Rightarrow> t > now)"

definition find_pool :: "string \<Rightarrow> pool_db \<Rightarrow> pool option" where
  "find_pool pid db = find (\<lambda>p. pool_id p = pid) (pools db)"

definition countClaimsForNetwork :: "int \<Rightarrow> string \<Rightarrow> string option \<Rightarrow> pool_db \<Rightarrow> nat" where
  "countClaimsForNetwork now key server db = length (filter (\<lambda>c. network_key c = key \<and> live_claim now c
     \<and> (case server of None \<Rightarrow> True | Some s \<Rightarrow> claim_server c = s)) (claims db))"

definition listClaimAddresses :: "int \<Rightarrow> string \<Rightarrow> pool_db \<Rightarrow> string list" where
  "listClaimAddresses now key db =
     map address (filter (\<lambda>c. network_key c = key \<and> live_claim now c) (claims db))"

definition listAllCidrs :: "string option \<Rightarrow> pool_db \<Rightarrow> pool list" where
  "listAllCidrs exclude db = filter (\<lambda>p. exclude \<noteq> Some (pool_id p)) (pools db)"

definition listServerIds :: "string \<Rightarrow> pool_db \<Rightarrow> string list" where
  "listServerIds pid db = map snd (filter (\<lambda>m. fst m = pid) (pool_servers db))"

definition listForServer :: "string \<Rightarrow> pool_db \<Rightarrow> pool list" where
  "listForServer s db = filter (\<lambda>p. (pool_id p, s) \<in> set (pool_servers db)) (pools db)"

definition replaceServers :: "string \<Rightarrow> string list \<Rightarrow> pool_db \<Rightarrow> pool_db" where
  "replaceServers pid ids db = db\<lparr>pool_servers :=
     filter (\<lambda>m. fst m \<noteq> pid) (pool_servers db) @ map (\<lambda>s. (pid, s)) ids\<rparr>"

definition insert_pool :: "pool \<Rightarrow> pool_db \<Rightarrow> pool_error + pool_db" where
  "insert_pool p db =
     (if list_ex (\<lambda>q. pool_id q = pool_id p \<or> pool_name q = pool_name p \<or> pool_cidr q = pool_cidr p) (pools db)
      then Inl (CidrConflict ''IP pool name or CIDR already exists'')
      else Inr (db\<lparr>pools := pools db @ [p]\<rparr>))"

definition update_pool :: "string \<Rightarrow> int \<Rightarrow> pool \<Rightarrow> pool_db \<Rightarrow> pool_error + pool_db" where
  "update_pool pid expectedRevision p db =
     (if \<not> list_ex (\<lambda>q. pool_id q = pid \<and> revision q = expectedRevision) (pools db) then Inl RevisionConflict
      else if list_ex (\<lambda>q. pool_id q \<noteq> pid \<and> (pool_name q = pool_name p \<or> pool_cidr q = pool_cidr p)) (pools db)
      then Inl (CidrConflict ''IP pool name or CIDR already exists'')
      else Inr (db\<lparr>pools := map (\<lambda>q. if pool_id q = pid \<and> revision q = expectedRevision then p else q) (pools db)\<rparr>))"


subsection \<open>Service\<close>

record create_pool_request =
  new_name :: string
  new_cidr :: string
  new_allocation :: string
  new_gateway :: string
  new_reserved :: "string list"
  new_servers :: "string list"

text \<open>A body the schema passes on: the texts are the canonical ones its transforms write,
  \<open>assertIpPoolNetworkFields\<close> reports no issue and the servers are unique.\<close>

definition create_request_ok :: "create_pool_request \<Rightarrow> bool" where
  "create_request_ok r \<longleftrightarrow>
     canonicalIpv4Cidr (new_cidr r) = Inr (new_cidr r)
     \<and> canonicalIpv4Cidr (new_allocation r) = Inr (new_allocation r)
     \<and> isUsableHostInCidr (new_cidr r) (new_gateway r)
     \<and> ipv4CidrContains (new_cidr r) (new_allocation r) = Inr True
     \<and> list_all (isUsableHostInCidr (new_cidr r)) (new_reserved r) \<and> distinct (new_reserved r)
     \<and> distinct (new_servers r)"

fun assertNoCidrOverlap :: "string \<Rightarrow> pool list \<Rightarrow> pool_error + unit" where
  "assertNoCidrOverlap cidr [] = Inr ()"
| "assertNoCidrOverlap cidr (row # rows) =
     (case ipv4CidrsOverlap cidr (pool_cidr row) of
        Inl e \<Rightarrow> Inl (Thrown e)
      | Inr overlap \<Rightarrow>
          if overlap then Inl (CidrConflict ''IP pool CIDR overlaps an existing pool'')
          else assertNoCidrOverlap cidr rows)"

definition assertServersExist :: "string list \<Rightarrow> pool_db \<Rightarrow> pool_error + unit" where
  "assertServersExist ids db =
     (if ids = [] then Inr ()
      else if length (filter (\<lambda>s. s \<in> set ids) (server_ids db)) \<noteq> length ids
      then Inl (InvalidInput ''One or more serverIds do not exist'')
      else Inr ())"

definition canonical :: "string \<Rightarrow> pool_error + string" where
  "canonical cidr = (case canonicalIpv4Cidr cidr of Inl e \<Rightarrow> Inl (Thrown e) | Inr c \<Rightarrow> Inr c)"

definition contains :: "string \<Rightarrow> string \<Rightarrow> pool_error + bool" where
  "contains outer inner = (case ipv4CidrContains outer inner of Inl e \<Rightarrow> Inl (Thrown e) | Inr b \<Rightarrow> Inr b)"

text \<open>\<open>create\<close>; the new id is an argument.\<close>

definition create_pool :: "string \<Rightarrow> create_pool_request \<Rightarrow> pool_db \<Rightarrow> pool_error + pool_db" where
  "create_pool newId r db =
     bind_res (canonical (new_cidr r)) (\<lambda>cidr.
     bind_res (canonical (new_allocation r)) (\<lambda>allocationCidr.
     bind_res (contains cidr allocationCidr) (\<lambda>inside.
       if \<not> inside then Inl (InvalidInput ''allocationCidr must be entirely contained in cidr'')
       else
         bind_res (assertNoCidrOverlap cidr (listAllCidrs None db)) (\<lambda>_.
         bind_res (assertServersExist (new_servers r) db) (\<lambda>_.
         bind_res (insert_pool \<lparr>pool_id = newId, pool_name = js_trim (new_name r), pool_cidr = cidr,
                     allocation_cidr = allocationCidr, gateway = new_gateway r,
                     reserved_ips = new_reserved r, revision = 1\<rparr> db) (\<lambda>db1.
         Inr (replaceServers newId (new_servers r) db1)))))))"

record patch_pool_request =
  expectedRevision :: int
  p_name :: "string option"
  p_cidr :: "string option"
  p_allocation :: "string option"
  p_gateway :: "string option"
  p_reserved :: "string list option"
  p_servers :: "string list option"

definition canonical_or :: "string option \<Rightarrow> string \<Rightarrow> pool_error + string" where
  "canonical_or given current = (case given of None \<Rightarrow> Inr current | Some c \<Rightarrow> canonical c)"

definition or_current :: "'a option \<Rightarrow> 'a \<Rightarrow> 'a" where
  "or_current given current = (case given of None \<Rightarrow> current | Some x \<Rightarrow> x)"

text \<open>The checks of \<open>patch\<close> when a network field is given.\<close>

definition check_network_patch ::
    "int \<Rightarrow> pool \<Rightarrow> patch_pool_request \<Rightarrow> string \<Rightarrow> string \<Rightarrow> string \<Rightarrow> string list \<Rightarrow> pool_db
      \<Rightarrow> pool_error + unit" where
  "check_network_patch now current r nextCidr nextAllocation nextGateway nextReserved db =
     (if \<not> isUsableHostInCidr nextCidr nextGateway
      then Inl (InvalidInput ''gateway must be a usable host inside cidr'')
      else bind_res (contains nextCidr nextAllocation) (\<lambda>inside.
        if \<not> inside then Inl (InvalidInput ''allocationCidr must be entirely contained in cidr'')
        else if \<not> list_all (isUsableHostInCidr nextCidr) nextReserved
        then Inl (InvalidInput ''reservedIps must contain usable hosts inside cidr'')
        else bind_res
          (if p_cidr r \<noteq> None \<and> nextCidr \<noteq> pool_cidr current then
             (if countClaimsForNetwork now (pool_cidr current) None db > 0
              then Inl (PoolInUse ''Cannot change CIDR while addresses are claimed'')
              else assertNoCidrOverlap nextCidr (listAllCidrs (Some (pool_id current)) db))
           else Inr ()) (\<lambda>_.
          (let newlyBlocked = (if nextGateway \<noteq> gateway current then [nextGateway] else [])
                 @ filter (\<lambda>a. a \<notin> set (reserved_ips current)) nextReserved;
               claimed = listClaimAddresses now (pool_cidr current) db
           in if list_ex (\<lambda>a. a \<in> set claimed) newlyBlocked
              then Inl (PoolInUse ''gateway and reservedIps cannot take addresses already claimed by containers'')
              else if p_allocation r \<noteq> None \<and> nextAllocation \<noteq> allocation_cidr current
                  \<and> \<not> list_all (isUsableHostInCidr nextAllocation) claimed
              then Inl (PoolInUse ''Cannot shrink allocationCidr while claimed addresses fall outside it'')
              else Inr ()))))"

definition rebind_servers :: "int \<Rightarrow> pool \<Rightarrow> string list \<Rightarrow> pool_db \<Rightarrow> pool_error + pool_db" where
  "rebind_servers now current ids db =
     bind_res (assertServersExist ids db) (\<lambda>_.
       if list_ex (\<lambda>s. countClaimsForNetwork now (pool_cidr current) (Some s) db > 0)
            (filter (\<lambda>s. s \<notin> set ids) (listServerIds (pool_id current) db))
       then Inl (PoolInUse ''Cannot unbind a server while it still has claimed addresses in this pool'')
       else Inr (replaceServers (pool_id current) ids db))"

definition patch_pool :: "int \<Rightarrow> string \<Rightarrow> patch_pool_request \<Rightarrow> pool_db \<Rightarrow> pool_error + pool_db" where
  "patch_pool now pid r db =
     (case find_pool pid db of
        None \<Rightarrow> Inl PoolNotFound
      | Some current \<Rightarrow>
          if revision current \<noteq> expectedRevision r then Inl RevisionConflict
          else
            bind_res (canonical_or (p_cidr r) (pool_cidr current)) (\<lambda>nextCidr.
            bind_res (canonical_or (p_allocation r) (allocation_cidr current)) (\<lambda>nextAllocation.
              let nextGateway = or_current (p_gateway r) (gateway current);
                  nextReserved = or_current (p_reserved r) (reserved_ips current)
              in bind_res
                   (if p_cidr r \<noteq> None \<or> p_allocation r \<noteq> None \<or> p_gateway r \<noteq> None \<or> p_reserved r \<noteq> None
                    then check_network_patch now current r nextCidr nextAllocation nextGateway nextReserved db
                    else Inr ()) (\<lambda>_.
                 bind_res (case p_servers r of
                     None \<Rightarrow> Inr db | Some ids \<Rightarrow> rebind_servers now current ids db) (\<lambda>db1.
                 update_pool pid (expectedRevision r)
                   \<lparr>pool_id = pool_id current,
                    pool_name = (case p_name r of None \<Rightarrow> pool_name current | Some n \<Rightarrow> js_trim n),
                    pool_cidr = nextCidr, allocation_cidr = nextAllocation, gateway = nextGateway,
                    reserved_ips = nextReserved, revision = expectedRevision r + 1\<rparr> db1)))))"

definition delete_pool :: "int \<Rightarrow> string \<Rightarrow> pool_db \<Rightarrow> pool_error + pool_db" where
  "delete_pool now pid db =
     (case find_pool pid db of
        None \<Rightarrow> Inl PoolNotFound
      | Some current \<Rightarrow>
          if countClaimsForNetwork now (pool_cidr current) None db > 0
          then Inl (PoolInUse ''Cannot delete an IP pool while addresses are claimed'')
          else Inr (db\<lparr>pools := filter (\<lambda>p. pool_id p \<noteq> pid) (pools db),
                       pool_servers := filter (\<lambda>m. fst m \<noteq> pid) (pool_servers db)\<rparr>))"

text \<open>What a pool reports: the addresses left for containers.\<close>

definition usableHostCount :: "string \<Rightarrow> ip_error + nat" where
  "usableHostCount cidr = bind_res (parseCidr cidr) (\<lambda>(_, prefixLen).
     Inr (let hostBits = 32 - prefixLen in if hostBits \<le> 1 then 0 else 2 ^ hostBits - 2))"

definition blockedInsideAllocation :: "string \<Rightarrow> string \<Rightarrow> string list \<Rightarrow> nat" where
  "blockedInsideAllocation alloc gw reserved =
     (if isUsableHostInCidr alloc gw then 1 else 0)
     + length (filter (\<lambda>a. isUsableHostInCidr alloc a \<and> a \<noteq> gw) (unique_first reserved))"

definition usable_count :: "pool \<Rightarrow> ip_error + nat" where
  "usable_count p = bind_res (usableHostCount (allocation_cidr p)) (\<lambda>n.
     Inr (n - blockedInsideAllocation (allocation_cidr p) (gateway p) (reserved_ips p)))"


subsection \<open>The choice of an address\<close>

text \<open>\<open>Number(text)\<close> where it is an integer: trimmed, empty is 0, decimal with sign, fraction and
  exponent, or a hexadecimal, octal or binary literal.\<close>

definition radix_value :: "nat \<Rightarrow> string \<Rightarrow> rat option" where
  "radix_value b ds =
     (if ds \<noteq> [] \<and> list_all (\<lambda>c. case hex_val c of None \<Rightarrow> False | Some v \<Rightarrow> v < b) ds
      then Some (of_nat (foldl (\<lambda>acc c. acc * b + the (hex_val c)) 0 ds)) else None)"

definition exponent_value :: "rat \<Rightarrow> string \<Rightarrow> rat option" where
  "exponent_value mant e =
     (let neg = starts_with ''-'' e;
          ds = (if neg \<or> starts_with ''+'' e then tl e else e)
      in if ds = [] \<or> \<not> list_all is_digit ds then None
         else Some (if neg then mant / 10 ^ digits_val ds else mant * 10 ^ digits_val ds))"

definition decimal_value :: "string \<Rightarrow> rat option" where
  "decimal_value s =
     (let whole = takeWhile is_digit s;
          rest = dropWhile is_digit s;
          frac = (if starts_with ''.'' rest then takeWhile is_digit (tl rest) else []);
          rest2 = (if starts_with ''.'' rest then dropWhile is_digit (tl rest) else rest);
          mant = of_nat (digits_val (whole @ frac)) / 10 ^ length frac
      in if whole = [] \<and> frac = [] then None
         else case rest2 of
           [] \<Rightarrow> Some mant
         | c # e \<Rightarrow> if c = CHR ''e'' \<or> c = CHR ''E'' then exponent_value mant e else None)"

definition js_number :: "string \<Rightarrow> rat option" where
  "js_number text =
     (let s = js_trim text
      in case s of
           [] \<Rightarrow> Some 0
         | c # r \<Rightarrow>
             if c = CHR ''0'' \<and> r \<noteq> [] \<and> hd r \<in> set ''xX'' then radix_value 16 (tl r)
             else if c = CHR ''0'' \<and> r \<noteq> [] \<and> hd r \<in> set ''oO'' then radix_value 8 (tl r)
             else if c = CHR ''0'' \<and> r \<noteq> [] \<and> hd r \<in> set ''bB'' then radix_value 2 (tl r)
             else if c = CHR ''-'' then map_option uminus (decimal_value r)
             else if c = CHR ''+'' then decimal_value r
             else decimal_value s)"

definition js_integer :: "string \<Rightarrow> int option" where
  "js_integer text = (case js_number text of
     None \<Rightarrow> None
   | Some q \<Rightarrow> if snd (quotient_of q) = 1 then Some (fst (quotient_of q)) else None)"

fun octets_value :: "string list \<Rightarrow> nat \<Rightarrow> nat option" where
  "octets_value [] result = Some result"
| "octets_value (part # parts) result =
     (case js_integer part of
        None \<Rightarrow> None
      | Some octet \<Rightarrow>
          if octet < 0 \<or> octet > 255 then None
          else octets_value parts ((result * 256 + nat octet) mod 2 ^ 32))"

definition ipv4Number :: "string \<Rightarrow> nat option" where
  "ipv4Number v = (let parts = split_char (CHR ''.'') v
     in if length parts \<noteq> 4 then None else octets_value parts 0)"

definition ipv4Text :: "int \<Rightarrow> string" where
  "ipv4Text v = (let n = nat (v mod 2 ^ 32)
     in join_str ''.'' [show_nat (n div 2 ^ 24 mod 256), show_nat (n div 2 ^ 16 mod 256),
          show_nat (n div 2 ^ 8 mod 256), show_nat (n mod 256)])"

text \<open>\<open>parseIpv4Cidr\<close>: \<open>network\<close> is the signed result of \<open>&\<close>, \<open>broadcast\<close> unsigned.\<close>

record parsed_cidr =
  network :: int
  broadcast :: int
  prefix :: nat

definition parseIpv4Cidr :: "string \<Rightarrow> parsed_cidr option" where
  "parseIpv4Cidr v =
     (let parts = split_char (CHR ''/'') v;
          addr = parts ! 0
      in case (if length parts > 1 then js_integer (parts ! 1) else None) of
           None \<Rightarrow> None
         | Some len \<Rightarrow>
             if addr = [] \<or> len < 0 \<or> len > 32 then None
             else case ipv4Number addr of
               None \<Rightarrow> None
             | Some number \<Rightarrow>
                 (let mask = (if len = 0 then 0 else push_bit (32 - nat len) (- 1)) :: 32 word;
                      net = of_nat number AND mask
                  in Some \<lparr>network = sint net, broadcast = uint (net OR NOT mask), prefix = nat len\<rparr>))"

datatype address_error = InvalidPoolCidr | NoAddressAvailable

text \<open>The seed is the id of the new container: its first eight hexadecimal digits.\<close>

definition seed_value :: "string \<Rightarrow> nat option" where
  "seed_value seed = (let ds = takeWhile is_hex (take 8 (filter (\<lambda>c. c \<noteq> CHR ''-'') seed))
     in if ds = [] then None else Some (foldl (\<lambda>acc c. acc * 16 + the (hex_val c)) 0 ds))"

definition candidate_at :: "parsed_cidr \<Rightarrow> nat \<Rightarrow> nat option \<Rightarrow> nat \<Rightarrow> string" where
  "candidate_at p hosts start offset = (case start of
     None \<Rightarrow> ipv4Text 0
   | Some s \<Rightarrow> ipv4Text (network p + int ((s + offset) mod hosts)))"

fun first_free :: "(nat \<Rightarrow> string) \<Rightarrow> (string \<Rightarrow> bool) \<Rightarrow> nat \<Rightarrow> nat \<Rightarrow> string option" where
  "first_free cand busy offset 0 = None"
| "first_free cand busy offset (Suc n) =
     (if busy (cand offset) then first_free cand busy (Suc offset) n else Some (cand offset))"

definition expire_claims :: "int \<Rightarrow> string \<Rightarrow> pool_db \<Rightarrow> pool_db" where
  "expire_claims now key db = db\<lparr>claims := filter (\<lambda>c. \<not> (network_key c = key \<and> state c = Releasing
     \<and> (case reusable_at c of None \<Rightarrow> False | Some t \<Rightarrow> t \<le> now))) (claims db)\<rparr>"

definition occupied_addresses :: "int \<Rightarrow> string \<Rightarrow> string list \<Rightarrow> pool_db \<Rightarrow> string set" where
  "occupied_addresses now key reserved db =
     set (map address (filter (\<lambda>c. network_key c = key \<and>
       (state c = Active \<or> (case reusable_at c of None \<Rightarrow> False | Some t \<Rightarrow> t > now))) (claims db)))
     \<union> set reserved"

definition findAvailableAddress ::
    "int \<Rightarrow> string \<Rightarrow> string \<Rightarrow> string list \<Rightarrow> string \<Rightarrow> pool_db \<Rightarrow> (address_error + string) \<times> pool_db" where
  "findAvailableAddress now key alloc reserved seed db =
     (let db1 = expire_claims now key db;
          occupied = occupied_addresses now key reserved db1
      in case parseIpv4Cidr alloc of
           None \<Rightarrow> (Inl InvalidPoolCidr, db1)
         | Some p \<Rightarrow>
             (let hosts = 2 ^ (32 - prefix p);
                  start = map_option (\<lambda>s. s mod max hosts 1) (seed_value seed);
                  busy = (\<lambda>c. c = ipv4Text (network p) \<or> c = ipv4Text (broadcast p) \<or> c \<in> occupied)
              in case first_free (candidate_at p hosts start) busy 0 (min hosts 65536) of
                   Some c \<Rightarrow> (Inr c, db1)
                 | None \<Rightarrow> (Inl NoAddressAvailable, db1)))"

datatype claim_error = NoPools | PreflightFailed string | AddressesExhausted "string option"

fun allocateAddress ::
    "int \<Rightarrow> string \<Rightarrow> pool list \<Rightarrow> string option \<Rightarrow> pool_db \<Rightarrow> claim_error + (string \<times> string) \<times> pool_db" where
  "allocateAddress now containerId [] lastKey db = Inl (AddressesExhausted lastKey)"
| "allocateAddress now containerId (p # ps) lastKey db =
     (case findAvailableAddress now (pool_cidr p) (allocation_cidr p) (gateway p # reserved_ips p) containerId db of
        (Inr a, db1) \<Rightarrow> Inr ((pool_cidr p, a), db1)
      | (Inl NoAddressAvailable, db1) \<Rightarrow> allocateAddress now containerId ps (Some (pool_cidr p)) db1
      | (Inl InvalidPoolCidr, db1) \<Rightarrow> Inl (PreflightFailed (pool_id p)))"

text \<open>The address part of admitting a container, and the end of one.\<close>

definition claim_address :: "int \<Rightarrow> string \<Rightarrow> string \<Rightarrow> pool_db \<Rightarrow> claim_error + pool_db" where
  "claim_address now serverId containerId db =
     (let ps = listForServer serverId db
      in if ps = [] then Inl NoPools
         else case allocateAddress now containerId ps None db of
           Inl e \<Rightarrow> Inl e
         | Inr ((key, a), db1) \<Rightarrow> Inr (db1\<lparr>claims := claims db1 @
             [\<lparr>claim_container = Some containerId, claim_server = serverId, network_key = key, address = a,
               state = Active, reusable_at = None\<rparr>]\<rparr>))"

definition releaseContainerState :: "int \<Rightarrow> string \<Rightarrow> pool_db \<Rightarrow> pool_db" where
  "releaseContainerState now containerId db = db\<lparr>claims := map (\<lambda>c.
     if claim_container c = Some containerId
     then c\<lparr>claim_container := None, state := Releasing, reusable_at := Some (now + 360000)\<rparr> else c) (claims db)\<rparr>"


subsection \<open>Numbers and texts\<close>

lemma js_trim_digits:
  assumes "s \<noteq> []" "\<forall>c \<in> set s. is_digit c"
  shows "js_trim s = s"
  by (rule js_trim_id) (use assms in auto)

lemma decimal_digits:
  assumes "ds \<noteq> []" "\<forall>c \<in> set ds. is_digit c"
  shows "decimal_value ds = Some (of_nat (digits_val ds))"
proof -
  have ds: "takeWhile is_digit ds = ds" "dropWhile is_digit ds = []"
    using assms(2) by (simp_all add: takeWhile_eq_all_conv dropWhile_eq_Nil_conv)
  show ?thesis unfolding decimal_value_def Let_def ds using assms(1) by (simp add: starts_with_def)
qed

lemma js_integer_show: "js_integer (show_nat n) = Some (int n)"
proof -
  have digits: "show_nat n \<noteq> []" "\<forall>c \<in> set (show_nat n). is_digit c"
    using show_nat_nonempty show_nat_digits by auto
  obtain c r where cr: "show_nat n = c # r" using digits(1) by (cases "show_nat n") auto
  have "c \<noteq> CHR ''-''" "c \<noteq> CHR ''+''" "r \<noteq> [] \<Longrightarrow> is_digit (hd r)"
    using digits(2) by (auto simp: cr is_digit_def)
  moreover have "js_trim (show_nat n) = c # r" using js_trim_digits [OF digits] cr by simp
  ultimately have "js_number (show_nat n) = decimal_value (show_nat n)"
    unfolding js_number_def by (auto simp: cr is_digit_def)
  also have "\<dots> = Some (of_nat n)" by (simp add: decimal_digits digits digits_val_show_nat)
  finally show ?thesis by (simp add: js_integer_def quotient_of_int [of "int n", simplified])
qed

lemma ipv4Text_nat:
  assumes "v < 2 ^ 32"
  shows "numToIp (int v) = Inr (ipv4Text (int v))"
proof -
  have "nat (int v mod 2 ^ 32) = v" using assms by (simp add: nat_mod_distrib)
  then show ?thesis unfolding numToIp_nat [OF assms] ipv4Text_def Let_def by simp
qed

lemma ipv4Text_num: "v < 2 ^ 32 \<Longrightarrow> ipToNum (ipv4Text (int v)) = Inr v"
  using ipToNum_numToIp ipv4Text_nat by blast

lemma ipv4Text_inject: "v < 2 ^ 32 \<Longrightarrow> w < 2 ^ 32 \<Longrightarrow> ipv4Text (int v) = ipv4Text (int w) \<Longrightarrow> v = w"
  by (metis ipv4Text_num sum.inject(2))

lemma ipv4Number_text:
  assumes "v < 2 ^ 32"
  shows "ipv4Number (ipv4Text (int v)) = Some v"
proof -
  define a b c d where "a = v div 2 ^ 24 mod 256" "b = v div 2 ^ 16 mod 256" "c = v div 2 ^ 8 mod 256" "d = v mod 256"
  note abcd = this
  have lt: "a < 256" "b < 256" "c < 256" "d < 256" by (simp_all add: abcd)
  have v: "((a * 256 + b) * 256 + c) * 256 + d = v" unfolding abcd by (rule dotted_value [OF assms])
  have "nat (int v mod 2 ^ 32) = v" using assms by (simp add: nat_mod_distrib)
  then have dotted: "ipv4Text (int v) = join_str ''.'' [show_nat a, show_nat b, show_nat c, show_nat d]"
    unfolding ipv4Text_def Let_def by (simp add: abcd)
  have split: "split_char (CHR ''.'') (ipv4Text (int v)) = [show_nat a, show_nat b, show_nat c, show_nat d]"
    unfolding dotted by (rule split_join) (auto simp: show_nat_no_char)
  have "octets_value [show_nat a, show_nat b, show_nat c, show_nat d] 0 = Some (((a * 256 + b) * 256 + c) * 256 + d)"
    using lt by (simp add: js_integer_show)
  then show ?thesis unfolding ipv4Number_def Let_def split v by simp
qed

text \<open>On an aligned network, the masks of \<open>parseIpv4Cidr\<close> give the bounds of the block.\<close>

lemma word_aligned:
  fixes v k :: nat
  assumes "v < 2 ^ 32" "v mod 2 ^ k = 0" "v + 2 ^ k \<le> 2 ^ 32"
  shows "(of_nat v :: 32 word) AND push_bit k (- 1) = of_nat v"
    and "uint ((of_nat v :: 32 word) OR mask k) = int (v + 2 ^ k - 1)"
proof -
  have "v div 2 ^ k * 2 ^ k = v" using assms(2) by auto
  then have v: "(of_nat v :: 32 word) = push_bit k (of_nat (v div 2 ^ k))"
    by (metis of_nat_mult of_nat_numeral of_nat_power push_bit_eq_mult)
  show "(of_nat v :: 32 word) AND push_bit k (- 1) = of_nat v"
    unfolding v push_bit_and [symmetric] by simp
  have "(of_nat v :: 32 word) AND mask k = 0"
    unfolding v by (rule bit_eqI) (auto simp: bit_simps)
  then have "(of_nat v :: 32 word) OR mask k = of_nat v + mask k"
    by (rule disjunctive_add_eq_or [symmetric])
  also have "\<dots> = of_nat (v + (2 ^ k - 1))"
  proof -
    have "(mask k :: 32 word) = of_nat (2 ^ k - 1)" by (metis mask_eq_exp_minus_1 of_nat_mask_eq)
    then show ?thesis by (simp only: of_nat_add)
  qed
  finally have "(of_nat v :: 32 word) OR mask k = of_nat (v + 2 ^ k - 1)" by simp
  moreover have "v + 2 ^ k - 1 < 2 ^ 32" using assms by linarith
  ultimately show "uint ((of_nat v :: 32 word) OR mask k) = int (v + 2 ^ k - 1)"
    by (simp only:) (simp add: unsigned_of_nat take_bit_eq_mod)
qed

lemma sint_mod: "(sint (w :: 32 word) + int j) mod 2 ^ 32 = int ((unat w + j) mod 2 ^ 32)"
proof -
  have "sint w mod 2 ^ 32 = uint w" using uint_sint [of w] by (simp add: take_bit_eq_mod)
  then have "(sint w + int j) mod 2 ^ 32 = (uint w + int j) mod 2 ^ 32" by (metis mod_add_left_eq)
  then show ?thesis by (simp only: uint_nat zmod_int of_nat_add of_nat_power of_nat_numeral)
qed

lemma parse_canonical_text:
  assumes "v < 2 ^ 32" "len \<le> 32" "v mod 2 ^ (32 - len) = 0"
  obtains p where "parseIpv4Cidr (ipv4Text (int v) @ ''/'' @ show_nat len) = Some p" "prefix p = len"
    "\<forall>j. v + j < 2 ^ 32 \<longrightarrow> ipv4Text (network p + int j) = ipv4Text (int (v + j))"
    "ipv4Text (network p) = ipv4Text (int v)" "broadcast p = int (v + 2 ^ (32 - len) - 1)"
proof -
  have top: "v + 2 ^ (32 - len) \<le> 2 ^ 32"
  proof -
    obtain q where q: "v = q * 2 ^ (32 - len)" using assms(3) by auto
    have "q < 2 ^ len" using assms(1,2) unfolding q
      by (metis le_add_diff_inverse2 mult.commute nat_mult_less_cancel_disj power_add)
    then have "(q + 1) * 2 ^ (32 - len) \<le> 2 ^ len * 2 ^ (32 - len)" by (intro mult_right_mono) auto
    then show ?thesis using assms(2) by (simp add: q power_add [symmetric])
  qed
  have no: "CHR ''/'' \<notin> set (ipv4Text (int v))"
    using numToIp_no_slash ipv4Text_nat [OF assms(1)] assms(1) by blast
  have split: "split_char (CHR ''/'') (ipv4Text (int v) @ ''/'' @ show_nat len) = [ipv4Text (int v), show_nat len]"
    using no by (simp add: split_char_append show_nat_no_char split_char_id)
  have ne: "ipv4Text (int v) \<noteq> []" by (simp add: ipv4Text_def Let_def)
  define m :: "32 word" where "m = (if len = 0 then 0 else push_bit (32 - len) (- 1))"
  define net where "net = (of_nat v :: 32 word) AND m"
  define p where "p = \<lparr>network = sint net, broadcast = uint (net OR NOT m), prefix = len\<rparr>"
  have m: "m = push_bit (32 - len) (- 1)" by (cases "len = 0") (simp_all add: m_def push_bit_eq_mult)
  have net: "net = of_nat v" unfolding net_def m by (rule word_aligned(1) [OF assms(1,3) top])
  have notm: "NOT m = mask (32 - len)" unfolding m push_bit_minus_one_eq_not_mask by simp
  have parse: "parseIpv4Cidr (ipv4Text (int v) @ ''/'' @ show_nat len) = Some p"
    unfolding parseIpv4Cidr_def Let_def split
    using assms(2) ne by (simp add: js_integer_show ipv4Number_text [OF assms(1)] p_def net_def m_def)
  have unat: "unat net = v" using assms(1) by (simp add: net unat_of_nat take_bit_eq_mod)
  have shown: "ipv4Text (network p + int j) = ipv4Text (int (v + j))" if "v + j < 2 ^ 32" for j
    unfolding p_def ipv4Text_def Let_def using sint_mod [of net j] that by (simp add: unat zmod_int)
  show thesis
    by (rule that [OF parse]) (use shown shown [of 0] assms(1) word_aligned(2) [OF assms(1,3) top] in
        \<open>simp_all add: p_def net notm\<close>)
qed


subsection \<open>Blocks\<close>

lemma canonical_block:
  assumes "canonicalIpv4Cidr c = Inr d"
  obtains v len where "v < 2 ^ 32" "len \<le> 32" "v mod 2 ^ (32 - len) = 0" "v + 2 ^ (32 - len) \<le> 2 ^ 32"
    "d = ipv4Text (int v) @ ''/'' @ show_nat len" "parseCidr d = Inr (ipv4Text (int v), len)"
    "\<forall>ip. isUsableHostInCidr d ip \<longleftrightarrow> (\<exists>n. ipToNum ip = Inr n \<and> v < n \<and> n < v + 2 ^ (32 - len) - 1)"
    "cidr_addresses d = {v..v + 2 ^ (32 - len) - 1}"
proof -
  obtain n len v s where f: "n < 2 ^ 32" "len \<le> 32" "v = n div 2 ^ (32 - len) * 2 ^ (32 - len)" "v < 2 ^ 32"
      "numToIp (int v) = Inr s" "d = s @ ''/'' @ show_nat len"
    using assms by (rule canonicalIpv4Cidr_facts)
  have s: "s = ipv4Text (int v)" using f(5) ipv4Text_nat [OF f(4)] by simp
  have al: "v mod 2 ^ (32 - len) = 0" by (simp add: f(3))
  have top: "v + 2 ^ (32 - len) \<le> 2 ^ 32" using aligned_top [OF f(1,2)] by (simp add: f(3))
  have num: "ipToNum s = Inr v" unfolding s by (rule ipv4Text_num [OF f(4)])
  have pos: "(0::nat) < 2 ^ (32 - len)" by simp
  have parse: "parseCidr d = Inr (s, len)" unfolding f(6) by (rule parseCidr_canonical [OF f(4,5,2)])
  have vdiv: "v div 2 ^ (32 - len) * 2 ^ (32 - len) = v" using al by auto
  have bounds: "cidrBounds s len = Inr \<lparr>networkAddr = v, broadcastAddr = v + 2 ^ (32 - len) - 1,
      usableHosts = (if 32 - len \<le> 1 then 0 else 2 ^ (32 - len) - 2)\<rparr>"
    unfolding cidrBounds_def num bind_res.simps Let_def vdiv by simp
  have usable: "isUsableHostInCidr d ip \<longleftrightarrow> (\<exists>n. ipToNum ip = Inr n \<and> v < n \<and> n < v + 2 ^ (32 - len) - 1)" for ip
    unfolding isUsableHostInCidr_def parse bind_res.simps prod.case bounds
    by (cases "ipToNum ip") simp_all
  obtain m where m: "ipToNum s = Inr m" "m < 2 ^ 32" "cidr_addresses d = block m len"
    by (rule parseCidr_facts [OF parse]) blast
  have "cidr_addresses d = {v..v + 2 ^ (32 - len) - 1}"
    using m num cidrBounds_facts(1) [OF bounds num f(4,2)] by simp
  with usable show thesis
    by (intro that [OF f(4,2) al top f(6) [unfolded s] parse [unfolded s]]) blast+
qed

lemma usable_in_block: "isUsableHostInCidr d ip \<Longrightarrow> \<exists>n. ipToNum ip = Inr n \<and> n \<in> cidr_addresses d"
proof -
  assume u: "isUsableHostInCidr d ip"
  then obtain base len where p: "parseCidr d = Inr (base, len)"
    by (auto simp: isUsableHostInCidr_def split: sum.splits) (metis (no_types, lifting) bind_res_Inr prod.collapse)
  obtain m where m: "ipToNum base = Inr m" "m < 2 ^ 32" "len \<le> 32" "cidr_addresses d = block m len"
    by (rule parseCidr_facts [OF p])
  obtain b where b: "cidrBounds base len = Inr b" using cidrBounds_total [OF m(1)] by blast
  have "block m len = {networkAddr b..broadcastAddr b}" by (rule cidrBounds_facts(1) [OF b m(1,2,3)])
  with u m(4) show ?thesis
    unfolding isUsableHostInCidr_def p bind_res.simps prod.case b by (cases "ipToNum ip") auto
qed

lemma contained_addresses:
  assumes "ipv4CidrContains out inn = Inr True"
  shows "cidr_addresses inn \<subseteq> cidr_addresses out"
  using assms by (rule contains_bounds) auto

lemma no_overlap_disjoint:
  assumes "ipv4CidrsOverlap a b = Inr False"
  shows "cidr_addresses a \<inter> cidr_addresses b = {}"
  using assms by (rule overlap_bounds) auto


subsection \<open>The search\<close>

lemma first_free_Some:
  "first_free cand busy i n = Some c \<Longrightarrow> \<exists>j. c = cand j \<and> \<not> busy c"
  by (induction cand busy i n rule: first_free.induct) (auto split: if_split_asm)

lemma first_free_None:
  "first_free cand busy i n = None \<Longrightarrow> i \<le> j \<Longrightarrow> j < i + n \<Longrightarrow> busy (cand j)"
proof (induction cand busy i n rule: first_free.induct)
  case (2 cand busy offset n)
  then show ?case by (cases "j = offset") (auto split: if_split_asm)
qed simp

lemma mod_shift_covers:
  assumes "k < (h::nat)"
  shows "\<exists>i < h. (s + i) mod h = k"
proof -
  define i where "i = (k + (h - s mod h)) mod h"
  have "(s + i) mod h = (s mod h + (k + (h - s mod h))) mod h" unfolding i_def by (simp add: mod_simps)
  also have "s mod h + (k + (h - s mod h)) = k + h" using assms mod_less_divisor [of h s] by linarith
  finally have "(s + i) mod h = k" using assms by simp
  moreover have "i < h" using assms by (simp add: i_def)
  ultimately show ?thesis by blast
qed

lemma occupied_expired:
  "occupied_addresses now key reserved (expire_claims now key db)
     = {address c | c. c \<in> set (claims db) \<and> network_key c = key \<and> live_claim now c} \<union> set reserved"
proof -
  have "(\<not> (network_key c = key \<and> state c = Releasing \<and> (case reusable_at c of None \<Rightarrow> False | Some t \<Rightarrow> t \<le> now))
      \<and> network_key c = key \<and> (state c = Active \<or> (case reusable_at c of None \<Rightarrow> False | Some t \<Rightarrow> t > now)))
      \<longleftrightarrow> network_key c = key \<and> live_claim now c" for c
    by (cases "state c"; cases "reusable_at c") (auto simp: live_claim_def)
  then have "{c \<in> set (claims (expire_claims now key db)). network_key c = key
        \<and> (state c = Active \<or> (case reusable_at c of None \<Rightarrow> False | Some t \<Rightarrow> t > now))}
      = {c \<in> set (claims db). network_key c = key \<and> live_claim now c}"
    unfolding expire_claims_def by auto
  then show ?thesis unfolding occupied_addresses_def set_map set_filter by blast
qed

text \<open>The search over an allocation block: its candidates are the addresses of the block, each once.\<close>

lemma address_search:
  assumes "canonicalIpv4Cidr c = Inr alloc" "seed_value seed \<noteq> None"
  obtains v l cand where "v < 2 ^ 32" "v + 2 ^ (32 - l) \<le> 2 ^ 32" "parseCidr alloc = Inr (ipv4Text (int v), l)"
    "\<forall>ip. isUsableHostInCidr alloc ip \<longleftrightarrow> (\<exists>n. ipToNum ip = Inr n \<and> v < n \<and> n < v + 2 ^ (32 - l) - 1)"
    "\<forall>i. \<exists>k < 2 ^ (32 - l). cand i = ipv4Text (int (v + k))"
    "\<forall>k < 2 ^ (32 - l). \<exists>i < 2 ^ (32 - l). cand i = ipv4Text (int (v + k))"
    "findAvailableAddress now key alloc reserved seed db =
       (case first_free cand (\<lambda>a. a = ipv4Text (int v) \<or> a = ipv4Text (int (v + 2 ^ (32 - l) - 1))
            \<or> a \<in> occupied_addresses now key reserved (expire_claims now key db)) 0 (min (2 ^ (32 - l)) 65536) of
          Some a \<Rightarrow> (Inr a, expire_claims now key db)
        | None \<Rightarrow> (Inl NoAddressAvailable, expire_claims now key db))"
proof -
  obtain v l where v: "v < 2 ^ 32" "l \<le> 32" "v mod 2 ^ (32 - l) = 0" "v + 2 ^ (32 - l) \<le> 2 ^ 32"
      "alloc = ipv4Text (int v) @ ''/'' @ show_nat l" "parseCidr alloc = Inr (ipv4Text (int v), l)"
      "\<forall>ip. isUsableHostInCidr alloc ip \<longleftrightarrow> (\<exists>n. ipToNum ip = Inr n \<and> v < n \<and> n < v + 2 ^ (32 - l) - 1)"
    using assms(1) by (rule canonical_block) (rule that, assumption+)
  obtain p where p: "parseIpv4Cidr alloc = Some p" "prefix p = l"
      "\<forall>j. v + j < 2 ^ 32 \<longrightarrow> ipv4Text (network p + int j) = ipv4Text (int (v + j))"
      "ipv4Text (network p) = ipv4Text (int v)" "broadcast p = int (v + 2 ^ (32 - l) - 1)"
    by (rule parse_canonical_text [OF v(1-3)]) (rule that [unfolded v(5)], assumption+)
  obtain s where s: "seed_value seed = Some s" using assms(2) by blast
  define h :: nat where "h = 2 ^ (32 - l)"
  define cand where "cand = candidate_at p h (Some (s mod max h 1))"
  have h: "0 < h" by (simp add: h_def)
  have cand: "cand i = ipv4Text (int (v + (s mod max h 1 + i) mod h))" for i
  proof -
    have "(s mod max h 1 + i) mod h < h" using h by simp
    then have "v + (s mod max h 1 + i) mod h < 2 ^ 32" using v(4) unfolding h_def by linarith
    then show ?thesis unfolding cand_def candidate_at_def option.case using p(3) by blast
  qed
  have each: "\<forall>i. \<exists>k < h. cand i = ipv4Text (int (v + k))" using cand h mod_less_divisor by blast
  have all: "\<forall>k < h. \<exists>i < h. cand i = ipv4Text (int (v + k))" using cand mod_shift_covers by metis
  have "findAvailableAddress now key alloc reserved seed db =
       (case first_free cand (\<lambda>a. a = ipv4Text (int v) \<or> a = ipv4Text (int (v + 2 ^ (32 - l) - 1))
            \<or> a \<in> occupied_addresses now key reserved (expire_claims now key db)) 0 (min (2 ^ (32 - l)) 65536) of
          Some a \<Rightarrow> (Inr a, expire_claims now key db)
        | None \<Rightarrow> (Inl NoAddressAvailable, expire_claims now key db))"
    unfolding findAvailableAddress_def Let_def p(1,2) option.case s option.map cand_def h_def p(4,5)
    by (rule refl)
  then show thesis by (rule that [OF v(1,4,6,7) each [unfolded h_def] all [unfolded h_def]])
qed

lemma found_address:
  assumes "canonicalIpv4Cidr c = Inr alloc" "seed_value seed \<noteq> None"
    and "findAvailableAddress now key alloc reserved seed db = (r, db1)"
  shows "db1 = expire_claims now key db" "r \<noteq> Inl InvalidPoolCidr"
    and "\<forall>a. r = Inr a \<longrightarrow> isUsableHostInCidr alloc a \<and> a \<notin> occupied_addresses now key reserved db1"
proof -
  obtain v l cand where v: "v < 2 ^ 32" "v + 2 ^ (32 - l) \<le> 2 ^ 32"
      and usable: "\<forall>ip. isUsableHostInCidr alloc ip \<longleftrightarrow> (\<exists>n. ipToNum ip = Inr n \<and> v < n \<and> n < v + 2 ^ (32 - l) - 1)"
      and cand: "\<forall>i. \<exists>k < 2 ^ (32 - l). cand i = ipv4Text (int (v + k))"
      and search: "(r, db1) = (case first_free cand (\<lambda>a. a = ipv4Text (int v) \<or> a = ipv4Text (int (v + 2 ^ (32 - l) - 1))
            \<or> a \<in> occupied_addresses now key reserved (expire_claims now key db)) 0 (min (2 ^ (32 - l)) 65536) of
          Some a \<Rightarrow> (Inr a, expire_claims now key db)
        | None \<Rightarrow> (Inl NoAddressAvailable, expire_claims now key db))"
    by (rule address_search [OF assms(1,2), of now key reserved db]) (unfold assms(3), rule that, assumption+)
  show db1: "db1 = expire_claims now key db" and "r \<noteq> Inl InvalidPoolCidr"
    using search by (auto split: option.splits)
  have "isUsableHostInCidr alloc a \<and> a \<notin> occupied_addresses now key reserved db1" if "r = Inr a" for a
  proof -
    have "first_free cand (\<lambda>a. a = ipv4Text (int v) \<or> a = ipv4Text (int (v + 2 ^ (32 - l) - 1))
        \<or> a \<in> occupied_addresses now key reserved (expire_claims now key db)) 0 (min (2 ^ (32 - l)) 65536) = Some a"
      using search that by (simp split: option.splits)
    from first_free_Some [OF this]
    obtain i where i: "a = cand i" "a \<noteq> ipv4Text (int v)" "a \<noteq> ipv4Text (int (v + 2 ^ (32 - l) - 1))"
        "a \<notin> occupied_addresses now key reserved db1"
      unfolding db1 by metis
    obtain k where k: "k < 2 ^ (32 - l)" "a = ipv4Text (int (v + k))" using cand i(1) by blast
    have "v + k \<noteq> v" "v + k \<noteq> v + 2 ^ (32 - l) - 1" using i(2,3) unfolding k(2) by metis+
    then have "v < v + k \<and> v + k < v + 2 ^ (32 - l) - 1" using k(1) by linarith
    moreover have "v + k < 2 ^ 32" using k(1) v(2) by linarith
    ultimately show ?thesis using usable ipv4Text_num i(4) unfolding k(2) by blast
  qed
  then show "\<forall>a. r = Inr a \<longrightarrow> isUsableHostInCidr alloc a \<and> a \<notin> occupied_addresses now key reserved db1" by blast
qed

lemma exhausted_block:
  assumes "canonicalIpv4Cidr c = Inr alloc" "seed_value seed \<noteq> None"
    and "findAvailableAddress now key alloc reserved seed db = (Inl NoAddressAvailable, db1)"
    and "parseCidr alloc = Inr (base, len)" "16 \<le> len"
    and "n < 2 ^ 32" "isUsableHostInCidr alloc (ipv4Text (int n))"
  shows "ipv4Text (int n) \<in> occupied_addresses now key reserved db1"
proof -
  obtain v l cand where v: "v < 2 ^ 32" "v + 2 ^ (32 - l) \<le> 2 ^ 32" "parseCidr alloc = Inr (ipv4Text (int v), l)"
      and usable: "\<forall>ip. isUsableHostInCidr alloc ip \<longleftrightarrow> (\<exists>n. ipToNum ip = Inr n \<and> v < n \<and> n < v + 2 ^ (32 - l) - 1)"
      and cand: "\<forall>k < 2 ^ (32 - l). \<exists>i < 2 ^ (32 - l). cand i = ipv4Text (int (v + k))"
      and search: "(Inl NoAddressAvailable, db1) = (case first_free cand (\<lambda>a. a = ipv4Text (int v) \<or> a = ipv4Text (int (v + 2 ^ (32 - l) - 1))
            \<or> a \<in> occupied_addresses now key reserved (expire_claims now key db)) 0 (min (2 ^ (32 - l)) 65536) of
          Some a \<Rightarrow> (Inr a, expire_claims now key db)
        | None \<Rightarrow> (Inl NoAddressAvailable, expire_claims now key db))"
    by (rule address_search [OF assms(1,2), of now key reserved db]) (unfold assms(3), rule that, assumption+)
  have "16 \<le> l" using assms(4,5) v(3) by simp
  then have "(2::nat) ^ (32 - l) \<le> 2 ^ 16" by (intro power_increasing) auto
  then have hmin: "min (2 ^ (32 - l)) 65536 = (2::nat) ^ (32 - l)" by simp
  have nv: "v < n" "n < v + 2 ^ (32 - l) - 1" using assms(7) usable ipv4Text_num [OF assms(6)] by auto
  then have "n - v < 2 ^ (32 - l)" by linarith
  then obtain i where i: "i < 2 ^ (32 - l)" "cand i = ipv4Text (int (v + (n - v)))" using cand by blast
  then have ci: "cand i = ipv4Text (int n)" using nv by simp
  have "ipv4Text (int n) \<noteq> ipv4Text (int v)" using ipv4Text_inject [OF assms(6) v(1)] nv by auto
  moreover have "ipv4Text (int n) \<noteq> ipv4Text (int (v + 2 ^ (32 - l) - 1))"
    using ipv4Text_inject [OF assms(6), of "v + 2 ^ (32 - l) - 1"] nv v(2) by linarith
  moreover have "cand i = ipv4Text (int v) \<or> cand i = ipv4Text (int (v + 2 ^ (32 - l) - 1))
      \<or> cand i \<in> occupied_addresses now key reserved (expire_claims now key db)"
    by (rule first_free_None [of cand _ 0 "2 ^ (32 - l)"]) (use search hmin i(1) in \<open>auto split: option.splits\<close>)
  moreover have "db1 = expire_claims now key db" using search by (auto split: option.splits)
  ultimately show ?thesis unfolding ci by blast
qed


subsection \<open>Runs\<close>

text \<open>Each operation comes some milliseconds after the one before. Requests have passed their schema, and a
  container's id is a UUID, so it has a seed.\<close>

datatype pool_op =
    CreatePool nat string create_pool_request
  | PatchPool nat string patch_pool_request
  | DeletePool nat string
  | Claim nat string string
  | Release nat string

record pool_run =
  clock :: int
  tables :: pool_db

definition commit :: "'e + pool_db \<Rightarrow> pool_db \<Rightarrow> pool_db" where
  "commit r db = (case r of Inl _ \<Rightarrow> db | Inr db' \<Rightarrow> db')"

fun pool_step :: "pool_run \<Rightarrow> pool_op \<Rightarrow> pool_run" where
  "pool_step s (CreatePool d newId r) = \<lparr>clock = clock s + int d,
     tables = (if create_request_ok r then commit (create_pool newId r (tables s)) (tables s) else tables s)\<rparr>"
| "pool_step s (PatchPool d pid r) = \<lparr>clock = clock s + int d,
     tables = commit (patch_pool (clock s + int d) pid r (tables s)) (tables s)\<rparr>"
| "pool_step s (DeletePool d pid) = \<lparr>clock = clock s + int d,
     tables = commit (delete_pool (clock s + int d) pid (tables s)) (tables s)\<rparr>"
| "pool_step s (Claim d serverId containerId) = \<lparr>clock = clock s + int d,
     tables = (if seed_value containerId = None then tables s
               else commit (claim_address (clock s + int d) serverId containerId (tables s)) (tables s))\<rparr>"
| "pool_step s (Release d containerId) = \<lparr>clock = clock s + int d,
     tables = releaseContainerState (clock s + int d) containerId (tables s)\<rparr>"

definition pool_start :: "int \<Rightarrow> string list \<Rightarrow> pool_run" where
  "pool_start t ids = \<lparr>clock = t, tables = \<lparr>pools = [], pool_servers = [], claims = [], server_ids = ids\<rparr>\<rparr>"


subsection \<open>Invariant\<close>

definition pool_ok :: "pool \<Rightarrow> bool" where
  "pool_ok p \<longleftrightarrow> ipv4CidrContains (pool_cidr p) (allocation_cidr p) = Inr True
     \<and> (\<exists>c. canonicalIpv4Cidr c = Inr (allocation_cidr p))
     \<and> isUsableHostInCidr (pool_cidr p) (gateway p)
     \<and> list_all (isUsableHostInCidr (pool_cidr p)) (reserved_ips p)"

definition disjoint_pools :: "pool list \<Rightarrow> bool" where
  "disjoint_pools ps \<longleftrightarrow> (\<forall>p \<in> set ps. \<forall>q \<in> set ps. pool_id p \<noteq> pool_id q \<longrightarrow>
     cidr_addresses (pool_cidr p) \<inter> cidr_addresses (pool_cidr q) = {})"

definition serves :: "pool_db \<Rightarrow> claim \<Rightarrow> pool \<Rightarrow> bool" where
  "serves db c p \<longleftrightarrow> p \<in> set (pools db) \<and> pool_cidr p = network_key c
     \<and> isUsableHostInCidr (allocation_cidr p) (address c)
     \<and> address c \<noteq> gateway p \<and> address c \<notin> set (reserved_ips p)
     \<and> (pool_id p, claim_server c) \<in> set (pool_servers db)"

definition live_key :: "claim \<Rightarrow> string \<times> string" where
  "live_key c = (network_key c, address c)"

definition pool_inv :: "int \<Rightarrow> pool_db \<Rightarrow> bool" where
  "pool_inv now db \<longleftrightarrow> distinct (map pool_id (pools db)) \<and> (\<forall>p \<in> set (pools db). pool_ok p)
     \<and> disjoint_pools (pools db)
     \<and> (\<forall>c \<in> set (claims db). live_claim now c \<longrightarrow> (\<exists>p. serves db c p))
     \<and> distinct (map live_key (filter (live_claim now) (claims db)))
     \<and> (\<forall>c \<in> set (claims db). claim_container c \<noteq> None \<longrightarrow> state c = Active)"

lemma live_earlier: "live_claim now' c \<Longrightarrow> now \<le> now' \<Longrightarrow> live_claim now c"
  by (auto simp: live_claim_def split: option.splits)

lemma pool_inv_later:
  assumes "pool_inv now db" "now \<le> now'"
  shows "pool_inv now' db"
proof -
  have "filter (live_claim now') (claims db) = filter (live_claim now') (filter (live_claim now) (claims db))"
    using live_earlier [OF _ assms(2)] by (auto intro: filter_cong)
  then have "distinct (map live_key (filter (live_claim now') (claims db)))"
    using assms(1) by (simp only: pool_inv_def distinct_map_filter)
  with assms live_earlier show ?thesis unfolding pool_inv_def by blast
qed

lemma no_claims:
  "countClaimsForNetwork now key None db = 0 \<Longrightarrow> c \<in> set (claims db) \<Longrightarrow> live_claim now c \<Longrightarrow> network_key c \<noteq> key"
  by (auto simp: countClaimsForNetwork_def filter_empty_conv)

lemma assertNoCidrOverlap_Inr:
  "assertNoCidrOverlap cidr rows = Inr u \<Longrightarrow>
     \<forall>q \<in> set rows. cidr_addresses cidr \<inter> cidr_addresses (pool_cidr q) = {}"
  by (induction cidr rows rule: assertNoCidrOverlap.induct)
     (auto split: sum.splits if_split_asm dest: no_overlap_disjoint)

lemma canonical_Inr: "canonical c = Inr d \<longleftrightarrow> canonicalIpv4Cidr c = Inr d"
  by (auto simp: canonical_def split: sum.splits)

lemma contains_Inr: "contains a b = Inr r \<longleftrightarrow> ipv4CidrContains a b = Inr r"
  by (auto simp: contains_def split: sum.splits)

lemma create_pool_inv:
  assumes "pool_inv now db" "create_request_ok r" "create_pool newId r db = Inr db'"
  shows "pool_inv now db'"
proof -
  define p where "p = \<lparr>pool_id = newId, pool_name = js_trim (new_name r), pool_cidr = new_cidr r,
    allocation_cidr = new_allocation r, gateway = new_gateway r, reserved_ips = new_reserved r, revision = 1\<rparr>"
  have canon: "canonical (new_cidr r) = Inr (new_cidr r)" "canonical (new_allocation r) = Inr (new_allocation r)"
    using assms(2) by (simp_all add: create_request_ok_def canonical_Inr)
  obtain u db1 where steps: "contains (new_cidr r) (new_allocation r) = Inr True"
      "assertNoCidrOverlap (new_cidr r) (listAllCidrs None db) = Inr u" "insert_pool p db = Inr db1"
      "db' = replaceServers newId (new_servers r) db1"
    using assms(3) by (auto simp: create_pool_def canon res_simps p_def split: if_split_asm)
  have db1: "db1 = db\<lparr>pools := pools db @ [p]\<rparr>" and fresh: "\<forall>q \<in> set (pools db). pool_id q \<noteq> newId"
    using steps(3) by (auto simp: insert_pool_def list_ex_iff p_def split: if_split_asm)
  have db': "pools db' = pools db @ [p]" "claims db' = claims db"
      "pool_servers db' = filter (\<lambda>m. fst m \<noteq> newId) (pool_servers db) @ map (\<lambda>s. (newId, s)) (new_servers r)"
    by (simp_all add: steps(4) db1 replaceServers_def)
  have "pool_ok p"
    using assms(2) by (auto simp: pool_ok_def create_request_ok_def p_def)
  moreover have "\<forall>q \<in> set (pools db). cidr_addresses (pool_cidr p) \<inter> cidr_addresses (pool_cidr q) = {}"
    using assertNoCidrOverlap_Inr [OF steps(2)] by (simp add: listAllCidrs_def p_def)
  then have "disjoint_pools (pools db')"
    using assms(1) by (auto simp: pool_inv_def disjoint_pools_def db'(1))
  moreover have "serves db' c q" if "serves db c q" for c q
    using that fresh by (auto simp: serves_def db')
  then have "\<forall>c \<in> set (claims db). live_claim now c \<longrightarrow> (\<exists>q. serves db' c q)"
    using assms(1) unfolding pool_inv_def by blast
  ultimately show ?thesis using assms(1) fresh unfolding pool_inv_def db'(1,2) by (auto simp: p_def)
qed

lemma find_pool_Some: "find_pool pid db = Some p \<Longrightarrow> p \<in> set (pools db) \<and> pool_id p = pid"
  by (auto simp: find_pool_def find_Some_iff)

lemma pool_by_id: "distinct (map pool_id ps) \<Longrightarrow> p \<in> set ps \<Longrightarrow> q \<in> set ps \<Longrightarrow> pool_id p = pool_id q \<Longrightarrow> p = q"
  by (meson distinct_map inj_onD)

lemma delete_pool_inv:
  assumes "pool_inv now db" "delete_pool now pid db = Inr db'"
  shows "pool_inv now db'"
proof -
  obtain cur where cur: "find_pool pid db = Some cur" "countClaimsForNetwork now (pool_cidr cur) None db = 0"
      "db' = db\<lparr>pools := filter (\<lambda>p. pool_id p \<noteq> pid) (pools db),
                pool_servers := filter (\<lambda>m. fst m \<noteq> pid) (pool_servers db)\<rparr>"
    using assms(2) by (auto simp: delete_pool_def split: option.splits if_split_asm)
  have "serves db' c p" if c: "c \<in> set (claims db)" "live_claim now c" and p: "serves db c p" for c p
  proof -
    have "network_key c \<noteq> pool_cidr cur" by (rule no_claims [OF cur(2) c])
    then have "p \<noteq> cur" using p by (auto simp: serves_def)
    then have "pool_id p \<noteq> pid"
      using pool_by_id [of "pools db" p cur] find_pool_Some [OF cur(1)] p assms(1) by (auto simp: pool_inv_def serves_def)
    then show ?thesis using p by (auto simp: serves_def cur(3))
  qed
  moreover have "distinct (map pool_id (filter (\<lambda>p. pool_id p \<noteq> pid) (pools db)))"
    using assms(1) by (simp add: pool_inv_def distinct_map_filter)
  ultimately show ?thesis using assms(1)
    unfolding pool_inv_def disjoint_pools_def cur(3) by (simp add: cur(3)) blast
qed


subsection \<open>Patching\<close>

text \<open>What a successful patch went through.\<close>

lemma check_network_patch_Inr:
  assumes "check_network_patch now cur r cidr alloc gw res db = Inr u"
  shows "isUsableHostInCidr cidr gw" "ipv4CidrContains cidr alloc = Inr True"
    "list_all (isUsableHostInCidr cidr) res"
    "p_cidr r \<noteq> None \<and> cidr \<noteq> pool_cidr cur \<longrightarrow> countClaimsForNetwork now (pool_cidr cur) None db = 0
       \<and> (\<forall>q \<in> set (pools db). pool_id q \<noteq> pool_id cur \<longrightarrow> cidr_addresses cidr \<inter> cidr_addresses (pool_cidr q) = {})"
    "\<forall>a \<in> set (listClaimAddresses now (pool_cidr cur) db).
       (gw \<noteq> gateway cur \<longrightarrow> a \<noteq> gw) \<and> (a \<in> set res \<longrightarrow> a \<in> set (reserved_ips cur))
       \<and> (p_allocation r \<noteq> None \<and> alloc \<noteq> allocation_cidr cur \<longrightarrow> isUsableHostInCidr alloc a)"
proof -
  have checks: "isUsableHostInCidr cidr gw" "ipv4CidrContains cidr alloc = Inr True"
      "list_all (isUsableHostInCidr cidr) res"
      "p_cidr r \<noteq> None \<and> cidr \<noteq> pool_cidr cur \<longrightarrow> countClaimsForNetwork now (pool_cidr cur) None db = 0
        \<and> assertNoCidrOverlap cidr (listAllCidrs (Some (pool_id cur)) db) = Inr ()"
      "\<not> list_ex (\<lambda>a. a \<in> set (listClaimAddresses now (pool_cidr cur) db))
         ((if gw \<noteq> gateway cur then [gw] else []) @ filter (\<lambda>a. a \<notin> set (reserved_ips cur)) res)"
      "\<not> (p_allocation r \<noteq> None \<and> alloc \<noteq> allocation_cidr cur
         \<and> \<not> list_all (isUsableHostInCidr alloc) (listClaimAddresses now (pool_cidr cur) db))"
    using assms by (auto simp: check_network_patch_def res_simps contains_Inr Let_def split: if_split_asm)
  show "isUsableHostInCidr cidr gw" "ipv4CidrContains cidr alloc = Inr True"
      "list_all (isUsableHostInCidr cidr) res" by (rule checks)+
  show "p_cidr r \<noteq> None \<and> cidr \<noteq> pool_cidr cur \<longrightarrow> countClaimsForNetwork now (pool_cidr cur) None db = 0
       \<and> (\<forall>q \<in> set (pools db). pool_id q \<noteq> pool_id cur \<longrightarrow> cidr_addresses cidr \<inter> cidr_addresses (pool_cidr q) = {})"
    using checks(4) assertNoCidrOverlap_Inr [of cidr "listAllCidrs (Some (pool_id cur)) db"]
    by (auto simp: listAllCidrs_def)
  show "\<forall>a \<in> set (listClaimAddresses now (pool_cidr cur) db).
       (gw \<noteq> gateway cur \<longrightarrow> a \<noteq> gw) \<and> (a \<in> set res \<longrightarrow> a \<in> set (reserved_ips cur))
       \<and> (p_allocation r \<noteq> None \<and> alloc \<noteq> allocation_cidr cur \<longrightarrow> isUsableHostInCidr alloc a)"
    using checks(5,6) by (auto simp: list_ex_iff list_all_iff split: if_split_asm)
qed

text \<open>The pool a patch writes, compared with the one it read.\<close>

definition patched :: "int \<Rightarrow> pool_db \<Rightarrow> pool \<Rightarrow> pool \<Rightarrow> bool" where
  "patched now db cur p \<longleftrightarrow> pool_id p = pool_id cur \<and> pool_ok p
     \<and> (pool_cidr p \<noteq> pool_cidr cur \<longrightarrow> countClaimsForNetwork now (pool_cidr cur) None db = 0
          \<and> (\<forall>q \<in> set (pools db). pool_id q \<noteq> pool_id cur \<longrightarrow>
               cidr_addresses (pool_cidr p) \<inter> cidr_addresses (pool_cidr q) = {}))
     \<and> (\<forall>a \<in> set (listClaimAddresses now (pool_cidr cur) db).
          isUsableHostInCidr (allocation_cidr cur) a \<and> a \<noteq> gateway cur \<and> a \<notin> set (reserved_ips cur) \<longrightarrow>
          isUsableHostInCidr (allocation_cidr p) a \<and> a \<noteq> gateway p \<and> a \<notin> set (reserved_ips p))"

lemma patch_pool_Inr:
  assumes "patch_pool now pid r db = Inr db'" "\<forall>p \<in> set (pools db). pool_ok p"
  obtains cur p db1 where "find_pool pid db = Some cur" "patched now db cur p"
    "pools db' = map (\<lambda>q. if pool_id q = pid \<and> revision q = expectedRevision r then p else q) (pools db)"
    "revision cur = expectedRevision r" "claims db' = claims db" "pool_servers db' = pool_servers db1"
    "db1 = db \<or> (\<exists>ids. rebind_servers now cur ids db = Inr db1)"
proof -
  obtain cur where cur: "find_pool pid db = Some cur" "revision cur = expectedRevision r"
    using assms(1) by (auto simp: patch_pool_def split: option.splits if_split_asm)
  obtain cidr alloc u db1 where steps: "canonical_or (p_cidr r) (pool_cidr cur) = Inr cidr"
      "canonical_or (p_allocation r) (allocation_cidr cur) = Inr alloc"
      "(if p_cidr r \<noteq> None \<or> p_allocation r \<noteq> None \<or> p_gateway r \<noteq> None \<or> p_reserved r \<noteq> None
        then check_network_patch now cur r cidr alloc (or_current (p_gateway r) (gateway cur))
               (or_current (p_reserved r) (reserved_ips cur)) db else Inr ()) = Inr u"
      "(case p_servers r of None \<Rightarrow> Inr db | Some ids \<Rightarrow> rebind_servers now cur ids db) = Inr db1"
      "update_pool pid (expectedRevision r) \<lparr>pool_id = pool_id cur,
         pool_name = (case p_name r of None \<Rightarrow> pool_name cur | Some n \<Rightarrow> js_trim n), pool_cidr = cidr,
         allocation_cidr = alloc, gateway = or_current (p_gateway r) (gateway cur),
         reserved_ips = or_current (p_reserved r) (reserved_ips cur), revision = expectedRevision r + 1\<rparr> db1 = Inr db'"
    using assms(1) by (auto simp: patch_pool_def cur Let_def res_simps simp del: not_None_eq)
  define p where "p = \<lparr>pool_id = pool_id cur,
         pool_name = (case p_name r of None \<Rightarrow> pool_name cur | Some n \<Rightarrow> js_trim n), pool_cidr = cidr,
         allocation_cidr = alloc, gateway = or_current (p_gateway r) (gateway cur),
         reserved_ips = or_current (p_reserved r) (reserved_ips cur), revision = expectedRevision r + 1\<rparr>"
  have same: "p_cidr r = None \<longrightarrow> cidr = pool_cidr cur" "p_allocation r = None \<longrightarrow> alloc = allocation_cidr cur"
      "\<exists>c. canonicalIpv4Cidr c = Inr alloc"
  proof -
    have ok: "pool_ok cur" using assms(2) find_pool_Some [OF cur(1)] by blast
    show "p_cidr r = None \<longrightarrow> cidr = pool_cidr cur" "p_allocation r = None \<longrightarrow> alloc = allocation_cidr cur"
      using steps(1,2) by (auto simp: canonical_or_def)
    show "\<exists>c. canonicalIpv4Cidr c = Inr alloc"
      using steps(2) ok by (auto simp: canonical_or_def canonical_Inr pool_ok_def split: option.splits)
  qed
  have db1: "pools db1 = pools db" "claims db1 = claims db" "db1 = db \<or> (\<exists>ids. rebind_servers now cur ids db = Inr db1)"
    using steps(4) by (auto simp: rebind_servers_def replaceServers_def res_simps split: option.splits if_split_asm)
  have "patched now db cur p"
  proof (cases "p_cidr r \<noteq> None \<or> p_allocation r \<noteq> None \<or> p_gateway r \<noteq> None \<or> p_reserved r \<noteq> None")
    case True
    then have chk: "check_network_patch now cur r cidr alloc (or_current (p_gateway r) (gateway cur))
        (or_current (p_reserved r) (reserved_ips cur)) db = Inr u"
      using steps(3) by simp
    show ?thesis using check_network_patch_Inr [OF chk] same
      by (auto simp: patched_def p_def pool_ok_def)
  next
    case False
    then have "or_current (p_gateway r) (gateway cur) = gateway cur"
        "or_current (p_reserved r) (reserved_ips cur) = reserved_ips cur" "cidr = pool_cidr cur" "alloc = allocation_cidr cur"
      using same by (simp_all add: or_current_def)
    moreover have "pool_ok cur" using assms(2) find_pool_Some [OF cur(1)] by blast
    ultimately show ?thesis by (simp add: patched_def p_def pool_ok_def)
  qed
  moreover have "pools db' = map (\<lambda>q. if pool_id q = pid \<and> revision q = expectedRevision r then p else q) (pools db)"
      "claims db' = claims db" "pool_servers db' = pool_servers db1"
    using steps(5) db1 by (auto simp: update_pool_def p_def split: if_split_asm)
  ultimately show thesis using that cur db1(3) by blast
qed

lemma rebind_keeps:
  assumes "rebind_servers now cur ids db = Inr db1" "(pid, claim_server c) \<in> set (pool_servers db)"
    and "c \<in> set (claims db)" "live_claim now c" "pid = pool_id cur \<Longrightarrow> network_key c = pool_cidr cur"
  shows "(pid, claim_server c) \<in> set (pool_servers db1)"
proof (cases "pid = pool_id cur")
  case True
  have free: "\<forall>s \<in> set (listServerIds (pool_id cur) db). s \<notin> set ids \<longrightarrow>
      countClaimsForNetwork now (pool_cidr cur) (Some s) db = 0"
    and db1: "db1 = replaceServers (pool_id cur) ids db"
    using assms(1) by (auto simp: rebind_servers_def res_simps list_ex_iff split: if_split_asm)
  have "claim_server c \<in> set (listServerIds (pool_id cur) db)"
    using assms(2) True by (force simp: listServerIds_def)
  moreover have "countClaimsForNetwork now (pool_cidr cur) (Some (claim_server c)) db \<noteq> 0"
    using assms(3-5) True by (auto simp: countClaimsForNetwork_def filter_empty_conv)
  ultimately have "claim_server c \<in> set ids" by (metis free)
  then show ?thesis using True by (simp add: db1 replaceServers_def)
next
  case False
  then show ?thesis
    using assms(1,2) by (auto simp: rebind_servers_def replaceServers_def res_simps split: if_split_asm)
qed

lemma replaced_pools:
  assumes "distinct (map pool_id ps)" "cur \<in> set ps" "pool_id cur = pid" "revision cur = rv" "pool_id p = pid"
  shows "set (map (\<lambda>q. if pool_id q = pid \<and> revision q = rv then p else q) ps)
    = insert p {q \<in> set ps. pool_id q \<noteq> pid}" (is "set (map ?f ps) = ?new")
proof -
  have only: "q = cur" if "q \<in> set ps" "pool_id q = pid" for q
    using pool_by_id [OF assms(1) that(1) assms(2)] that(2) assms(3) by simp
  show ?thesis
  proof
    show "set (map ?f ps) \<subseteq> ?new" using only assms(4) by auto
    have "p = ?f cur" using assms(3,4) by simp
    then have "p \<in> set (map ?f ps)" using assms(2) unfolding set_map by (rule image_eqI)
    moreover have "q \<in> set (map ?f ps)" if "q \<in> set ps" "pool_id q \<noteq> pid" for q
      using that unfolding set_map by (intro image_eqI [of _ _ q]) simp_all
    ultimately show "?new \<subseteq> set (map ?f ps)" by blast
  qed
qed

lemma patch_pool_inv:
  assumes inv: "pool_inv now db" and patch: "patch_pool now pid r db = Inr db'"
  shows "pool_inv now db'"
proof -
  have ids: "distinct (map pool_id (pools db))" and oks: "\<forall>p \<in> set (pools db). pool_ok p"
    and dis: "disjoint_pools (pools db)"
    using inv by (simp_all add: pool_inv_def)
  obtain cur p db1 where st: "find_pool pid db = Some cur" "patched now db cur p"
      "pools db' = map (\<lambda>q. if pool_id q = pid \<and> revision q = expectedRevision r then p else q) (pools db)"
      "revision cur = expectedRevision r" "claims db' = claims db" "pool_servers db' = pool_servers db1"
      "db1 = db \<or> (\<exists>ids. rebind_servers now cur ids db = Inr db1)"
    using patch oks by (rule patch_pool_Inr)
  have cur: "cur \<in> set (pools db)" "pool_id cur = pid" using find_pool_Some [OF st(1)] by simp_all
  have p: "pool_id p = pid" "pool_ok p" using st(2) cur(2) by (simp_all add: patched_def)
  have only: "q = cur" if "q \<in> set (pools db)" "pool_id q = pid" for q
    using pool_by_id [OF ids that(1) cur(1)] that(2) cur(2) by simp
  have pools': "set (pools db') = insert p {q \<in> set (pools db). pool_id q \<noteq> pid}"
    unfolding st(3) by (rule replaced_pools [OF ids cur st(4) p(1)])
  have "map pool_id (pools db') = map pool_id (pools db)" using p(1) unfolding st(3) by auto
  then have ids': "distinct (map pool_id (pools db'))" using ids by simp
  have new: "cidr_addresses (pool_cidr p) \<inter> cidr_addresses (pool_cidr q) = {}"
    if "q \<in> set (pools db)" "pool_id q \<noteq> pid" for q
    using st(2) dis cur that unfolding patched_def disjoint_pools_def
    by (cases "pool_cidr p = pool_cidr cur") auto
  then have dis': "disjoint_pools (pools db')"
    using dis p(1) unfolding disjoint_pools_def pools' by blast
  have "\<exists>q'. serves db' c q'" if c: "c \<in> set (claims db)" "live_claim now c" and q: "serves db c q" for c q
  proof -
    have bound: "(pool_id q, claim_server c) \<in> set (pool_servers db')"
    proof -
      have "pool_id q = pool_id cur \<Longrightarrow> network_key c = pool_cidr cur"
        using only [of q] q cur(2) by (auto simp: serves_def)
      then show ?thesis using st(7) rebind_keeps [OF _ _ c] q unfolding st(6) serves_def by blast
    qed
    show ?thesis
    proof (cases "pool_id q = pid")
      case True
      then have "q = cur" using only q by (auto simp: serves_def)
      then have a: "address c \<in> set (listClaimAddresses now (pool_cidr cur) db)" "network_key c = pool_cidr cur"
        using c q by (auto simp: listClaimAddresses_def serves_def)
      have "pool_cidr p = pool_cidr cur"
        using st(2) no_claims [OF _ c, of "pool_cidr cur"] a(2) by (auto simp: patched_def)
      then have "serves db' c p"
        using st(2) a q bound True p(1) \<open>q = cur\<close> by (auto simp: serves_def patched_def pools')
      then show ?thesis by blast
    next
      case False
      then have "serves db' c q" using q bound by (auto simp: serves_def pools')
      then show ?thesis by blast
    qed
  qed
  then have "\<forall>c \<in> set (claims db). live_claim now c \<longrightarrow> (\<exists>q. serves db' c q)"
    using inv unfolding pool_inv_def by blast
  then show ?thesis using inv ids' dis' oks p(2) unfolding pool_inv_def st(5) pools' by blast
qed


subsection \<open>Claiming and releasing\<close>

lemma expire_keeps_live: "filter (live_claim now) (claims (expire_claims now key db)) = filter (live_claim now) (claims db)"
  by (simp add: expire_claims_def) (rule filter_cong, auto simp: live_claim_def split: option.splits)

lemma expire_inv: "pool_inv now db \<Longrightarrow> pool_inv now (expire_claims now key db)"
proof -
  assume inv: "pool_inv now db"
  have "set (claims (expire_claims now key db)) \<subseteq> set (claims db)" by (auto simp: expire_claims_def)
  moreover have "serves (expire_claims now key db) c p = serves db c p" for c p
    by (simp add: serves_def expire_claims_def)
  moreover have "pools (expire_claims now key db) = pools db" by (simp add: expire_claims_def)
  ultimately show ?thesis using inv unfolding pool_inv_def expire_keeps_live by (metis subsetD)
qed

lemma allocateAddress_Inr:
  assumes "pool_inv now db" "seed_value cid \<noteq> None" "set ps \<subseteq> set (pools db)"
    and "allocateAddress now cid ps lastKey db = Inr ((key, a), db')"
  shows "pool_inv now db' \<and> pools db' = pools db \<and> pool_servers db' = pool_servers db
    \<and> (\<exists>p \<in> set ps. key = pool_cidr p \<and> isUsableHostInCidr (allocation_cidr p) a \<and> a \<noteq> gateway p
         \<and> a \<notin> set (reserved_ips p))
    \<and> (\<forall>c \<in> set (claims db'). live_claim now c \<longrightarrow> live_key c \<noteq> (key, a))"
  using assms
proof (induction ps arbitrary: lastKey db)
  case (Cons p ps)
  obtain r db1 where f: "findAvailableAddress now (pool_cidr p) (allocation_cidr p) (gateway p # reserved_ips p) cid db = (r, db1)"
    by fastforce
  obtain c where c: "canonicalIpv4Cidr c = Inr (allocation_cidr p)"
    using Cons.prems(1,3) by (auto simp: pool_inv_def pool_ok_def)
  note found = found_address [OF c Cons.prems(2) f]
  have inv1: "pool_inv now db1" unfolding found(1) by (rule expire_inv [OF Cons.prems(1)])
  have db1: "pools db1 = pools db" "pool_servers db1 = pool_servers db" by (simp_all add: found(1) expire_claims_def)
  show ?case
  proof (cases r)
    case (Inr a')
    then have eqs: "key = pool_cidr p" "a' = a" "db' = db1" using Cons.prems(4) f by simp_all
    have "isUsableHostInCidr (allocation_cidr p) a" "a \<notin> occupied_addresses now (pool_cidr p) (gateway p # reserved_ips p) db1"
      using found(3) Inr eqs by simp_all
    then have "isUsableHostInCidr (allocation_cidr p) a" "a \<noteq> gateway p" "a \<notin> set (reserved_ips p)"
        "\<forall>c \<in> set (claims db1). live_claim now c \<longrightarrow> live_key c \<noteq> (pool_cidr p, a)"
      by (auto simp: occupied_addresses_def live_key_def live_claim_def)
    with inv1 db1 eqs show ?thesis by simp
  next
    case (Inl e)
    then have "allocateAddress now cid ps (Some (pool_cidr p)) db1 = Inr ((key, a), db')"
      using Cons.prems(4) f found(2) by (cases e) auto
    from Cons.IH [OF inv1 Cons.prems(2) _ this] Cons.prems(3) db1 show ?thesis by auto
  qed
qed simp

lemma claim_address_inv:
  assumes "pool_inv now db" "seed_value cid \<noteq> None" "claim_address now s cid db = Inr db'"
  shows "pool_inv now db'"
proof -
  define ps where "ps = listForServer s db"
  obtain key a db1 where al: "allocateAddress now cid ps None db = Inr ((key, a), db1)"
      and db': "db' = db1\<lparr>claims := claims db1 @ [\<lparr>claim_container = Some cid, claim_server = s, network_key = key,
        address = a, state = Active, reusable_at = None\<rparr>]\<rparr>"
    using assms(3) by (auto simp: claim_address_def ps_def Let_def split: sum.splits if_split_asm)
  have ps: "set ps \<subseteq> set (pools db)" by (auto simp: ps_def listForServer_def)
  from allocateAddress_Inr [OF assms(1,2) ps al] obtain p where
      inv1: "pool_inv now db1" and db1: "pools db1 = pools db" "pool_servers db1 = pool_servers db"
      and p: "p \<in> set ps" "key = pool_cidr p" "isUsableHostInCidr (allocation_cidr p) a" "a \<noteq> gateway p" "a \<notin> set (reserved_ips p)"
      and new: "\<forall>c \<in> set (claims db1). live_claim now c \<longrightarrow> live_key c \<noteq> (key, a)" by blast
  define n where "n = \<lparr>claim_container = Some cid, claim_server = s, network_key = key, address = a, state = Active, reusable_at = None\<rparr>"
  have n: "claims db' = claims db1 @ [n]" "live_claim now n" "live_key n = (key, a)" "state n = Active"
    by (simp_all add: db' n_def live_claim_def live_key_def)
  have "serves db' n p" using p ps db1 by (auto simp: serves_def db' n_def ps_def listForServer_def)
  moreover have "serves db' = serves db1" by (simp add: fun_eq_iff serves_def db')
  moreover have "pools db' = pools db1" by (simp add: db')
  moreover have "(key, a) \<notin> set (map live_key (filter (live_claim now) (claims db1)))" using new by auto
  ultimately show ?thesis using inv1 n unfolding pool_inv_def by (simp del: set_map) blast
qed

lemma release_inv:
  assumes "pool_inv now db"
  shows "pool_inv now (releaseContainerState now cid db)"
proof -
  define rel :: "claim \<Rightarrow> claim" where "rel = (\<lambda>c. if claim_container c = Some cid
     then c\<lparr>claim_container := None, state := Releasing, reusable_at := Some (now + 360000)\<rparr> else c)"
  define db' where "db' = releaseContainerState now cid db"
  have db': "claims db' = map rel (claims db)" "pools db' = pools db" "pool_servers db' = pool_servers db"
    by (simp_all add: db'_def releaseContainerState_def rel_def)
  have live: "live_claim now (rel c) = live_claim now c" if "c \<in> set (claims db)" for c
    using that assms by (auto simp: rel_def live_claim_def pool_inv_def)
  have same: "live_key (rel c) = live_key c" "claim_container (rel c) \<noteq> None \<Longrightarrow> rel c = c"
    "claim_server (rel c) = claim_server c" "network_key (rel c) = network_key c" "address (rel c) = address c" for c
    by (auto simp: rel_def live_key_def)
  have "filter (live_claim now) (map rel (claims db)) = map rel (filter (live_claim now) (claims db))"
    using live by (simp add: filter_map o_def cong: filter_cong)
  then have "distinct (map live_key (filter (live_claim now) (claims db')))"
    using assms by (simp add: db'(1) o_def same(1) pool_inv_def)
  moreover have "\<forall>c \<in> set (claims db'). live_claim now c \<longrightarrow> (\<exists>p. serves db' c p)"
    using assms live by (auto simp: db' serves_def pool_inv_def same)
  moreover have "\<forall>c \<in> set (claims db'). claim_container c \<noteq> None \<longrightarrow> state c = Active"
    using assms same(2) by (fastforce simp: db'(1) pool_inv_def)
  ultimately show ?thesis
    using assms unfolding pool_inv_def db'_def [symmetric] db'(2) by blast
qed

definition run_inv :: "pool_run \<Rightarrow> bool" where
  "run_inv s \<longleftrightarrow> pool_inv (clock s) (tables s)"

lemma pool_step_inv:
  assumes "run_inv s"
  shows "run_inv (pool_step s x)"
proof -
  have inv: "pool_inv (clock s + int d) (tables s)" for d
    by (rule pool_inv_later [OF assms [unfolded run_inv_def]]) simp
  show ?thesis
  proof (cases x)
    case (CreatePool d newId r)
    then show ?thesis
      using inv [of d] create_pool_inv [OF inv [of d]] by (auto simp: run_inv_def commit_def split: sum.split)
  next
    case (PatchPool d pid r)
    then show ?thesis
      using inv [of d] patch_pool_inv [OF inv [of d]] by (auto simp: run_inv_def commit_def split: sum.split)
  next
    case (DeletePool d pid)
    then show ?thesis
      using inv [of d] delete_pool_inv [OF inv [of d]] by (auto simp: run_inv_def commit_def split: sum.split)
  next
    case (Claim d server cid)
    then show ?thesis
      using inv [of d] claim_address_inv [OF inv [of d]] by (auto simp: run_inv_def commit_def split: sum.split)
  next
    case (Release d cid)
    then show ?thesis using release_inv [OF inv [of d]] by (simp add: run_inv_def)
  qed
qed

lemma pool_start_inv: "run_inv (pool_start t ids)"
  by (simp add: run_inv_def pool_start_def pool_inv_def disjoint_pools_def)

interpretation pool_runs: preserved pool_step run_inv
  by unfold_locales (rule pool_step_inv)

lemma same_address_same_key:
  assumes "pool_inv now db" "serves db c p" "serves db d q" "address c = address d"
  shows "live_key c = live_key d"
proof -
  have in_pool: "\<exists>n. ipToNum (address e) = Inr n \<and> n \<in> cidr_addresses (pool_cidr r)" if "serves db e r" for e r
  proof -
    have "isUsableHostInCidr (allocation_cidr r) (address e)" "pool_ok r"
      using that assms(1) by (auto simp: serves_def pool_inv_def)
    then show ?thesis using usable_in_block contained_addresses unfolding pool_ok_def by blast
  qed
  then have "cidr_addresses (pool_cidr p) \<inter> cidr_addresses (pool_cidr q) \<noteq> {}"
    using in_pool [OF assms(2)] in_pool [OF assms(3)] assms(4) by auto
  then have "pool_id p = pool_id q"
    using assms(1-3) unfolding pool_inv_def disjoint_pools_def serves_def by blast
  moreover have "distinct (map pool_id (pools db))" using assms(1) by (simp add: pool_inv_def)
  ultimately have "p = q" using pool_by_id assms(2,3) unfolding serves_def by blast
  then show ?thesis using assms(2-4) by (simp add: serves_def live_key_def)
qed

lemma live_addresses_distinct:
  assumes "pool_inv now db"
  shows "distinct (map address (filter (live_claim now) (claims db)))"
proof -
  define live where "live = filter (live_claim now) (claims db)"
  have keys: "distinct (map live_key live)" using assms by (simp add: pool_inv_def live_def)
  have "inj_on address (set live)"
  proof (rule inj_onI)
    fix c d assume m: "c \<in> set live" "d \<in> set live" and e: "address c = address d"
    have "\<exists>p. serves db x p" if "x \<in> set live" for x using that assms by (auto simp: live_def pool_inv_def)
    with m have "live_key c = live_key d" using same_address_same_key [OF assms _ _ e] by blast
    with keys m show "c = d" by (auto simp: distinct_map dest: inj_onD)
  qed
  then show ?thesis using keys unfolding live_def [symmetric] by (simp add: distinct_map)
qed

text \<open>C14. Whatever pools are created, patched and deleted and whatever containers claim and release, in any
  order: no two pools overlap; every address held by a container, or released less than six minutes ago, is
  a host of the allocation block of a pool that is bound to the server of the claim, and is neither that pool's
  gateway nor one of its reserved addresses; and no address is held twice on the whole platform, whichever
  servers and pools the claims name.\<close>

theorem live_claims_exclusive:
  fixes t :: int and ids :: "string list" and ops :: "pool_op list"
  defines "s \<equiv> foldl pool_step (pool_start t ids) ops"
  shows "disjoint_pools (pools (tables s))
    \<and> (\<forall>c \<in> set (claims (tables s)). live_claim (clock s) c \<longrightarrow> (\<exists>p. serves (tables s) c p))
    \<and> distinct (map address (filter (live_claim (clock s)) (claims (tables s))))"
proof -
  have inv: "pool_inv (clock s) (tables s)"
    using pool_runs.run_inv [OF pool_start_inv, of t ids ops] by (simp add: run_inv_def s_def)
  with live_addresses_distinct [OF inv] show ?thesis by (simp add: pool_inv_def)
qed

subsubsection \<open>A run\<close>

definition office_pool :: create_pool_request where
  "office_pool = \<lparr>new_name = ''office'', new_cidr = ''10.0.0.0/29'', new_allocation = ''10.0.0.0/29'',
     new_gateway = ''10.0.0.1'', new_reserved = [''10.0.0.2''], new_servers = [''a'']\<rparr>"

definition office_db :: pool_db where
  "office_db = \<lparr>pools = [\<lparr>pool_id = ''p'', pool_name = ''office'', pool_cidr = ''10.0.0.0/29'',
       allocation_cidr = ''10.0.0.0/29'', gateway = ''10.0.0.1'', reserved_ips = [''10.0.0.2''], revision = 1\<rparr>],
     pool_servers = [(''p'', ''a'')], claims = [], server_ids = [''a'']\<rparr>"

definition office_ops :: "pool_op list" where
  "office_ops = [CreatePool 0 ''p'' office_pool, Claim 1 ''a'' ''00000000'', Release 1 ''00000000'', Claim 1 ''a'' ''00000002'']"

lemma integer_29: "js_integer ''29'' = Some 29"
  using js_integer_show [of 29] by (simp add: show_nat.simps digit_char_eval)

lemma number_10: "ipv4Number ''10.0.0.0'' = Some 167772160"
  using ipv4Number_text [of 167772160] by (simp add: ipv4Text_def show_nat.simps digit_char_eval Let_def)

lemma office_block: "parseIpv4Cidr ''10.0.0.0/29'' = Some \<lparr>network = 167772160, broadcast = 167772167, prefix = 29\<rparr>"
  using word_aligned [of 167772160 3]
  by (simp add: parseIpv4Cidr_def integer_29 number_10 Let_def mask_eq_exp_minus_1 minus_exp_eq_not_mask)

lemma trim_office: "js_trim ''office'' = ''office''"
  by code_simp

lemma office_seeds: "seed_value ''00000000'' = Some 0" "seed_value ''00000002'' = Some 2"
  by code_simp+

lemma first_free_numeral: "first_free cand busy i (numeral k) =
    (if busy (cand i) then first_free cand busy (Suc i) (pred_numeral k) else Some (cand i))"
  by (simp add: numeral_eq_Suc)

lemmas search_eval = findAvailableAddress_def office_block expire_claims_def occupied_addresses_def
  candidate_at_def ipv4Text_def show_nat.simps digit_char_eval Let_def first_free_numeral office_seeds

lemma office_created: "pool_step (pool_start 0 [''a'']) (CreatePool 0 ''p'' office_pool) = \<lparr>clock = 0, tables = office_db\<rparr>"
  by (simp add: pool_start_def office_pool_def create_request_ok_def commit_def create_pool_def ip_eval insert_pool_def
      assertServersExist_def replaceServers_def office_db_def res_simps listAllCidrs_def canonical_def contains_def trim_office)

lemma office_run: "foldl pool_step (pool_start 0 [''a'']) office_ops = \<lparr>clock = 3, tables = office_db\<lparr>claims :=
    [\<lparr>claim_container = None, claim_server = ''a'', network_key = ''10.0.0.0/29'', address = ''10.0.0.3'',
       state = Releasing, reusable_at = Some 360002\<rparr>,
     \<lparr>claim_container = Some ''00000002'', claim_server = ''a'', network_key = ''10.0.0.0/29'', address = ''10.0.0.4'',
       state = Active, reusable_at = None\<rparr>]\<rparr>\<rparr>"
proof -
  have 1: "pool_step \<lparr>clock = 0, tables = office_db\<rparr> (Claim 1 ''a'' ''00000000'')
      = \<lparr>clock = 1, tables = office_db\<lparr>claims := [\<lparr>claim_container = Some ''00000000'', claim_server = ''a'',
           network_key = ''10.0.0.0/29'', address = ''10.0.0.3'', state = Active, reusable_at = None\<rparr>]\<rparr>\<rparr>"
    by (simp add: office_db_def commit_def claim_address_def listForServer_def search_eval)
  show ?thesis
    unfolding office_ops_def foldl_Cons foldl_Nil office_created 1
    by (simp add: office_db_def commit_def claim_address_def listForServer_def releaseContainerState_def search_eval
        del: set_filter set_map)
qed

theorem live_claims_exclusive_witness:
  "\<exists>s released held. s = foldl pool_step (pool_start 0 [''a'']) office_ops \<and> claims (tables s) = [released, held]
     \<and> claim_container held = Some ''00000002'' \<and> (\<exists>p. serves (tables s) held p)
     \<and> claim_container released = None \<and> (\<exists>p. serves (tables s) released p) \<and> address released \<noteq> address held"
  using live_claims_exclusive [of 0 "[''a'']" office_ops, unfolded office_run] unfolding office_run
  by (auto simp: live_claim_def)

text \<open>C39. The search for a free address, in a canonical allocation block and for a container with a seed,
  never reports an invalid block; the address it answers is a host of the block that no live claim of the network
  holds and that is not in the list of reserved ones; and in a block of at most 65536 addresses (\<open>/16\<close> and
  longer) it answers that none is available only when every host of the block is taken.\<close>

theorem address_search_correct:
  assumes "canonicalIpv4Cidr c = Inr alloc" "seed_value seed \<noteq> None"
    and "findAvailableAddress now key alloc reserved seed db = (r, db1)"
  shows "r \<noteq> Inl InvalidPoolCidr
    \<and> (\<forall>a. r = Inr a \<longrightarrow> isUsableHostInCidr alloc a \<and> a \<notin> set reserved
          \<and> (\<forall>k \<in> set (claims db). network_key k = key \<and> live_claim now k \<longrightarrow> address k \<noteq> a))
    \<and> (r = Inl NoAddressAvailable \<longrightarrow> (\<forall>base len n. parseCidr alloc = Inr (base, len) \<and> 16 \<le> len \<and> n < 2 ^ 32
          \<and> isUsableHostInCidr alloc (ipv4Text (int n)) \<longrightarrow>
          ipv4Text (int n) \<in> set reserved
          \<or> (\<exists>k \<in> set (claims db). network_key k = key \<and> live_claim now k \<and> address k = ipv4Text (int n))))"
proof -
  note f = found_address [OF assms]
  have occ: "occupied_addresses now key reserved db1
      = {address c | c. c \<in> set (claims db) \<and> network_key c = key \<and> live_claim now c} \<union> set reserved"
    unfolding f(1) by (rule occupied_expired)
  have full: "ipv4Text (int n) \<in> set reserved
      \<or> (\<exists>k \<in> set (claims db). network_key k = key \<and> live_claim now k \<and> address k = ipv4Text (int n))"
    if "r = Inl NoAddressAvailable" "parseCidr alloc = Inr (base, len)" "16 \<le> len" "n < 2 ^ 32"
      "isUsableHostInCidr alloc (ipv4Text (int n))" for base len n
    using exhausted_block [OF assms(1,2) assms(3) [unfolded that(1)] that(2-5)] unfolding occ by auto
  have "r = Inl NoAddressAvailable \<longrightarrow> (\<forall>base len n. parseCidr alloc = Inr (base, len) \<and> 16 \<le> len \<and> n < 2 ^ 32
      \<and> isUsableHostInCidr alloc (ipv4Text (int n)) \<longrightarrow> ipv4Text (int n) \<in> set reserved
        \<or> (\<exists>k \<in> set (claims db). network_key k = key \<and> live_claim now k \<and> address k = ipv4Text (int n)))"
    by (intro impI allI, elim conjE) (rule full)
  moreover have "\<forall>a. r = Inr a \<longrightarrow> isUsableHostInCidr alloc a \<and> a \<notin> set reserved
      \<and> (\<forall>k \<in> set (claims db). network_key k = key \<and> live_claim now k \<longrightarrow> address k \<noteq> a)"
    using f(3) unfolding occ by auto
  ultimately show ?thesis using f(2) by simp
qed

theorem address_search_correct_witness:
  "canonicalIpv4Cidr ''10.0.0.0/29'' = Inr ''10.0.0.0/29''
   \<and> findAvailableAddress 9 ''k'' ''10.0.0.0/29'' [''10.0.0.3''] ''00000002'' office_db = (Inr ''10.0.0.2'', office_db)
   \<and> isUsableHostInCidr ''10.0.0.0/29'' ''10.0.0.2''"
proof -
  have c: "canonicalIpv4Cidr ''10.0.0.0/29'' = Inr ''10.0.0.0/29''" by (simp add: ip_eval)
  have s: "seed_value ''00000002'' \<noteq> None" by (simp add: office_seeds)
  have r: "findAvailableAddress 9 ''k'' ''10.0.0.0/29'' [''10.0.0.3''] ''00000002'' office_db = (Inr ''10.0.0.2'', office_db)"
    by (simp add: office_db_def search_eval)
  with c address_search_correct [OF c s r] show ?thesis by blast
qed

end
