(* ===== verification/Reconcile_Leases.thy ===== *)
theory Reconcile_Leases
  imports Instance_Spec
begin

text \<open>
  The leases of the reconcile workers: \<open>backend/src/reconcile/reconcile-claim.repository.ts\<close>.

  The state is the table \<open>control.reconcile_claims\<close>, a list of rows; its columns \<open>resource_id\<close>,
  \<open>placement_server_id\<close> and \<open>server_id\<close> are of type \<open>uuid\<close>, so the rows hold ids by value (\<open>uuid_value\<close>)
  while the code compares its arguments by text. A claim is one transaction and every other operation one
  statement: each is one step, which reads \<open>clock_timestamp()\<close> (\<open>now\<close>, in milliseconds) once. \<open>wall\<close> is
  \<open>Date.now()\<close> of the claiming process and is not tied to \<open>now\<close>. The foreign key of \<open>server_id\<close> is not modelled.

  The lemmas: keys are unique, the rows keep the shape the table checks, a server has at most eight live claims, the
  destruction of a volume excludes work on its placements, and a lease is its worker's for its whole term.
\<close>

subsection \<open>Rows\<close>

type_synonym lease_key = "string \<times> string \<times> string"

record lease =
  leaseKey :: lease_key
  leaseServerId :: "string option"
  leaseWorkerId :: string
  leaseExpiresAt :: int
  claimedAt :: int

record claim_input =
  in_type :: string
  in_id :: string
  in_placement :: string
  in_server :: "string option"
  in_worker :: string

definition RECONCILE_RENEWAL_MS :: int where
  "RECONCILE_RENEWAL_MS = 20000"

definition LEASE_MS :: int where
  "LEASE_MS = 60000"

definition MAX_ACTIVE_CLAIMS_PER_SERVER :: nat where
  "MAX_ACTIVE_CLAIMS_PER_SERVER = 8"

definition VOLUME_DESTROY_PLACEMENT_ID :: string where
  "VOLUME_DESTROY_PLACEMENT_ID = ''00000000-0000-4000-8000-000000000001''"

definition INTENT_RESOURCE_TYPES :: "string list" where
  "INTENT_RESOURCE_TYPES = [''container'', ''volume'', ''image_assignment'', ''server'']"

definition isReconcileResourceType :: "string \<Rightarrow> bool" where
  "isReconcileResourceType v \<longleftrightarrow> v = ''access_lapse'' \<or> v \<in> set INTENT_RESOURCE_TYPES"

datatype claim_failure = UnsupportedType string | NotUuid string | BadWorkerId | CheckViolation

definition assertUuid :: "string \<Rightarrow> string \<Rightarrow> claim_failure + unit" where
  "assertUuid v label = (if \<not> UUID_PATTERN v \<and> \<not> UUID32_PATTERN v then Inl (NotUuid label) else Inr ())"

text \<open>A \<open>uuid\<close> column: two spellings of one id are the same value.\<close>

definition uuid_value :: "string \<Rightarrow> string" where
  "uuid_value v = to_lower (filter (\<lambda>c. c \<noteq> CHR ''-'') v)"

definition DESTROY_VALUE :: string where
  "DESTROY_VALUE = uuid_value VOLUME_DESTROY_PLACEMENT_ID"

fun key_value :: "lease_key \<Rightarrow> lease_key" where
  "key_value (ty, rid, placement) = (ty, uuid_value rid, uuid_value placement)"

definition input_key :: "claim_input \<Rightarrow> lease_key" where
  "input_key i = key_value (in_type i, in_id i, in_placement i)"

text \<open>
  The constraints \<open>reconcile_claims_worker_check\<close> and \<open>reconcile_claims_placement_shape_check\<close>; an empty text is
  no \<open>uuid\<close>.
\<close>

fun placement_shape :: "lease_key \<Rightarrow> string option \<Rightarrow> bool" where
  "placement_shape (ty, rid, placement) server \<longleftrightarrow>
     (placement = DESTROY_VALUE \<and> server = None \<and> ty = ''volume'')
   \<or> (ty = ''access_lapse'' \<and> server = None)
   \<or> (ty \<noteq> ''access_lapse'' \<and> placement \<noteq> DESTROY_VALUE \<and> server = Some placement)"

definition row_check :: "lease \<Rightarrow> bool" where
  "row_check l \<longleftrightarrow> leaseServerId l \<noteq> Some [] \<and> list_ex (\<lambda>c. c \<noteq> CHR '' '') (leaseWorkerId l) \<and> placement_shape (leaseKey l) (leaseServerId l)"


subsection \<open>Operations\<close>

text \<open>A server id that is null or empty counts as absent.\<close>

definition serverAtCapacity :: "int \<Rightarrow> string option \<Rightarrow> lease list \<Rightarrow> bool" where
  "serverAtCapacity now serverId db =
     (case serverId of
        None \<Rightarrow> False
      | Some s \<Rightarrow> s \<noteq> [] \<and> MAX_ACTIVE_CLAIMS_PER_SERVER
          \<le> length (filter (\<lambda>l. leaseServerId l = Some (uuid_value s) \<and> leaseExpiresAt l > now) db))"

text \<open>A volume is destroyed alone: none of its placements is worked on meanwhile, and the other way round.\<close>

definition destroy_conflict :: "int \<Rightarrow> claim_input \<Rightarrow> lease list \<Rightarrow> bool" where
  "destroy_conflict now i db \<longleftrightarrow> in_type i = ''volume'' \<and>
     list_ex (\<lambda>l. fst (leaseKey l) = ''volume'' \<and> fst (snd (leaseKey l)) = uuid_value (in_id i)
       \<and> (if in_placement i = VOLUME_DESTROY_PLACEMENT_ID then snd (snd (leaseKey l)) \<noteq> DESTROY_VALUE
          else snd (snd (leaseKey l)) = DESTROY_VALUE)
       \<and> leaseExpiresAt l > now) db"

text \<open>\<open>UPDATE \<dots> WHERE \<dots> RETURNING *\<close>, answered by the first row written.\<close>

definition update_rows :: "(lease \<Rightarrow> bool) \<Rightarrow> (lease \<Rightarrow> lease) \<Rightarrow> lease list \<Rightarrow> lease option \<times> lease list" where
  "update_rows cond write db = (map_option write (find cond db), map (\<lambda>l. if cond l then write l else l) db)"

definition renew :: "int \<Rightarrow> lease_key \<Rightarrow> string \<Rightarrow> lease list \<Rightarrow> lease option \<times> lease list" where
  "renew now key worker = update_rows
     (\<lambda>l. leaseKey l = key_value key \<and> leaseWorkerId l = worker \<and> leaseExpiresAt l > now)
     (\<lambda>l. l\<lparr>leaseExpiresAt := now + LEASE_MS\<rparr>)"

definition new_lease :: "int \<Rightarrow> claim_input \<Rightarrow> lease" where
  "new_lease now i = \<lparr>leaseKey = input_key i, leaseServerId = map_option uuid_value (in_server i),
     leaseWorkerId = in_worker i, leaseExpiresAt = now + LEASE_MS, claimedAt = now\<rparr>"

text \<open>An expired row is taken over in place: every column but the key is written.\<close>

definition taken_over :: "int \<Rightarrow> claim_input \<Rightarrow> lease \<Rightarrow> lease" where
  "taken_over now i l = l\<lparr>leaseServerId := map_option uuid_value (in_server i), leaseWorkerId := in_worker i,
     leaseExpiresAt := now + LEASE_MS, claimedAt := now\<rparr>"

definition recycle :: "int \<Rightarrow> claim_input \<Rightarrow> lease list \<Rightarrow> lease option \<times> lease list" where
  "recycle now i = update_rows (\<lambda>l. leaseKey l = input_key i \<and> leaseExpiresAt l \<le> now) (taken_over now i)"

text \<open>A violated constraint aborts the transaction.\<close>

definition claimInTransaction
  :: "int \<Rightarrow> int \<Rightarrow> claim_input \<Rightarrow> lease list \<Rightarrow> (claim_failure + lease option) \<times> lease list" where
  "claimInTransaction now wall i db =
     (if destroy_conflict now i db then (Inr None, db)
      else (case find (\<lambda>l. leaseKey l = input_key i) db of
        Some cur \<Rightarrow>
          if leaseExpiresAt cur > wall \<and> leaseWorkerId cur \<noteq> in_worker i then (Inr None, db)
          else if leaseExpiresAt cur > wall then
            (case renew now (in_type i, in_id i, in_placement i) (in_worker i) db of (r, db') \<Rightarrow> (Inr r, db'))
          else if serverAtCapacity now (in_server i) db then (Inr None, db)
          else (case recycle now i db of (r, db') \<Rightarrow> if list_all row_check db' then (Inr r, db') else (Inl CheckViolation, db))
      | None \<Rightarrow>
          if serverAtCapacity now (in_server i) db then (Inr None, db)
          else if row_check (new_lease now i) then (Inr (Some (new_lease now i)), db @ [new_lease now i])
          else (Inl CheckViolation, db)))"

definition claim_lease
  :: "int \<Rightarrow> int \<Rightarrow> claim_input \<Rightarrow> lease list \<Rightarrow> (claim_failure + lease option) \<times> lease list" where
  "claim_lease now wall i db =
     (let checked =
            (if \<not> isReconcileResourceType (in_type i) then Inl (UnsupportedType (in_type i))
             else bind_res (assertUuid (in_id i) ''Claim resource id'') (\<lambda>_.
                  bind_res (assertUuid (in_placement i) ''Claim placement server id'') (\<lambda>_.
                  bind_res (case in_server i of
                      None \<Rightarrow> Inr ()
                    | Some s \<Rightarrow> if s = [] then Inr () else assertUuid s ''Claim server id'') (\<lambda>_.
                  if in_worker i = [] \<or> length (in_worker i) > 128 then Inl BadWorkerId else Inr ()))))
      in case checked of Inl e \<Rightarrow> (Inl e, db) | Inr _ \<Rightarrow> claimInTransaction now wall i db)"

definition release_lease :: "lease_key \<Rightarrow> string \<Rightarrow> lease list \<Rightarrow> bool \<times> lease list" where
  "release_lease key worker db =
     (let mine = (\<lambda>l. leaseKey l = key_value key \<and> leaseWorkerId l = worker)
      in (list_ex mine db, filter (\<lambda>l. \<not> mine l) db))"

definition reapExpired :: "int \<Rightarrow> lease list \<Rightarrow> nat \<times> lease list" where
  "reapExpired now db =
     (length (filter (\<lambda>l. leaseExpiresAt l \<le> now) db), filter (\<lambda>l. \<not> leaseExpiresAt l \<le> now) db)"

text \<open>Removing a server, and the volumes that go with it, drops their claims.\<close>

definition drop_server_claims :: "string \<Rightarrow> lease list \<Rightarrow> lease list" where
  "drop_server_claims serverId =
     filter (\<lambda>l. \<not> (leaseServerId l = Some (uuid_value serverId) \<or> snd (snd (leaseKey l)) = uuid_value serverId))"

definition drop_volume_claims :: "string \<Rightarrow> lease list \<Rightarrow> lease list" where
  "drop_volume_claims volumeId =
     filter (\<lambda>l. \<not> (fst (leaseKey l) = ''volume'' \<and> fst (snd (leaseKey l)) = uuid_value volumeId))"

text \<open>The guard a worker holds while it works; once lost, it stays lost.\<close>

record lease_guard =
  guarded :: lease
  guardLost :: bool

definition startLeaseGuard :: "lease \<Rightarrow> lease_guard" where
  "startLeaseGuard l = \<lparr>guarded = l, guardLost = False\<rparr>"

definition guard_renew :: "int \<Rightarrow> lease_guard \<Rightarrow> lease list \<Rightarrow> bool \<times> lease_guard \<times> lease list" where
  "guard_renew now g db =
     (if guardLost g then (False, g, db)
      else (case renew now (leaseKey (guarded g)) (leaseWorkerId (guarded g)) db of
        (None, db') \<Rightarrow> (False, g\<lparr>guardLost := True\<rparr>, db')
      | (Some l, db') \<Rightarrow> (True, g\<lparr>guarded := l\<rparr>, db')))"

definition assertOwned :: "lease_guard \<Rightarrow> string + unit" where
  "assertOwned g = (if guardLost g then Inl ''RECONCILE_LEASE_LOST'' else Inr ())"

definition withLease :: "lease \<Rightarrow> (lease_guard \<Rightarrow> lease list \<Rightarrow> 'a \<times> lease list) \<Rightarrow> lease list \<Rightarrow> 'a \<times> lease list" where
  "withLease l operation db =
     (case operation (startLeaseGuard l) db of
        (r, db') \<Rightarrow> (r, snd (release_lease (leaseKey l) (leaseWorkerId l) db')))"


subsection \<open>Histories\<close>

datatype lease_op =
    Claim int int claim_input
  | Renew int lease_key string
  | Release int lease_key string
  | Reap int
  | Drop_Server int string
  | Drop_Volume int string

fun op_time :: "lease_op \<Rightarrow> int" where
  "op_time (Claim now wall i) = now"
| "op_time (Renew now key w) = now"
| "op_time (Release now key w) = now"
| "op_time (Reap now) = now"
| "op_time (Drop_Server now s) = now"
| "op_time (Drop_Volume now v) = now"

fun lease_step :: "lease list \<Rightarrow> lease_op \<Rightarrow> lease list" where
  "lease_step db (Claim now wall i) = snd (claim_lease now wall i db)"
| "lease_step db (Renew now key w) = snd (renew now key w db)"
| "lease_step db (Release now key w) = snd (release_lease key w db)"
| "lease_step db (Reap now) = snd (reapExpired now db)"
| "lease_step db (Drop_Server now s) = drop_server_claims s db"
| "lease_step db (Drop_Volume now v) = drop_volume_claims v db"

text \<open>The operations that end a lease of worker \<open>w\<close> on \<open>k\<close> before its term.\<close>

fun gives_up :: "lease_op \<Rightarrow> lease_key \<Rightarrow> string \<Rightarrow> bool" where
  "gives_up (Release now key w') k w \<longleftrightarrow> key_value key = k \<and> w' = w"
| "gives_up (Drop_Server now s) k w \<longleftrightarrow> snd (snd k) = uuid_value s"
| "gives_up (Drop_Volume now v) k w \<longleftrightarrow> fst k = ''volume'' \<and> fst (snd k) = uuid_value v"
| "gives_up _ k w \<longleftrightarrow> False"

text \<open>Callers pass the id of a destruction as the constant, never in another spelling.\<close>

fun spelled :: "lease_op \<Rightarrow> bool" where
  "spelled (Claim now wall i) \<longleftrightarrow> (uuid_value (in_placement i) = DESTROY_VALUE \<longrightarrow> in_placement i = VOLUME_DESTROY_PLACEMENT_ID)"
| "spelled _ \<longleftrightarrow> True"


subsection \<open>Leases run their term\<close>

text \<open>
  What a worker relies on: a lease it holds stays its own, whatever the others do, until the term ends or it is
  given up.
\<close>

locale leased =
  fixes step :: "'s \<Rightarrow> 'op \<Rightarrow> 's"
    and time :: "'op \<Rightarrow> int"
    and holds :: "'s \<Rightarrow> 'k \<Rightarrow> 'w \<Rightarrow> int \<Rightarrow> bool"
    and ends :: "'op \<Rightarrow> 'k \<Rightarrow> 'w \<Rightarrow> bool"
    and span :: int
  assumes holds_step: "holds s k w e \<Longrightarrow> e - span \<le> time x \<Longrightarrow> time x < e \<Longrightarrow> \<not> ends x k w \<Longrightarrow> holds (step s x) k w e"
begin

lemma holds_run:
  "holds s k w e \<Longrightarrow> \<forall>x \<in> set xs. e - span \<le> time x \<and> time x < e \<and> \<not> ends x k w \<Longrightarrow> holds (foldl step s xs) k w e"
  by (induction xs arbitrary: s) (auto intro: holds_step)

end

definition holds_lease :: "lease list \<Rightarrow> lease_key \<Rightarrow> string \<Rightarrow> int \<Rightarrow> bool" where
  "holds_lease db k w e \<longleftrightarrow> list_all row_check db
     \<and> list_ex (\<lambda>l. leaseKey l = k \<and> leaseWorkerId l = w \<and> leaseExpiresAt l \<ge> e) db"

lemma lower_dash: "lower_char c = CHR ''-'' \<Longrightarrow> c = CHR ''-''"
  by (auto simp: lower_char_def is_upper_def dest!: arg_cong [where f = "of_char :: char \<Rightarrow> nat"] split: if_splits)

lemma uuid_value_idem [simp]: "uuid_value (uuid_value v) = uuid_value v"
  by (induction v) (auto simp: uuid_value_def to_lower_def dest: lower_dash)

lemma key_value_idem [simp]: "key_value (key_value k) = key_value k"
  by (cases k) simp

lemma update_rows_keys:
  "(\<And>l. leaseKey (f l) = leaseKey l) \<Longrightarrow> map leaseKey (snd (update_rows cond f db)) = map leaseKey db"
  by (simp add: update_rows_def)

lemma renew_keys: "map leaseKey (snd (renew now k w db)) = map leaseKey db"
  unfolding renew_def by (rule update_rows_keys) simp

lemma recycle_keys: "map leaseKey (snd (recycle now i db)) = map leaseKey db"
  unfolding recycle_def by (rule update_rows_keys) (simp add: taken_over_def)

lemma renew_checks: "list_all row_check db \<Longrightarrow> list_all row_check (snd (renew now k w db))"
  by (auto simp: renew_def update_rows_def row_check_def list_all_iff)

text \<open>What a claim writes.\<close>

lemma claim_cases:
  obtains (same) "snd (claim_lease now wall i db) = db"
  | (renewed) "snd (claim_lease now wall i db) = snd (renew now (in_type i, in_id i, in_placement i) (in_worker i) db)"
  | (recycled) "snd (claim_lease now wall i db) = snd (recycle now i db)" "list_all row_check (snd (recycle now i db))"
      "\<not> destroy_conflict now i db" "\<not> serverAtCapacity now (in_server i) db"
  | (inserted) "snd (claim_lease now wall i db) = db @ [new_lease now i]" "row_check (new_lease now i)"
      "\<not> destroy_conflict now i db" "\<not> serverAtCapacity now (in_server i) db" "input_key i \<notin> leaseKey ` set db"
proof -
  have "snd (claim_lease now wall i db) = db \<or> snd (claim_lease now wall i db) = snd (claimInTransaction now wall i db)"
    by (auto simp: claim_lease_def Let_def split: sum.split)
  then show thesis
  proof
    assume c: "snd (claim_lease now wall i db) = snd (claimInTransaction now wall i db)"
    show thesis
    proof (cases "find (\<lambda>l. leaseKey l = input_key i) db")
      case None
      then have "input_key i \<notin> leaseKey ` set db" by (auto simp: find_None_iff)
      with None c show thesis by (auto simp: claimInTransaction_def intro: that split: if_splits)
    next
      case (Some cur)
      with c show thesis
        by (auto simp: claimInTransaction_def split_beta intro: that split: if_splits)
    qed
  qed (rule that)
qed

lemma step_keys: "distinct (map leaseKey db) \<Longrightarrow> distinct (map leaseKey (lease_step db x))"
proof (cases x)
  case (Claim now wall i)
  assume d: "distinct (map leaseKey db)"
  show ?thesis unfolding Claim lease_step.simps
    by (rule claim_cases [of now wall i db]) (use d in \<open>simp_all add: renew_keys recycle_keys new_lease_def\<close>)
qed (auto simp: renew_keys release_lease_def reapExpired_def drop_server_claims_def drop_volume_claims_def
       Let_def distinct_map intro: inj_on_subset)

lemma step_checks: "list_all row_check db \<Longrightarrow> list_all row_check (lease_step db x)"
proof (cases x)
  case (Claim now wall i)
  assume d: "list_all row_check db"
  show ?thesis unfolding Claim lease_step.simps
    by (rule claim_cases [of now wall i db]) (use d in \<open>simp_all add: renew_checks\<close>)
next
  case (Renew now key w)
  assume "list_all row_check db"
  then show ?thesis unfolding Renew lease_step.simps by (rule renew_checks)
qed (auto simp: release_lease_def reapExpired_def drop_server_claims_def drop_volume_claims_def
       Let_def list_all_iff)

lemma renew_row:
  assumes "l \<in> set db" "leaseExpiresAt l \<ge> e" "now + LEASE_MS \<ge> e"
  shows "\<exists>l' \<in> set (snd (renew now k w db)). leaseKey l' = leaseKey l \<and> leaseWorkerId l' = leaseWorkerId l \<and> leaseExpiresAt l' \<ge> e"
  unfolding renew_def update_rows_def snd_conv set_map bex_simps
  by (rule bexI [OF _ assms(1)]) (use assms(2,3) in simp)

lemma recycle_row: "l \<in> set db \<Longrightarrow> leaseExpiresAt l > now \<Longrightarrow> l \<in> set (snd (recycle now i db))"
  unfolding recycle_def update_rows_def snd_conv set_map by (rule image_eqI [of _ _ l]) auto

lemma row_kept:
  assumes l: "l \<in> set db" "leaseExpiresAt l \<ge> e" and x: "e - LEASE_MS \<le> op_time x" "op_time x < e"
    and g: "\<not> gives_up x (leaseKey l) (leaseWorkerId l)" and c: "row_check l"
  shows "\<exists>l' \<in> set (lease_step db x). leaseKey l' = leaseKey l \<and> leaseWorkerId l' = leaseWorkerId l \<and> leaseExpiresAt l' \<ge> e"
proof (cases x)
  case (Claim now wall i)
  have t: "now + LEASE_MS \<ge> e" "leaseExpiresAt l > now" using l x Claim by simp_all
  show ?thesis unfolding Claim lease_step.simps
  proof (rule claim_cases [of now wall i db])
    assume "snd (claim_lease now wall i db) = snd (renew now (in_type i, in_id i, in_placement i) (in_worker i) db)"
    then show "\<exists>l' \<in> set (snd (claim_lease now wall i db)). leaseKey l' = leaseKey l \<and> leaseWorkerId l' = leaseWorkerId l \<and> leaseExpiresAt l' \<ge> e"
      using renew_row [OF l t(1)] by simp
  qed (use l recycle_row [OF l(1) t(2), of i] in auto)
next
  case (Renew now key w)
  then show ?thesis using renew_row [OF l, of now key w] x by simp
next
  case (Drop_Server now s)
  have "leaseServerId l \<in> {None, Some (snd (snd (leaseKey l)))}"
    using c by (cases "leaseKey l") (auto simp: row_check_def)
  then show ?thesis using l g Drop_Server by (intro bexI [of _ l]) (auto simp: drop_server_claims_def)
qed (use l g x in \<open>auto simp: release_lease_def reapExpired_def drop_volume_claims_def Let_def\<close>)

interpretation lease_term: leased lease_step op_time holds_lease gives_up LEASE_MS
proof
  fix db k w e x
  assume h: "holds_lease db k w e" "e - LEASE_MS \<le> op_time x" "op_time x < e" "\<not> gives_up x k w"
  then obtain l where l: "l \<in> set db" "leaseKey l = k" "leaseWorkerId l = w" "leaseExpiresAt l \<ge> e" "row_check l"
    by (auto simp: holds_lease_def list_ex_iff list_all_iff)
  with h row_kept [OF l(1,4) h(2,3)] show "holds_lease (lease_step db x) k w e"
    by (auto simp: holds_lease_def list_ex_iff step_checks)
qed


subsection \<open>What the table keeps\<close>

definition live_on :: "int \<Rightarrow> string \<Rightarrow> lease \<Rightarrow> bool" where
  "live_on now s l \<longleftrightarrow> leaseServerId l = Some s \<and> leaseExpiresAt l > now"

definition server_load :: "int \<Rightarrow> string \<Rightarrow> lease list \<Rightarrow> nat" where
  "server_load now s db = length (filter (live_on now s) db)"

text \<open>A live destruction of a volume and a live claim on a placement of the same volume.\<close>

definition clash :: "int \<Rightarrow> lease \<Rightarrow> lease \<Rightarrow> bool" where
  "clash now d l \<longleftrightarrow> leaseExpiresAt d > now \<and> leaseExpiresAt l > now
     \<and> fst (leaseKey d) = ''volume'' \<and> fst (leaseKey l) = ''volume'' \<and> fst (snd (leaseKey d)) = fst (snd (leaseKey l))
     \<and> snd (snd (leaseKey d)) = DESTROY_VALUE \<and> snd (snd (leaseKey l)) \<noteq> DESTROY_VALUE"

definition lease_inv :: "int \<Rightarrow> lease list \<Rightarrow> bool" where
  "lease_inv now db \<longleftrightarrow> distinct (map leaseKey db) \<and> list_all row_check db
     \<and> (\<forall>s. server_load now s db \<le> MAX_ACTIVE_CLAIMS_PER_SERVER)
     \<and> (\<forall>d \<in> set db. \<forall>l \<in> set db. \<not> clash now d l)"

lemma length_filter_mono: "(\<And>x. x \<in> set xs \<Longrightarrow> P x \<Longrightarrow> Q x) \<Longrightarrow> length (filter P xs) \<le> length (filter Q xs)"
  by (induction xs) (auto simp: le_SucI)

lemma server_load_later: "now \<le> t \<Longrightarrow> server_load t s db \<le> server_load now s db"
  unfolding server_load_def by (rule length_filter_mono) (auto simp: live_on_def)

lemma lease_inv_later:
  assumes "lease_inv now db" "now \<le> t"
  shows "lease_inv t db"
proof -
  have "server_load t s db \<le> MAX_ACTIVE_CLAIMS_PER_SERVER" for s
    using server_load_later [OF assms(2), of s db] assms(1) unfolding lease_inv_def by (meson order_trans)
  moreover have "clash t d l \<Longrightarrow> clash now d l" for d l using assms(2) by (auto simp: clash_def)
  ultimately show ?thesis using assms(1) unfolding lease_inv_def by blast
qed

lemma server_load_filter: "server_load now s (filter Q db) \<le> server_load now s db"
  unfolding server_load_def filter_filter by (rule length_filter_mono) auto

lemma lease_inv_filter:
  assumes "lease_inv now db"
  shows "lease_inv now (filter Q db)"
proof -
  have "server_load now s (filter Q db) \<le> MAX_ACTIVE_CLAIMS_PER_SERVER" for s
    using server_load_filter [of now s Q db] assms unfolding lease_inv_def by (meson order_trans)
  then show ?thesis using assms by (simp add: lease_inv_def distinct_map_filter list_all_iff)
qed

text \<open>A renewal changes no row but a live one, which stays live.\<close>

lemma server_load_renew: "server_load now s (snd (renew now k w db)) = server_load now s db"
proof -
  have "live_on now s (if leaseKey l = key_value k \<and> leaseWorkerId l = w \<and> leaseExpiresAt l > now
      then l\<lparr>leaseExpiresAt := now + LEASE_MS\<rparr> else l) = live_on now s l" for l
    by (simp add: live_on_def LEASE_MS_def)
  then show ?thesis by (simp add: server_load_def renew_def update_rows_def filter_map o_def)
qed

lemma renew_source:
  assumes "l' \<in> set (snd (renew now k w db))"
  obtains l where "l \<in> set db" "leaseKey l' = leaseKey l" "leaseExpiresAt l' > now \<longleftrightarrow> leaseExpiresAt l > now"
  using assms by (auto simp: renew_def update_rows_def LEASE_MS_def split: if_splits)

lemma clash_cong:
  "leaseKey d = leaseKey d' \<Longrightarrow> leaseKey l = leaseKey l' \<Longrightarrow> (leaseExpiresAt d > now \<longleftrightarrow> leaseExpiresAt d' > now)
     \<Longrightarrow> (leaseExpiresAt l > now \<longleftrightarrow> leaseExpiresAt l' > now) \<Longrightarrow> clash now d l = clash now d' l'"
  by (simp only: clash_def)

lemma lease_inv_renew:
  assumes "lease_inv now db"
  shows "lease_inv now (snd (renew now k w db))"
proof -
  have "\<not> clash now d l" if h: "d \<in> set (snd (renew now k w db))" "l \<in> set (snd (renew now k w db))" for d l
  proof -
    obtain d' where "d' \<in> set db" "leaseKey d = leaseKey d'" "leaseExpiresAt d > now \<longleftrightarrow> leaseExpiresAt d' > now"
      by (rule renew_source [OF h(1)])
    moreover obtain l' where "l' \<in> set db" "leaseKey l = leaseKey l'" "leaseExpiresAt l > now \<longleftrightarrow> leaseExpiresAt l' > now"
      by (rule renew_source [OF h(2)])
    ultimately show ?thesis using assms clash_cong [of d d' l l' now] by (simp add: lease_inv_def)
  qed
  then show ?thesis using assms by (simp add: lease_inv_def renew_keys server_load_renew renew_checks)
qed

text \<open>A claim that writes a row adds one live row, with the key and the server it asks for.\<close>

lemma one_changed:
  assumes "distinct (map f xs)"
  shows "length (filter P (map (\<lambda>x. if f x = k \<and> Q x then g x else x) xs)) \<le> length (filter P xs) + (if \<exists>x. P (g x) then 1 else 0)"
  using assms
proof (induction xs)
  case (Cons x xs)
  show ?case
  proof (cases "f x = k")
    case True
    have "f y \<noteq> k" if "y \<in> set xs" for y using Cons.prems True imageI [OF that, of f] by auto
    then have "map (\<lambda>x. if f x = k \<and> Q x then g x else x) xs = xs" by (intro map_idI) simp
    then show ?thesis by auto
  next
    case False
    with Cons show ?thesis by (cases "\<exists>x. P (g x)") (simp_all add: le_SucI)
  qed
qed simp

lemma below_capacity:
  assumes "\<not> serverAtCapacity now (in_server i) db" "map_option uuid_value (in_server i) = Some s" "s \<noteq> []"
  shows "server_load now s db < MAX_ACTIVE_CLAIMS_PER_SERVER"
proof -
  obtain z where z: "in_server i = Some z" "s = uuid_value z" using assms(2) by auto
  then have "z \<noteq> []" using assms(3) by (auto simp: uuid_value_def to_lower_def)
  then show ?thesis using assms(1) z by (simp add: serverAtCapacity_def server_load_def live_on_def [abs_def])
qed

lemma no_clash_added:
  assumes "\<not> destroy_conflict now i db" "spelled (Claim now wall i)" "leaseKey n = input_key i" "l \<in> set db"
  shows "\<not> clash now n l \<and> \<not> clash now l n"
  using assms by (auto simp: destroy_conflict_def list_ex_iff clash_def input_key_def DESTROY_VALUE_def split: if_splits)

lemma lease_inv_inserted:
  assumes inv: "lease_inv now db" and c: "\<not> destroy_conflict now i db" "\<not> serverAtCapacity now (in_server i) db"
    and new: "row_check (new_lease now i)" "input_key i \<notin> leaseKey ` set db" and sp: "spelled (Claim now wall i)"
  shows "lease_inv now (db @ [new_lease now i])"
proof -
  have k: "leaseKey (new_lease now i) = input_key i" by (simp add: new_lease_def)
  have "server_load now s (db @ [new_lease now i]) \<le> MAX_ACTIVE_CLAIMS_PER_SERVER" for s
  proof (cases "map_option uuid_value (in_server i) = Some s")
    case True
    with new(1) have "s \<noteq> []" by (auto simp: row_check_def new_lease_def)
    from below_capacity [OF c(2) True this] show ?thesis by (simp add: server_load_def)
  next
    case False
    then have "\<not> live_on now s (new_lease now i)" by (auto simp: live_on_def new_lease_def)
    then show ?thesis using inv by (simp add: server_load_def lease_inv_def)
  qed
  moreover have "\<not> clash now n n" for n by (simp add: clash_def)
  ultimately show ?thesis using inv new k no_clash_added [OF c(1) sp k] by (auto simp: lease_inv_def)
qed

lemma recycle_source:
  assumes "l' \<in> set (snd (recycle now i db))"
  shows "l' \<in> set db \<or> leaseKey l' = input_key i \<and> leaseServerId l' = map_option uuid_value (in_server i)"
  using assms by (auto simp: recycle_def update_rows_def taken_over_def)

lemma recycle_load:
  assumes d: "distinct (map leaseKey db)" and chk: "list_all row_check (snd (recycle now i db))"
    and c: "\<not> serverAtCapacity now (in_server i) db" and b: "server_load now s db \<le> MAX_ACTIVE_CLAIMS_PER_SERVER"
  shows "server_load now s (snd (recycle now i db)) \<le> MAX_ACTIVE_CLAIMS_PER_SERVER"
proof -
  have le: "server_load now s (snd (recycle now i db))
      \<le> server_load now s db + (if \<exists>l. live_on now s (taken_over now i l) then 1 else 0)"
    using one_changed [OF d, of "live_on now s" "input_key i" "\<lambda>l. leaseExpiresAt l \<le> now" "taken_over now i"]
    by (simp add: server_load_def recycle_def update_rows_def)
  consider "map_option uuid_value (in_server i) \<noteq> Some s" | "s = []" | "map_option uuid_value (in_server i) = Some s" "s \<noteq> []"
    by blast
  then show ?thesis
  proof cases
    case 1
    then have "\<not> live_on now s (taken_over now i l)" for l by (simp add: live_on_def taken_over_def)
    with le b show ?thesis by simp
  next
    case 2
    then have "\<not> live_on now s l" if "l \<in> set (snd (recycle now i db))" for l
      using chk that by (auto simp: list_all_iff row_check_def live_on_def)
    then have "filter (live_on now s) (snd (recycle now i db)) = []" by (auto simp: filter_empty_conv)
    then show ?thesis by (simp add: server_load_def)
  next
    case 3
    with le below_capacity [OF c 3] show ?thesis by (simp split: if_splits)
  qed
qed

lemma lease_inv_recycled:
  assumes inv: "lease_inv now db" and chk: "list_all row_check (snd (recycle now i db))"
    and c: "\<not> destroy_conflict now i db" "\<not> serverAtCapacity now (in_server i) db" and sp: "spelled (Claim now wall i)"
  shows "lease_inv now (snd (recycle now i db))"
proof -
  have same: "\<not> clash now d l" if "leaseKey d = leaseKey l" for d l using that by (auto simp: clash_def)
  have old: "\<not> clash now d l" if "d \<in> set db" "l \<in> set db" for d l using that inv by (simp add: lease_inv_def)
  have "\<not> clash now d l" if h: "d \<in> set (snd (recycle now i db))" "l \<in> set (snd (recycle now i db))" for d l
  proof -
    have "d \<in> set db \<or> leaseKey d = input_key i" "l \<in> set db \<or> leaseKey l = input_key i"
      using recycle_source [OF h(1)] recycle_source [OF h(2)] by blast+
    then show ?thesis using same [of d l] old [of d l] no_clash_added [OF c(1) sp, of d l] no_clash_added [OF c(1) sp, of l d]
      by metis
  qed
  then show ?thesis using inv chk recycle_load [OF _ chk c(2)] by (simp add: lease_inv_def recycle_keys)
qed

lemma lease_inv_step:
  assumes "lease_inv (op_time x) db" "spelled x"
  shows "lease_inv (op_time x) (lease_step db x)"
proof (cases x)
  case (Claim now wall i)
  then have inv: "lease_inv now db" and sp: "spelled (Claim now wall i)" using assms by simp_all
  show ?thesis unfolding Claim lease_step.simps op_time.simps
    by (rule claim_cases [of now wall i db])
      (use inv sp in \<open>auto simp del: spelled.simps intro: lease_inv_renew lease_inv_recycled lease_inv_inserted\<close>)
qed (use assms in \<open>simp_all add: lease_inv_renew lease_inv_filter release_lease_def reapExpired_def
       drop_server_claims_def drop_volume_claims_def Let_def\<close>)

lemma lease_inv_run:
  "sorted (map op_time ops @ [t]) \<Longrightarrow> list_all spelled ops \<Longrightarrow> lease_inv t (foldl lease_step [] ops)"
proof (induction ops arbitrary: t rule: rev_induct)
  case Nil
  then show ?case by (simp add: lease_inv_def server_load_def)
next
  case (snoc x ops)
  then have "lease_inv (op_time x) (foldl lease_step [] ops)" by (simp add: sorted_append)
  then have "lease_inv (op_time x) (foldl lease_step [] (ops @ [x]))" using snoc.prems by (simp add: lease_inv_step)
  then show ?case by (rule lease_inv_later) (use snoc.prems in \<open>simp add: sorted_append\<close>)
qed

text \<open>A claim that answers a lease leaves its row with the worker for the whole term.\<close>

lemma find_update:
  assumes "update_rows cond f db = (Some r, db')"
  obtains l where "l \<in> set db" "cond l" "r = f l" "r \<in> set db'"
proof -
  obtain l where l: "find cond db = Some l" "r = f l" using assms by (auto simp: update_rows_def)
  then have "l \<in> set db" "cond l" by (auto simp: find_Some_iff)
  with l(2) assms show thesis by (intro that [of l]) (auto simp: update_rows_def)
qed

lemma claim_lease_answer:
  assumes "claim_lease now wall i db = (Inr (Some l), db')"
  shows "claimInTransaction now wall i db = (Inr (Some l), db')"
  using assms by (auto simp: claim_lease_def Let_def split: sum.splits)

lemma claimed_row:
  assumes c: "claim_lease now wall i db = (Inr (Some l), db')"
  shows "l \<in> set db' \<and> leaseKey l = input_key i \<and> leaseWorkerId l = in_worker i \<and> leaseExpiresAt l = now + LEASE_MS"
proof -
  consider "renew now (in_type i, in_id i, in_placement i) (in_worker i) db = (Some l, db')"
    | "recycle now i db = (Some l, db')" | "l = new_lease now i" "db' = db @ [l]"
    using claim_lease_answer [OF c] by (auto simp: claimInTransaction_def split: if_splits option.splits prod.splits)
  then show ?thesis
  proof cases
    case 1
    from this [unfolded renew_def] show ?thesis by (rule find_update) (auto simp: input_key_def)
  next
    case 2
    from this [unfolded recycle_def] show ?thesis by (rule find_update) (auto simp: taken_over_def)
  qed (simp add: new_lease_def)
qed

lemma claimed_holds:
  assumes "claim_lease now wall i db = (Inr (Some l), db')" "list_all row_check db"
  shows "holds_lease db' (input_key i) (in_worker i) (now + LEASE_MS)"
proof -
  have "list_all row_check db'" using step_checks [OF assms(2), of "Claim now wall i"] assms(1) by simp
  moreover note claimed_row [OF assms(1)]
  ultimately show ?thesis unfolding holds_lease_def list_ex_iff by (intro conjI bexI [of _ l]) simp_all
qed

lemma held_row:
  assumes "holds_lease db k w e" "distinct (map leaseKey db)"
  obtains l where "l \<in> set db" "leaseWorkerId l = w" "leaseExpiresAt l \<ge> e" "leaseKey l = k" "\<And>l'. l' \<in> set db \<Longrightarrow> leaseKey l' = k \<Longrightarrow> l' = l"
proof -
  obtain l where l: "l \<in> set db" "leaseKey l = k" "leaseWorkerId l = w" "leaseExpiresAt l \<ge> e"
    using assms(1) by (auto simp: holds_lease_def list_ex_iff)
  moreover have "l' = l" if "l' \<in> set db" "leaseKey l' = k" for l'
    using that l assms(2) by (auto simp: distinct_map dest: inj_onD)
  ultimately show thesis by (intro that)
qed

lemma held_not_claimable:
  assumes h: "holds_lease db (input_key j) w e" "distinct (map leaseKey db)" and t: "now < e" and w: "in_worker j \<noteq> w"
  shows "claim_lease now wall j db \<noteq> (Inr (Some m), db')"
proof
  assume "claim_lease now wall j db = (Inr (Some m), db')"
  note c = claim_lease_answer [OF this]
  obtain l where l: "l \<in> set db" "leaseWorkerId l = w" "leaseExpiresAt l \<ge> e" "leaseKey l = input_key j"
    "\<And>l'. l' \<in> set db \<Longrightarrow> leaseKey l' = input_key j \<Longrightarrow> l' = l" by (rule held_row [OF h]) blast
  have f: "find (\<lambda>l. leaseKey l = input_key j) db = Some l"
  proof (cases "find (\<lambda>l. leaseKey l = input_key j) db")
    case None
    with l(1,4) show ?thesis by (simp add: find_None_iff)
  next
    case (Some l')
    then have "l' \<in> set db" "leaseKey l' = input_key j" by (auto simp: find_Some_iff)
    then show ?thesis using Some l(5) by metis
  qed
  have "leaseExpiresAt l' > now" if "l' \<in> set db" "leaseKey l' = input_key j" for l' using l(5) [OF that] l(3) t by simp
  then have "find (\<lambda>l. leaseKey l = input_key j \<and> leaseExpiresAt l \<le> now) db = None"
    by (force simp: find_None_iff)
  with c f w l(2) show False
    by (auto simp: claimInTransaction_def recycle_def update_rows_def split: if_splits)
qed

lemma held_renewable:
  assumes h: "holds_lease db (leaseKey l) (leaseWorkerId l) e" and k: "key_value (leaseKey l) = leaseKey l" and t: "now < e"
  shows "fst (guard_renew now (startLeaseGuard l) db)"
proof -
  have "find (\<lambda>r. leaseKey r = leaseKey l \<and> leaseWorkerId r = leaseWorkerId l \<and> leaseExpiresAt r > now) db \<noteq> None"
    using h t by (auto simp: find_None_iff holds_lease_def list_ex_iff)
  then show ?thesis by (auto simp: guard_renew_def startLeaseGuard_def renew_def update_rows_def k)
qed

lemma input_key_value [simp]: "key_value (input_key i) = input_key i"
  by (simp add: input_key_def del: key_value.simps)


subsection \<open>Properties\<close>

text \<open>C16. However workers claim, renew, release and reap, in whatever order and with whatever process clocks, no
  resource placement ever has two rows, no server ever has more than eight live claims, and no live claim to destroy
  a volume stands beside a live claim on one of its placements.\<close>

theorem leases_exclusive:
  assumes "sorted (map op_time ops @ [t])" "list_all spelled ops"
  shows "distinct (map leaseKey (foldl lease_step [] ops))
    \<and> (\<forall>s. length (filter (\<lambda>l. leaseServerId l = Some s \<and> leaseExpiresAt l > t) (foldl lease_step [] ops)) \<le> 8)
    \<and> \<not> (\<exists>d l. d \<in> set (foldl lease_step [] ops) \<and> l \<in> set (foldl lease_step [] ops) \<and> clash t d l)"
  using lease_inv_run [OF assms]
  by (auto simp: lease_inv_def server_load_def live_on_def [abs_def] MAX_ACTIVE_CLAIMS_PER_SERVER_def)

definition sample_server :: string where
  "sample_server = ''6f1c2d3e-4b5a-4c6d-8e7f-0a1b2c3d4e5f''"

definition sample_volume :: string where
  "sample_volume = ''0a1b2c3d-4e5f-4a6b-9c7d-8e9f0a1b2c3d''"

definition place_claim :: "string \<Rightarrow> claim_input" where
  "place_claim w = \<lparr>in_type = ''volume'', in_id = sample_volume, in_placement = sample_server,
     in_server = Some sample_server, in_worker = w\<rparr>"

definition destroy_claim :: "string \<Rightarrow> claim_input" where
  "destroy_claim w = \<lparr>in_type = ''volume'', in_id = sample_volume, in_placement = VOLUME_DESTROY_PLACEMENT_ID,
     in_server = None, in_worker = w\<rparr>"

definition sample_ops :: "lease_op list" where
  "sample_ops = [Claim 0 0 (place_claim ''a''), Claim 2 2 (destroy_claim ''b''), Claim 60000 60000 (destroy_claim ''b'')]"

text \<open>The destruction waits until the term of worker \<open>a\<close> is over.\<close>

lemma sample_ops_table: "map leaseWorkerId (foldl lease_step [] sample_ops) = [''a'', ''b'']
   \<and> map leaseExpiresAt (foldl lease_step [] sample_ops) = [60000, 120000]"
  by code_simp

theorem leases_exclusive_witness:
  "map leaseWorkerId (foldl lease_step [] sample_ops) = [''a'', ''b'']
   \<and> distinct (map leaseKey (foldl lease_step [] sample_ops))
   \<and> \<not> (\<exists>d l. d \<in> set (foldl lease_step [] sample_ops) \<and> l \<in> set (foldl lease_step [] sample_ops) \<and> clash 60000 d l)"
proof -
  have "sorted (map op_time sample_ops @ [60000])" "list_all spelled sample_ops" by code_simp+
  from leases_exclusive [OF this] sample_ops_table show ?thesis by blast
qed

text \<open>C15. A claim that answers a lease gives it for its whole term: while sixty seconds have not passed and the
  lease is not released by its worker, nor its server or volume removed, no operation of any worker takes the row
  away, no other worker is granted the same key, and the guard of the holder renews.\<close>

theorem lease_runs_its_term:
  assumes "claim_lease now wall i (foldl lease_step [] before) = (Inr (Some l), db)"
    and "\<forall>x \<in> set after. now \<le> op_time x \<and> op_time x < now + LEASE_MS \<and> \<not> gives_up x (input_key i) (in_worker i)"
    and "t < now + LEASE_MS"
  shows "holds_lease (foldl lease_step db after) (input_key i) (in_worker i) (now + LEASE_MS)
    \<and> fst (guard_renew t (startLeaseGuard l) (foldl lease_step db after))
    \<and> \<not> (\<exists>j wall' m db'. input_key j = input_key i \<and> in_worker j \<noteq> in_worker i
          \<and> claim_lease t wall' j (foldl lease_step db after) = (Inr (Some m), db'))"
proof -
  have reach: "list_all row_check (foldl lease_step s xs)" "distinct (map leaseKey (foldl lease_step s xs))"
    if "list_all row_check s" "distinct (map leaseKey s)" for s xs
    using that by (induction xs arbitrary: s) (simp_all add: step_checks step_keys)
  have db: "db = lease_step (foldl lease_step [] before) (Claim now wall i)" using assms(1) by simp
  have d: "distinct (map leaseKey (foldl lease_step db after))" unfolding db by (intro reach step_checks step_keys) simp_all
  have h: "holds_lease (foldl lease_step db after) (input_key i) (in_worker i) (now + LEASE_MS)"
    by (rule lease_term.holds_run [OF claimed_holds [OF assms(1)]]) (use assms(2) reach(1) [of "[]"] in auto)
  have l: "leaseKey l = input_key i" "leaseWorkerId l = in_worker i" using claimed_row [OF assms(1)] by simp_all
  have "fst (guard_renew t (startLeaseGuard l) (foldl lease_step db after))"
    by (rule held_renewable [of _ _ "now + LEASE_MS"]) (use h l assms(3) in simp_all)
  moreover have "claim_lease t wall' j (foldl lease_step db after) \<noteq> (Inr (Some m), db')"
    if "input_key j = input_key i" "in_worker j \<noteq> in_worker i" for j wall' m db'
    by (rule held_not_claimable [of _ _ "in_worker i" "now + LEASE_MS"]) (use h d that assms(3) in simp_all)
  ultimately show ?thesis using h by blast
qed

definition sample_after :: "lease_op list" where
  "sample_after = [Claim 10 90000 (place_claim ''b''), Renew 20000 (input_key (place_claim ''a'')) ''a'',
     Release 30000 (input_key (place_claim ''a'')) ''b'', Reap 59999]"

theorem lease_runs_its_term_witness:
  "holds_lease (foldl lease_step (snd (claim_lease 0 0 (place_claim ''a'') [])) sample_after)
     (input_key (place_claim ''a'')) ''a'' 60000
   \<and> \<not> (\<exists>wall m db'. claim_lease 59999 wall (place_claim ''b'')
        (foldl lease_step (snd (claim_lease 0 0 (place_claim ''a'') [])) sample_after) = (Inr (Some m), db'))"
proof -
  have c: "claim_lease 0 0 (place_claim ''a'') (foldl lease_step [] [])
      = (Inr (Some (new_lease 0 (place_claim ''a''))), snd (claim_lease 0 0 (place_claim ''a'') []))" by code_simp
  have w: "in_worker (place_claim ''a'') = ''a''" "in_worker (place_claim ''b'') = ''b''"
    "input_key (place_claim ''b'') = input_key (place_claim ''a'')"
    by (simp_all add: place_claim_def input_key_def)
  have "list_all (\<lambda>x. 0 \<le> op_time x \<and> op_time x < 0 + LEASE_MS \<and> \<not> gives_up x (input_key (place_claim ''a'')) ''a'') sample_after"
    by code_simp
  then have o: "\<forall>x \<in> set sample_after. 0 \<le> op_time x \<and> op_time x < 0 + LEASE_MS
      \<and> \<not> gives_up x (input_key (place_claim ''a'')) (in_worker (place_claim ''a''))"
    unfolding list_all_iff w .
  have t: "59999 < 0 + LEASE_MS" by (simp add: LEASE_MS_def)
  have z: "(0 :: int) + LEASE_MS = 60000" by (simp add: LEASE_MS_def)
  note r = lease_runs_its_term [OF c o t, unfolded z w]
  have "in_worker (place_claim ''b'') \<noteq> ''a''" using w(2) by simp
  with conjunct2 [OF conjunct2 [OF r]] conjunct1 [OF r] w(3) show ?thesis by blast
qed

end
