(* ===== verification/Orphan_Quarantine.thy ===== *)
theory Orphan_Quarantine
  imports Prelude
begin

text \<open>
  The quarantine of orphans: \<open>backend/src/reconcile/orphan-sightings.store.ts\<close>.

  The table \<open>control.orphan_sightings\<close> is an association list from its key (server, kind, pool, name) to
  \<open>first_seen_at\<close>, in milliseconds; a scan is one step at one reading of the clock. The lemmas show that the table is
  exactly the start of the current unbroken streak of sightings of each orphan, computed from the history of the scans.
\<close>

datatype orphan_kind = Instance_Orphan | Volume_Orphan

record orphan_ref =
  orphan_pool :: string
  orphan_name :: string

type_synonym sighting_key = "string \<times> orphan_kind \<times> orphan_ref"
type_synonym sightings = "(sighting_key \<times> int) list"

record sighting_result =
  fresh :: "orphan_ref list"
  due :: "orphan_ref list"

definition ORPHAN_QUARANTINE_MS :: int where
  "ORPHAN_QUARANTINE_MS = 7 * 24 * 60 * 60000"

definition orphan_key :: "orphan_ref \<Rightarrow> string" where
  "orphan_key r = orphan_pool r @ [CHR 0x00] @ orphan_name r"

definition forget :: "string \<Rightarrow> orphan_kind \<Rightarrow> orphan_ref \<Rightarrow> sightings \<Rightarrow> sightings" where
  "forget server kind r db = filter (\<lambda>e. fst e \<noteq> (server, kind, r)) db"

definition rows_of :: "string \<Rightarrow> orphan_kind \<Rightarrow> sightings \<Rightarrow> orphan_ref list" where
  "rows_of server kind db = map (\<lambda>((s, k, r), t). r) (filter (\<lambda>((s, k, r), t). s = server \<and> k = kind) db)"

definition forget_unseen :: "string \<Rightarrow> orphan_kind \<Rightarrow> orphan_ref list \<Rightarrow> sightings \<Rightarrow> sightings" where
  "forget_unseen server kind orphans db =
     foldl (\<lambda>db r. if orphan_key r \<in> orphan_key ` set orphans then db else forget server kind r db) db (rows_of server kind db)"

text \<open>\<open>INSERT \<dots> ON CONFLICT DO NOTHING RETURNING\<close>: the rows inserted, and the table.\<close>

fun insert_sightings :: "int \<Rightarrow> string \<Rightarrow> orphan_kind \<Rightarrow> orphan_ref list \<Rightarrow> sightings \<Rightarrow> orphan_ref list \<times> sightings" where
  "insert_sightings now server kind [] db = ([], db)"
| "insert_sightings now server kind (r # rs) db =
     (if map_of db (server, kind, r) \<noteq> None then insert_sightings now server kind rs db
      else (case insert_sightings now server kind rs (db @ [((server, kind, r), now)]) of (ins, db') \<Rightarrow> (r # ins, db')))"

text \<open>
  What the table takes: an instance has no pool, a volume has one (\<open>orphan_sightings_pool_shape_check\<close>), and a text
  holds no NUL. Anything else makes the insertion fail, after the unseen rows are gone.
\<close>

definition storable :: "orphan_kind \<Rightarrow> orphan_ref \<Rightarrow> bool" where
  "storable kind r \<longleftrightarrow> (kind = Instance_Orphan \<longleftrightarrow> orphan_pool r = [])
     \<and> CHR 0x00 \<notin> set (orphan_pool r) \<and> CHR 0x00 \<notin> set (orphan_name r)"

datatype sight_failure = Insert_Failed

definition sight
  :: "int \<Rightarrow> int \<Rightarrow> string \<Rightarrow> orphan_kind \<Rightarrow> orphan_ref list \<Rightarrow> sightings \<Rightarrow> (sight_failure + sighting_result) \<times> sightings" where
  "sight now quarantineMs server kind orphans db =
     (let db1 = forget_unseen server kind orphans db
      in if orphans = [] then (Inr \<lparr>fresh = [], due = []\<rparr>, db1)
         else if \<not> list_all (storable kind) orphans then (Inl Insert_Failed, db1)
         else (case insert_sightings now server kind orphans db1 of
           (inserted, db2) \<Rightarrow>
             (Inr \<lparr>fresh = inserted,
               due = filter (\<lambda>r. orphan_key r \<in> orphan_key ` set orphans)
                 (rows_of server kind (filter (\<lambda>(k, t). t \<le> now - quarantineMs) db2))\<rparr>, db2)))"


subsection \<open>The reference: streaks of sightings\<close>

datatype orphan_op =
    Scan int string orphan_kind "orphan_ref list"
  | Forget string orphan_kind orphan_ref

fun orphan_step :: "sightings \<Rightarrow> orphan_op \<Rightarrow> sightings" where
  "orphan_step db (Scan now server kind orphans) = snd (sight now ORPHAN_QUARANTINE_MS server kind orphans db)"
| "orphan_step db (Forget server kind r) = forget server kind r db"

text \<open>
  When the current streak of one orphan began: a scan of its server and kind that does not report it, or an
  explicit \<open>forget\<close>, ends the streak; the first scan that reports it again begins a new one.
\<close>

fun streak_step :: "sighting_key \<Rightarrow> int option \<Rightarrow> orphan_op \<Rightarrow> int option" where
  "streak_step (s, k, r) st (Scan now server kind orphans) =
     (if (s, k) \<noteq> (server, kind) then st
      else if r \<in> set orphans then Some (case st of None \<Rightarrow> now | Some t \<Rightarrow> t) else None)"
| "streak_step (s, k, r) st (Forget server kind r') = (if (s, k, r) = (server, kind, r') then None else st)"

definition streak :: "orphan_op list \<Rightarrow> sighting_key \<Rightarrow> int option" where
  "streak ops key = foldl (streak_step key) None ops"

text \<open>Scans report names the table takes.\<close>

fun names_ok :: "orphan_op \<Rightarrow> bool" where
  "names_ok (Scan now server kind orphans) = list_all (storable kind) orphans"
| "names_ok (Forget server kind r) = True"

definition sightings_inv :: "sightings \<Rightarrow> bool" where
  "sightings_inv db \<longleftrightarrow> distinct (map fst db) \<and> (\<forall>((s, k, r), t) \<in> set db. storable k r)"


subsection \<open>The table follows the reference\<close>

lemma orphan_key_inj:
  assumes "storable k a" "storable k b" "orphan_key a = orphan_key b"
  shows "a = b"
proof -
  have tw: "takeWhile (\<lambda>c. c \<noteq> CHR 0x00) (orphan_key r) = orphan_pool r" if "storable k r" for r
    using that unfolding storable_def orphan_key_def by (subst takeWhile_append2) auto
  have "orphan_pool a = orphan_pool b" using tw [OF assms(1)] tw [OF assms(2)] assms(3) by simp
  moreover have "orphan_name a = orphan_name b" using assms(3) calculation by (simp add: orphan_key_def)
  ultimately show ?thesis by (cases a; cases b) simp
qed

lemma seen_iff:
  assumes "storable kind r" "list_all (storable kind) orphans"
  shows "orphan_key r \<in> orphan_key ` set orphans \<longleftrightarrow> r \<in> set orphans"
  using assms orphan_key_inj [of kind] by (fastforce simp: list_all_iff)

lemma forget_map_of: "map_of (forget server kind r db) key = (if key = (server, kind, r) then None else map_of db key)"
  unfolding forget_def map_of_filter_key [of "\<lambda>k. k \<noteq> (server, kind, r)"] by simp

lemma forget_inv: "sightings_inv db \<Longrightarrow> sightings_inv (forget server kind r db)"
  by (auto simp: sightings_inv_def forget_def distinct_map_filter)

lemma foldl_forget_map_of:
  "map_of (foldl (\<lambda>db r. if Q r then db else forget server kind r db) db rs) (s, k, r)
   = (if (s, k) = (server, kind) \<and> r \<in> set rs \<and> \<not> Q r then None else map_of db (s, k, r))"
  by (induction rs arbitrary: db) (auto simp: forget_map_of)

lemma foldl_forget_inv:
  "sightings_inv db \<Longrightarrow> sightings_inv (foldl (\<lambda>db r. if Q r then db else forget server kind r db) db rs)"
  by (induction rs arbitrary: db) (auto simp: forget_inv)

lemma rows_of_iff: "r \<in> set (rows_of server kind db) \<longleftrightarrow> (server, kind, r) \<in> fst ` set db"
  by (force simp: rows_of_def)

lemma forget_unseen_inv: "sightings_inv db \<Longrightarrow> sightings_inv (forget_unseen server kind orphans db)"
  unfolding forget_unseen_def by (rule foldl_forget_inv)

lemma forget_unseen_map_of:
  assumes "sightings_inv db" "list_all (storable kind) orphans"
  shows "map_of (forget_unseen server kind orphans db) (s, k, r)
    = (if (s, k) = (server, kind) \<and> r \<notin> set orphans then None else map_of db (s, k, r))"
proof (cases "(s, k, r) \<in> fst ` set db")
  case True
  then have "storable k r" using assms(1) by (auto simp: sightings_inv_def)
  then show ?thesis using True seen_iff [OF _ assms(2), of r]
    by (auto simp: forget_unseen_def foldl_forget_map_of rows_of_iff)
next
  case False
  then have "map_of db (s, k, r) = None" by (simp add: map_of_eq_None_iff)
  then show ?thesis by (auto simp: forget_unseen_def foldl_forget_map_of)
qed

lemma insert_sightings_map_of:
  "map_of (snd (insert_sightings now server kind rs db)) (s, k, r)
   = (if (s, k) = (server, kind) \<and> r \<in> set rs \<and> map_of db (s, k, r) = None then Some now else map_of db (s, k, r))"
  by (induction rs arbitrary: db) (auto simp: split_beta map_add_def split: option.splits)

lemma insert_sightings_inv:
  "sightings_inv db \<Longrightarrow> list_all (storable kind) rs \<Longrightarrow> sightings_inv (snd (insert_sightings now server kind rs db))"
proof (induction rs arbitrary: db)
  case (Cons r rs)
  show ?case
  proof (cases "map_of db (server, kind, r)")
    case None
    then have "sightings_inv (db @ [((server, kind, r), now)])"
      using Cons.prems by (auto simp: sightings_inv_def map_of_eq_None_iff)
    with None Cons show ?thesis by (simp add: split_beta)
  qed (use Cons in simp)
qed simp

lemma sight_table:
  "list_all (storable kind) orphans \<Longrightarrow> snd (sight now q server kind orphans db) = snd (insert_sightings now server kind orphans (forget_unseen server kind orphans db))"
  by (simp add: sight_def Let_def split_beta)

lemma orphan_step_inv: "sightings_inv db \<Longrightarrow> names_ok x \<Longrightarrow> sightings_inv (orphan_step db x)"
  by (cases x) (simp_all add: sight_table insert_sightings_inv forget_unseen_inv forget_inv)

lemma orphan_step_streak:
  assumes "sightings_inv db" "names_ok x"
  shows "map_of (orphan_step db x) key = streak_step key (map_of db key) x"
proof (cases x)
  case (Scan now server kind orphans)
  obtain s k r where key: "key = (s, k, r)" by (cases key)
  have ok: "list_all (storable kind) orphans" using assms Scan by simp
  show ?thesis unfolding Scan key orphan_step.simps sight_table [OF ok] insert_sightings_map_of
      forget_unseen_map_of [OF assms(1) ok]
    by (auto split: option.split)
next
  case (Forget server kind r)
  then show ?thesis by (cases key) (simp add: forget_map_of)
qed

lemma orphan_run:
  assumes "list_all names_ok ops"
  shows "sightings_inv (foldl orphan_step [] ops) \<and> map_of (foldl orphan_step [] ops) key = streak ops key"
  using assms
proof (induction ops rule: rev_induct)
  case (snoc x ops)
  then show ?case by (simp add: orphan_step_inv orphan_step_streak streak_def)
qed (simp add: sightings_inv_def streak_def)

lemma due_iff:
  assumes "sightings_inv db" "list_all (storable kind) orphans"
  shows "\<exists>res. fst (sight now q server kind orphans db) = Inr res \<and> (r \<in> set (due res)
    \<longleftrightarrow> (\<exists>t. map_of (snd (sight now q server kind orphans db)) (server, kind, r) = Some t \<and> t \<le> now - q))"
proof -
  define db2 where "db2 = snd (sight now q server kind orphans db)"
  have inv: "sightings_inv db2"
    unfolding db2_def sight_table [OF assms(2)] using assms by (simp add: insert_sightings_inv forget_unseen_inv)
  have seen: "r \<in> set orphans" if "map_of db2 (server, kind, r) = Some t" for t
    using that unfolding db2_def sight_table [OF assms(2)] insert_sightings_map_of forget_unseen_map_of [OF assms]
    by (auto split: if_splits)
  have "\<exists>res. fst (sight now q server kind orphans db) = Inr res \<and> (\<forall>r. r \<in> set (due res) \<longleftrightarrow>
      orphans \<noteq> [] \<and> orphan_key r \<in> orphan_key ` set orphans \<and> (\<exists>t. ((server, kind, r), t) \<in> set db2 \<and> t \<le> now - q))"
  proof (cases "orphans = []")
    case False
    have "(server, kind, r) \<in> fst ` set (filter (\<lambda>(k, t). t \<le> now - q) db2)
        \<longleftrightarrow> (\<exists>t. ((server, kind, r), t) \<in> set db2 \<and> t \<le> now - q)" for r by force
    then show ?thesis using False assms(2) by (auto simp: sight_def Let_def split_beta rows_of_iff db2_def)
  qed (simp add: sight_def)
  then obtain res where res: "fst (sight now q server kind orphans db) = Inr res" "\<And>r. r \<in> set (due res) \<longleftrightarrow>
      orphans \<noteq> [] \<and> orphan_key r \<in> orphan_key ` set orphans \<and> (\<exists>t. ((server, kind, r), t) \<in> set db2 \<and> t \<le> now - q)"
    by blast
  have "r \<in> set (due res) \<longleftrightarrow> (\<exists>t. ((server, kind, r), t) \<in> set db2 \<and> t \<le> now - q)"
    unfolding res(2) using seen inv by (auto simp: sightings_inv_def)
  also have "\<dots> \<longleftrightarrow> (\<exists>t. map_of db2 (server, kind, r) = Some t \<and> t \<le> now - q)"
    using inv by (simp add: sightings_inv_def)
  finally show ?thesis unfolding db2_def using res(1) by blast
qed


subsection \<open>Property\<close>

lemma ORPHAN_QUARANTINE_MS_eq: "ORPHAN_QUARANTINE_MS = 604800000"
  by (simp add: ORPHAN_QUARANTINE_MS_def)

text \<open>C21. After any history of scans and forgets, a scan succeeds and names an orphan as due for deletion exactly
  when its current unbroken streak of sightings on that server, this scan included, began at least seven days ago.\<close>

theorem orphan_due_iff_streak:
  assumes "list_all names_ok ops" "list_all (storable kind) orphans"
  shows "\<exists>res. fst (sight now ORPHAN_QUARANTINE_MS server kind orphans (foldl orphan_step [] ops)) = Inr res
    \<and> (r \<in> set (due res)
       \<longleftrightarrow> (\<exists>t. streak (ops @ [Scan now server kind orphans]) (server, kind, r) = Some t \<and> t \<le> now - 604800000))"
proof -
  have "map_of (snd (sight now ORPHAN_QUARANTINE_MS server kind orphans (foldl orphan_step [] ops))) key
      = streak (ops @ [Scan now server kind orphans]) key" for key
    using orphan_run [of "ops @ [Scan now server kind orphans]" key] assms by simp
  then show ?thesis using due_iff [OF _ assms(2)] orphan_run [OF assms(1)]
    by (metis (no_types, lifting) ORPHAN_QUARANTINE_MS_eq)
qed

definition sample_orphan :: orphan_ref where
  "sample_orphan = \<lparr>orphan_pool = ''default'', orphan_name = ''nya-1''\<rparr>"

definition sample_scans :: "orphan_op list" where
  "sample_scans = [Scan 0 ''s1'' Volume_Orphan [sample_orphan], Scan 5 ''s1'' Volume_Orphan [],
     Scan 10 ''s1'' Volume_Orphan [sample_orphan]]"

theorem orphan_due_iff_streak_witness:
  "(\<exists>res. fst (sight 604800009 ORPHAN_QUARANTINE_MS ''s1'' Volume_Orphan [sample_orphan]
       (foldl orphan_step [] sample_scans)) = Inr res \<and> sample_orphan \<notin> set (due res))
   \<and> (\<exists>res. fst (sight 604800010 ORPHAN_QUARANTINE_MS ''s1'' Volume_Orphan [sample_orphan]
       (foldl orphan_step [] sample_scans)) = Inr res \<and> sample_orphan \<in> set (due res))"
proof -
  have ok: "list_all names_ok sample_scans" "list_all (storable Volume_Orphan) [sample_orphan]"
    by (simp_all add: sample_scans_def sample_orphan_def storable_def)
  have "streak (sample_scans @ [Scan t ''s1'' Volume_Orphan [sample_orphan]]) (''s1'', Volume_Orphan, sample_orphan) = Some 10" for t
    by (simp add: streak_def sample_scans_def)
  then show ?thesis
    using orphan_due_iff_streak [OF ok, of 604800009 "''s1''" sample_orphan]
      orphan_due_iff_streak [OF ok, of 604800010 "''s1''" sample_orphan] by simp
qed

end
