(* ===== verification/Password_Gate.thy ===== *)
theory Password_Gate
  imports Prelude
begin

text \<open>
  The gate before password verification: \<open>PasswordVerificationGate\<close> of \<open>backend/src/iam/login-throttling.ts\<close>.

  A call of \<open>run\<close> is a job with a number and a holder. The gate is its \<open>active\<close> counter, its queue of waiting jobs
  and its map of jobs per holder; \<open>running\<close> is a history variable, the jobs that hold a slot. Each turn of the event
  loop is one step: a call up to its first wait (or its refusal, with the \<open>finally\<close> block), the timer of a waiter, and
  the end of the work of a job, whether it returns or throws. The limiter of attempts of the same file is in
  \<open>Login_Limiter\<close>; its address buckets are not modelled.

  The lemmas: the counter is the number of jobs that hold a slot, all bounds hold in every reachable state, and a slot
  is never idle while a job waits.
\<close>

subsection \<open>The gate\<close>

datatype busy_reason = Busy_Holder | Busy_Queue | Busy_Timeout

datatype outcome = Granted | Waiting | Refused busy_reason

type_synonym job = "nat \<times> string"

record gate_options =
  maxActive :: nat
  maxQueued :: nat
  maxPerHolder :: nat

definition default_options :: gate_options where
  "default_options = \<lparr>maxActive = 4, maxQueued = 64, maxPerHolder = 2\<rparr>"

record gate =
  active :: nat
  queue :: "job list"
  perHolder :: "(string \<times> nat) list"

definition new_gate :: gate where
  "new_gate = \<lparr>active = 0, queue = [], perHolder = []\<rparr>"

definition acquire :: "gate_options \<Rightarrow> job \<Rightarrow> gate \<Rightarrow> outcome \<times> gate" where
  "acquire opts j g =
     (if active g < maxActive opts then (Granted, g\<lparr>active := active g + 1\<rparr>)
      else if length (queue g) \<ge> maxQueued opts then (Refused Busy_Queue, g)
      else (Waiting, g\<lparr>queue := queue g @ [j]\<rparr>))"

definition leave_holder :: "string \<Rightarrow> gate \<Rightarrow> gate" where
  "leave_holder h g =
     (let remaining = int (case map_of (perHolder g) h of None \<Rightarrow> 1 | Some n \<Rightarrow> n) - 1
      in if remaining > 0 then g\<lparr>perHolder := AList.update h (nat remaining) (perHolder g)\<rparr>
         else g\<lparr>perHolder := AList.delete h (perHolder g)\<rparr>)"

definition run_job :: "gate_options \<Rightarrow> job \<Rightarrow> gate \<Rightarrow> outcome \<times> gate" where
  "run_job opts j g =
     (let held = (case map_of (perHolder g) (snd j) of None \<Rightarrow> 0 | Some n \<Rightarrow> n)
      in if held \<ge> maxPerHolder opts then (Refused Busy_Holder, g)
         else (case acquire opts j (g\<lparr>perHolder := AList.update (snd j) (held + 1) (perHolder g)\<rparr>) of
           (Refused r, g') \<Rightarrow> (Refused r, leave_holder (snd j) g')
         | (res, g') \<Rightarrow> (res, g')))"

text \<open>The timer of a waiter; it was cleared if the job has been handed a slot, and does nothing then.\<close>

definition wait_timeout :: "job \<Rightarrow> gate \<Rightarrow> gate" where
  "wait_timeout j g = (if j \<in> set (queue g) then leave_holder (snd j) (g\<lparr>queue := remove1 j (queue g)\<rparr>) else g)"

definition releaseSlot :: "gate \<Rightarrow> job option \<times> gate" where
  "releaseSlot g =
     (case queue g of
        j # rest \<Rightarrow> (Some j, g\<lparr>queue := rest\<rparr>)
      | [] \<Rightarrow> (None, g\<lparr>active := active g - 1\<rparr>))"

definition finish_job :: "job \<Rightarrow> gate \<Rightarrow> job option \<times> gate" where
  "finish_job j g = (case releaseSlot g of (next_job, g') \<Rightarrow> (next_job, leave_holder (snd j) g'))"


subsection \<open>Turns of the event loop\<close>

record gate_run =
  gate_of :: gate
  running :: "job list"

inductive gate_step :: "gate_options \<Rightarrow> gate_run \<Rightarrow> gate_run \<Rightarrow> bool" for opts where
  call: "j \<notin> set (running s) \<Longrightarrow> j \<notin> set (queue (gate_of s)) \<Longrightarrow> run_job opts j (gate_of s) = (res, g)
    \<Longrightarrow> gate_step opts s \<lparr>gate_of = g, running = (if res = Granted then j # running s else running s)\<rparr>"
| timer: "gate_step opts s (s\<lparr>gate_of := wait_timeout j (gate_of s)\<rparr>)"
| finish: "j \<in> set (running s) \<Longrightarrow> finish_job j (gate_of s) = (next_job, g)
    \<Longrightarrow> gate_step opts s \<lparr>gate_of = g, running = (case next_job of None \<Rightarrow> [] | Some n \<Rightarrow> [n]) @ remove1 j (running s)\<rparr>"

inductive gate_reach :: "gate_options \<Rightarrow> gate_run \<Rightarrow> bool" for opts where
  start: "gate_reach opts \<lparr>gate_of = new_gate, running = []\<rparr>"
| step: "gate_reach opts s \<Longrightarrow> gate_step opts s s' \<Longrightarrow> gate_reach opts s'"

definition jobs_of :: "string \<Rightarrow> job list \<Rightarrow> nat" where
  "jobs_of h js = length (filter (\<lambda>j. snd j = h) js)"

definition gate_inv :: "gate_options \<Rightarrow> gate_run \<Rightarrow> bool" where
  "gate_inv opts s \<longleftrightarrow> active (gate_of s) = length (running s) \<and> length (running s) \<le> maxActive opts
     \<and> length (queue (gate_of s)) \<le> maxQueued opts
     \<and> (queue (gate_of s) \<noteq> [] \<longrightarrow> length (running s) = maxActive opts)
     \<and> (\<forall>h. jobs_of h (running s @ queue (gate_of s)) \<le> maxPerHolder opts)
     \<and> (\<forall>h. map_of (perHolder (gate_of s)) h =
          (let n = jobs_of h (running s @ queue (gate_of s)) in if n = 0 then None else Some n))"

subsection \<open>Invariant\<close>

lemma jobs_of_simps [simp]:
  "jobs_of h [] = 0" "jobs_of h (j # js) = (if snd j = h then Suc (jobs_of h js) else jobs_of h js)"
  "jobs_of h (xs @ ys) = jobs_of h xs + jobs_of h ys"
  by (simp_all add: jobs_of_def)

lemma jobs_of_remove1: "j \<in> set js \<Longrightarrow> jobs_of h js = jobs_of h (remove1 j js) + (if snd j = h then 1 else 0)"
  by (induction js) auto

text \<open>The map counts: one more on entry, one less on leaving.\<close>

definition counts :: "(string \<times> nat) list \<Rightarrow> (string \<Rightarrow> nat) \<Rightarrow> bool" where
  "counts m f \<longleftrightarrow> (\<forall>h. map_of m h = (if f h = 0 then None else Some (f h)))"

lemma counts_enter: "counts m f \<Longrightarrow> counts (AList.update h (f h + 1) m) (f(h := f h + 1))"
  by (simp add: counts_def AList.update_conv')

lemma leave_holder_fields [simp]: "active (leave_holder h g) = active g" "queue (leave_holder h g) = queue g"
  by (simp_all add: leave_holder_def Let_def)

lemma counts_leave:
  assumes "counts (perHolder g) f" "f h \<noteq> 0"
  shows "counts (perHolder (leave_holder h g)) (f(h := f h - 1))"
  using assms by (auto simp: counts_def leave_holder_def Let_def AList.update_conv' delete_conv' nat_diff_distrib)

lemma counts_cong: "counts m f \<Longrightarrow> (\<And>h. f h = g h) \<Longrightarrow> counts m g"
  by (simp add: counts_def)

lemma gate_inv_alt: "gate_inv opts s \<longleftrightarrow> active (gate_of s) = length (running s) \<and> length (running s) \<le> maxActive opts
     \<and> length (queue (gate_of s)) \<le> maxQueued opts
     \<and> (queue (gate_of s) \<noteq> [] \<longrightarrow> length (running s) = maxActive opts)
     \<and> (\<forall>h. jobs_of h (running s @ queue (gate_of s)) \<le> maxPerHolder opts)
     \<and> counts (perHolder (gate_of s)) (\<lambda>h. jobs_of h (running s @ queue (gate_of s)))"
  by (simp add: gate_inv_def counts_def Let_def)

lemma call_inv:
  assumes inv: "gate_inv opts s" and r: "run_job opts j (gate_of s) = (res, g)"
  shows "gate_inv opts \<lparr>gate_of = g, running = (if res = Granted then j # running s else running s)\<rparr>"
proof -
  define f where "f = (\<lambda>h. jobs_of h (running s @ queue (gate_of s)))"
  have c: "counts (perHolder (gate_of s)) f" using inv by (simp add: gate_inv_alt f_def)
  have held: "(case map_of (perHolder (gate_of s)) (snd j) of None \<Rightarrow> 0 | Some n \<Rightarrow> n) = f (snd j)"
    using c by (simp add: counts_def)
  note c1 = counts_enter [OF c, of "snd j"]
  show ?thesis
  proof (cases "f (snd j) \<ge> maxPerHolder opts")
    case True
    then show ?thesis using inv r by (auto simp: run_job_def held gate_inv_alt)
  next
    case False
    define g1 where "g1 = gate_of s\<lparr>perHolder := AList.update (snd j) (f (snd j) + 1) (perHolder (gate_of s))\<rparr>"
    have g1: "active g1 = active (gate_of s)" "queue g1 = queue (gate_of s)" "counts (perHolder g1) (f(snd j := f (snd j) + 1))"
      using c1 by (simp_all add: g1_def)
    have r1: "(case acquire opts j g1 of (Refused r, g') \<Rightarrow> (Refused r, leave_holder (snd j) g') | (res, g') \<Rightarrow> (res, g')) = (res, g)"
      using r False by (simp add: run_job_def held g1_def Let_def)
    consider (granted) "active g1 < maxActive opts" "res = Granted" "g = g1\<lparr>active := active g1 + 1\<rparr>"
      | (refused) "res = Refused Busy_Queue" "g = leave_holder (snd j) g1"
      | (waiting) "\<not> active g1 < maxActive opts" "length (queue g1) < maxQueued opts" "res = Waiting" "g = g1\<lparr>queue := queue g1 @ [j]\<rparr>"
      using r1 by (auto simp: acquire_def split: if_splits)
    then show ?thesis
    proof cases
      case granted
      then show ?thesis using inv g1 False by (auto simp: gate_inv_alt f_def elim!: counts_cong)
    next
      case refused
      have "counts (perHolder g) f" using counts_leave [OF g1(3), of "snd j"] refused(2) by simp
      then show ?thesis using inv g1 refused by (simp add: gate_inv_alt f_def)
    next
      case waiting
      have "counts (perHolder g1) (\<lambda>h. jobs_of h (running s @ queue (gate_of s) @ [j]))"
        by (rule counts_cong [OF g1(3)]) (simp add: f_def)
      then show ?thesis using inv g1 False waiting by (auto simp: gate_inv_alt f_def)
    qed
  qed
qed

lemma timer_inv:
  assumes inv: "gate_inv opts s"
  shows "gate_inv opts (s\<lparr>gate_of := wait_timeout j (gate_of s)\<rparr>)"
proof (cases "j \<in> set (queue (gate_of s))")
  case True
  note q = jobs_of_remove1 [OF True]
  let ?f = "\<lambda>h. jobs_of h (running s @ queue (gate_of s))"
  let ?g = "gate_of s\<lparr>queue := remove1 j (queue (gate_of s))\<rparr>"
  have "counts (perHolder ?g) ?f" using inv by (simp add: gate_inv_alt)
  moreover have "?f (snd j) \<noteq> 0" using q [of "snd j"] by simp
  ultimately have "counts (perHolder (leave_holder (snd j) ?g)) (?f(snd j := ?f (snd j) - 1))" by (rule counts_leave)
  then have "counts (perHolder (leave_holder (snd j) ?g)) (\<lambda>h. jobs_of h (running s @ remove1 j (queue (gate_of s))))"
    by (rule counts_cong) (use q in auto)
  moreover have "jobs_of h (running s @ remove1 j (queue (gate_of s))) \<le> maxPerHolder opts" for h
    using inv q [of h] unfolding gate_inv_alt by (metis add_leD1 jobs_of_simps(3) add.assoc)
  moreover have "length (remove1 j (queue (gate_of s))) \<le> maxQueued opts" "queue (gate_of s) \<noteq> []"
    using inv True by (auto simp: gate_inv_alt length_remove1)
  ultimately show ?thesis using inv True by (simp add: gate_inv_alt wait_timeout_def)
qed (use inv in \<open>simp add: wait_timeout_def\<close>)

lemma finish_inv:
  assumes inv: "gate_inv opts s" and j: "j \<in> set (running s)" and f: "finish_job j (gate_of s) = (next_job, g)"
  shows "gate_inv opts \<lparr>gate_of = g, running = (case next_job of None \<Rightarrow> [] | Some n \<Rightarrow> [n]) @ remove1 j (running s)\<rparr>"
proof -
  note q = jobs_of_remove1 [OF j]
  let ?f = "\<lambda>h. jobs_of h (running s @ queue (gate_of s))"
  have nz: "?f (snd j) \<noteq> 0" using q [of "snd j"] by simp
  have len: "length (running s) = Suc (length (remove1 j (running s)))"
    using j length_pos_if_in_set [OF j] by (simp add: length_remove1)
  obtain g1 where g1: "releaseSlot (gate_of s) = (next_job, g1)" "g = leave_holder (snd j) g1"
    using f by (auto simp: finish_job_def split: prod.splits)
  have "counts (perHolder g1) ?f" using inv g1(1) by (auto simp: gate_inv_alt releaseSlot_def split: list.splits)
  then have "counts (perHolder g) (?f(snd j := ?f (snd j) - 1))" unfolding g1(2) using nz by (rule counts_leave)
  then have c: "counts (perHolder g) (\<lambda>h. jobs_of h (remove1 j (running s) @ queue (gate_of s)))"
    by (rule counts_cong) (use q in auto)
  have b: "jobs_of h (remove1 j (running s) @ queue (gate_of s)) \<le> maxPerHolder opts" for h
  proof -
    have "jobs_of h (running s @ queue (gate_of s)) \<le> maxPerHolder opts" using inv by (simp add: gate_inv_alt)
    then show ?thesis using q [of h] by simp
  qed
  show ?thesis
  proof (cases "queue (gate_of s)")
    case Nil
    with g1 have "next_job = None" "queue g = []" "active g = active (gate_of s) - 1" by (auto simp: releaseSlot_def)
    with inv c b len Nil show ?thesis by (simp add: gate_inv_alt)
  next
    case (Cons n rest)
    with g1 have n: "next_job = Some n" "queue g = rest" "active g = active (gate_of s)" by (auto simp: releaseSlot_def)
    have e: "jobs_of h (n # remove1 j (running s) @ rest) = jobs_of h (remove1 j (running s) @ queue (gate_of s))" for h
      by (simp add: Cons)
    have "counts (perHolder g) (\<lambda>h. jobs_of h (n # remove1 j (running s) @ rest))" using c by (rule counts_cong) (simp add: Cons)
    with inv b len n e Cons show ?thesis by (simp add: gate_inv_alt del: jobs_of_simps)
  qed
qed

lemma gate_reach_inv: "gate_reach opts s \<Longrightarrow> gate_inv opts s"
proof (induction rule: gate_reach.induct)
  case start
  show ?case by (simp add: gate_inv_alt new_gate_def counts_def)
next
  case (step s s')
  from step.hyps(2) show ?case
  proof (cases rule: gate_step.cases)
    case (call j res g)
    from call_inv [OF step.IH call(4)] show ?thesis unfolding call(1) .
  next
    case (timer j)
    from timer_inv [OF step.IH] show ?thesis unfolding timer .
  next
    case (finish j next_job g)
    from finish_inv [OF step.IH finish(2,3)] show ?thesis unfolding finish(1) .
  qed
qed


subsection \<open>Property\<close>

text \<open>C37. In every reachable state the counter is the number of verifications that run and at most
  \<open>maxActive\<close>; at most \<open>maxQueued\<close> wait; no holder has more than \<open>maxPerHolder\<close> running or waiting; and no slot is
  idle while a job waits.\<close>

theorem gate_bounded:
  assumes "gate_reach opts s"
  shows "active (gate_of s) = length (running s) \<and> length (running s) \<le> maxActive opts
    \<and> length (queue (gate_of s)) \<le> maxQueued opts
    \<and> (\<forall>h. length (filter (\<lambda>j. snd j = h) (running s @ queue (gate_of s))) \<le> maxPerHolder opts)
    \<and> (queue (gate_of s) = [] \<or> length (running s) = maxActive opts)"
  using gate_reach_inv [OF assms] by (auto simp: gate_inv_alt jobs_of_def)

definition small_options :: gate_options where
  "small_options = \<lparr>maxActive = 1, maxQueued = 2, maxPerHolder = 1\<rparr>"

definition busy_state :: gate_run where
  "busy_state = \<lparr>gate_of = \<lparr>active = 1, queue = [(2, ''b'')], perHolder = [(''a'', 1), (''b'', 1)]\<rparr>, running = [(1, ''a'')]\<rparr>"

text \<open>One verification runs, another waits; the waiter takes over the slot of the first.\<close>

lemma busy_state_reached: "gate_reach small_options busy_state"
proof -
  let ?s = "\<lparr>gate_of = \<lparr>active = 1, queue = [], perHolder = [(''a'', 1)]\<rparr>, running = [(1, ''a'')]\<rparr>"
  have "gate_step small_options \<lparr>gate_of = new_gate, running = []\<rparr> ?s"
    using gate_step.call [of "(1, ''a'')" "\<lparr>gate_of = new_gate, running = []\<rparr>" small_options Granted "gate_of ?s"]
    by (simp add: new_gate_def run_job_def acquire_def small_options_def)
  then have "gate_reach small_options ?s" by (rule gate_reach.step [OF gate_reach.start])
  moreover have "gate_step small_options ?s busy_state"
    using gate_step.call [of "(2, ''b'')" ?s small_options Waiting "gate_of busy_state"]
    by (simp add: busy_state_def run_job_def acquire_def small_options_def)
  ultimately show ?thesis by (rule gate_reach.step)
qed

theorem gate_bounded_witness:
  "queue (gate_of busy_state) = [(2, ''b'')] \<and> length (running busy_state) = maxActive small_options
   \<and> active (gate_of busy_state) = length (running busy_state)"
proof -
  have q: "queue (gate_of busy_state) = [(2, ''b'')]" by (simp add: busy_state_def)
  from gate_bounded [OF busy_state_reached] have "active (gate_of busy_state) = length (running busy_state)"
    "queue (gate_of busy_state) = [] \<or> length (running busy_state) = maxActive small_options" by blast+
  with q show ?thesis by simp
qed

end
