(* ===== verification/Login_Limiter.thy ===== *)
theory Login_Limiter
  imports Prelude
begin

text \<open>
  The limiter of login attempts: \<open>LoginAttemptLimiter\<close> of \<open>backend/src/iam/login-throttling.ts\<close>.

  Reservations keep references to the entries they count on, and \<open>release\<close> compares them by identity, so entries are
  objects in a store: the map of the limiter goes from keys to addresses, in insertion order, which the code keeps as
  the order of last use. The clock is an argument.

  Runs keep, beside the limiter, what was granted (address and time) and what was given back (address). The lemmas
  show that the count of an entry is the number of attempts granted on it and not given back, all within its window
  and within the limit of its key, and that the table is bounded.
\<close>

subsection \<open>The limiter\<close>

record attempt_rule =
  rule_key :: string
  rule_limit :: nat

record attempt_entry =
  attempts :: nat
  windowStartedAt :: int
  lastSeenAt :: int

record limiter =
  table :: "(string \<times> nat) list"
  store :: "nat \<Rightarrow> attempt_entry"
  fresh_address :: nat

record limiter_options =
  maxKeys :: nat
  windowMs :: int

definition default_limiter_options :: limiter_options where
  "default_limiter_options = \<lparr>maxKeys = 16384, windowMs = 5 * 60000\<rparr>"

definition new_limiter :: limiter where
  "new_limiter = \<lparr>table = [], store = (\<lambda>_. \<lparr>attempts = 0, windowStartedAt = 0, lastSeenAt = 0\<rparr>), fresh_address = 0\<rparr>"

fun prune_stale :: "int \<Rightarrow> int \<Rightarrow> (nat \<Rightarrow> attempt_entry) \<Rightarrow> (string \<times> nat) list \<Rightarrow> (string \<times> nat) list" where
  "prune_stale window now st [] = []"
| "prune_stale window now st ((k, a) # es) =
     (if now - lastSeenAt (st a) < window then (k, a) # es else prune_stale window now st es)"

definition current_entry :: "int \<Rightarrow> int \<Rightarrow> limiter \<Rightarrow> string \<Rightarrow> nat option" where
  "current_entry window now s key =
     (case map_of (table s) key of
        None \<Rightarrow> None
      | Some a \<Rightarrow> if now - windowStartedAt (store s a) < window then Some a else None)"

fun evict_oldest :: "nat \<Rightarrow> (string \<times> nat) list \<Rightarrow> (string \<times> nat) list" where
  "evict_oldest n [] = []"
| "evict_oldest n (e # es) = (if length (e # es) \<ge> n then evict_oldest n es else e # es)"

definition take_attempt :: "nat \<Rightarrow> int \<Rightarrow> string \<Rightarrow> nat option \<Rightarrow> limiter \<Rightarrow> (string \<times> nat) \<times> limiter" where
  "take_attempt n now key cur s =
     (let (a, e, nxt) = (case cur of
            Some a \<Rightarrow> (a, store s a, fresh_address s)
          | None \<Rightarrow> (fresh_address s, \<lparr>attempts = 0, windowStartedAt = now, lastSeenAt = now\<rparr>, fresh_address s + 1))
      in ((key, a), \<lparr>table = evict_oldest n (AList.delete key (table s)) @ [(key, a)],
           store = (store s)(a := e\<lparr>attempts := attempts e + 1, lastSeenAt := now\<rparr>), fresh_address = nxt\<rparr>))"

fun take_attempts :: "nat \<Rightarrow> int \<Rightarrow> (string \<times> nat option) list \<Rightarrow> limiter \<Rightarrow> (string \<times> nat) list \<times> limiter" where
  "take_attempts n now [] s = ([], s)"
| "take_attempts n now ((key, cur) # rs) s =
     (case take_attempt n now key cur s of (r, s1) \<Rightarrow>
        (case take_attempts n now rs s1 of (res, s2) \<Rightarrow> (r # res, s2)))"

definition reserve :: "limiter_options \<Rightarrow> int \<Rightarrow> attempt_rule list \<Rightarrow> limiter \<Rightarrow> (string \<times> nat) list option \<times> limiter" where
  "reserve opts now rules s =
     (let s1 = s\<lparr>table := prune_stale (windowMs opts) now (store s) (table s)\<rparr>;
          cur = (\<lambda>r. current_entry (windowMs opts) now s1 (rule_key r))
      in if list_ex (\<lambda>r. (case cur r of None \<Rightarrow> 0 | Some a \<Rightarrow> attempts (store s1 a)) \<ge> rule_limit r) rules then (None, s1)
         else (case take_attempts (maxKeys opts) now (map (\<lambda>r. (rule_key r, cur r)) rules) s1 of (res, s2) \<Rightarrow> (Some res, s2)))"

definition give_back :: "limiter \<Rightarrow> string \<times> nat \<Rightarrow> limiter" where
  "give_back s r =
     (let (key, a) = r; n = attempts (store s a) - 1
      in if map_of (table s) key \<noteq> Some a \<or> attempts (store s a) = 0 then s
         else s\<lparr>store := (store s)(a := (store s a)\<lparr>attempts := n\<rparr>),
                table := (if n = 0 then AList.delete key (table s) else table s)\<rparr>)"

definition release_attempts :: "(string \<times> nat) list \<Rightarrow> limiter \<Rightarrow> limiter" where
  "release_attempts rs s = foldl give_back s rs"


subsection \<open>Runs\<close>

record limiter_run =
  limiter_of :: limiter
  clock :: int
  granted :: "(nat \<times> int) list"
  returned :: "nat list"

datatype limiter_op = Reserve nat "attempt_rule list" | Give_Back "string \<times> nat"

definition takes_effect :: "limiter \<Rightarrow> string \<times> nat \<Rightarrow> bool" where
  "takes_effect s r \<longleftrightarrow> map_of (table s) (fst r) = Some (snd r) \<and> attempts (store s (snd r)) \<noteq> 0"

fun limiter_step :: "limiter_options \<Rightarrow> limiter_run \<Rightarrow> limiter_op \<Rightarrow> limiter_run" where
  "limiter_step opts x (Reserve d rules) =
     (let now = clock x + int d in
      case reserve opts now rules (limiter_of x) of
        (None, s) \<Rightarrow> x\<lparr>limiter_of := s, clock := now\<rparr>
      | (Some res, s) \<Rightarrow> x\<lparr>limiter_of := s, clock := now, granted := granted x @ map (\<lambda>(k, a). (a, now)) res\<rparr>)"
| "limiter_step opts x (Give_Back r) =
     x\<lparr>limiter_of := release_attempts [r] (limiter_of x), returned := returned x @ (if takes_effect (limiter_of x) r then [snd r] else [])\<rparr>"

definition limiter_start :: "int \<Rightarrow> limiter_run" where
  "limiter_start now = \<lparr>limiter_of = new_limiter, clock = now, granted = [], returned = []\<rparr>"

text \<open>The limit of a key is the same in all calls, and a call names each key once.\<close>

fun rules_ok :: "(string \<Rightarrow> nat) \<Rightarrow> limiter_op \<Rightarrow> bool" where
  "rules_ok limit (Reserve d rules) \<longleftrightarrow> distinct (map rule_key rules) \<and> list_all (\<lambda>r. rule_limit r = limit (rule_key r)) rules"
| "rules_ok limit (Give_Back r) \<longleftrightarrow> True"

definition grants_on :: "nat \<Rightarrow> (nat \<times> int) list \<Rightarrow> nat" where
  "grants_on a g = length (filter (\<lambda>(b, t). b = a) g)"

definition returns_on :: "nat \<Rightarrow> nat list \<Rightarrow> nat" where
  "returns_on a r = length (filter (\<lambda>b. b = a) r)"

definition table_ok :: "(string \<Rightarrow> nat) \<Rightarrow> int \<Rightarrow> limiter \<Rightarrow> bool" where
  "table_ok limit now s \<longleftrightarrow> distinct (map fst (table s)) \<and> distinct (map snd (table s))
     \<and> (\<forall>(k, a) \<in> set (table s). a < fresh_address s \<and> attempts (store s a) \<le> limit k \<and> windowStartedAt (store s a) \<le> now)"

definition history_ok :: "int \<Rightarrow> limiter \<Rightarrow> (nat \<times> int) list \<Rightarrow> nat list \<Rightarrow> bool" where
  "history_ok window s g r \<longleftrightarrow> (\<forall>a. attempts (store s a) + returns_on a r = grants_on a g)
     \<and> (\<forall>(a, t) \<in> set g. a < fresh_address s \<and> windowStartedAt (store s a) \<le> t \<and> t < windowStartedAt (store s a) + window)"


subsection \<open>Invariant\<close>

lemma prune_stale_suffix: "\<exists>es. entries = es @ prune_stale window now st entries"
  by (induction entries rule: prune_stale.induct [of _ window now st]) (auto, metis append_Cons)

lemma evict_oldest_length: "0 < n \<Longrightarrow> length (evict_oldest n es) < n"
  by (induction n es rule: evict_oldest.induct) auto

lemma grants_on_simps [simp]:
  "grants_on a [] = 0" "grants_on a (g @ h) = grants_on a g + grants_on a h"
  "grants_on a ((b, t) # g) = (if b = a then 1 else 0) + grants_on a g"
  by (simp_all add: grants_on_def)

lemma returns_on_simps [simp]: "returns_on a [] = 0" "returns_on a (r @ q) = returns_on a r + returns_on a q"
  "returns_on a (b # r) = (if b = a then 1 else 0) + returns_on a r"
  by (simp_all add: returns_on_def)

lemma table_ok_suffix:
  assumes "table_ok limit now s" "table s = es @ es'" "now \<le> t"
  shows "table_ok limit t (s\<lparr>table := es'\<rparr>)"
proof -
  have "a < fresh_address s \<and> attempts (store s a) \<le> limit k \<and> windowStartedAt (store s a) \<le> t" if "(k, a) \<in> set es'" for k a
  proof -
    have "(k, a) \<in> set (table s)" using that assms(2) by simp
    then show ?thesis using assms(1,3) by (auto simp: table_ok_def)
  qed
  then show ?thesis using assms(1,2) by (auto simp: table_ok_def)
qed

lemma unused_address:
  assumes "history_ok window s g r"
  shows "attempts (store s (fresh_address s)) = 0" "returns_on (fresh_address s) r = 0" "grants_on (fresh_address s) g = 0"
proof -
  show g: "grants_on (fresh_address s) g = 0" using assms by (auto simp: history_ok_def grants_on_def filter_empty_conv)
  show "attempts (store s (fresh_address s)) = 0" "returns_on (fresh_address s) r = 0"
    using assms g unfolding history_ok_def by (metis add_is_0)+
qed

text \<open>What the rules left to take rely on: their entries are within their window and limit and belong to their keys.\<close>

definition ready :: "(string \<Rightarrow> nat) \<Rightarrow> int \<Rightarrow> int \<Rightarrow> limiter \<Rightarrow> string \<times> nat option \<Rightarrow> bool" where
  "ready limit window now s r \<longleftrightarrow> (case snd r of
     None \<Rightarrow> 0 < limit (fst r)
   | Some a \<Rightarrow> a < fresh_address s \<and> attempts (store s a) < limit (fst r)
       \<and> windowStartedAt (store s a) \<le> now \<and> now < windowStartedAt (store s a) + window
       \<and> (\<forall>k. (k, a) \<in> set (table s) \<longrightarrow> k = fst r))"

definition apart :: "(string \<times> nat option) list \<Rightarrow> bool" where
  "apart rs \<longleftrightarrow> distinct (map fst rs) \<and> distinct (filter (\<lambda>c. c \<noteq> None) (map snd rs))"

lemma take_attempt_eq:
  assumes "take_attempt n now key cur s = (r, s')"
  obtains a e where "r = (key, a)" "table s' = evict_oldest n (AList.delete key (table s)) @ [(key, a)]"
    "store s' = (store s)(a := e\<lparr>attempts := attempts e + 1, lastSeenAt := now\<rparr>)"
    "case cur of Some b \<Rightarrow> a = b \<and> e = store s a \<and> fresh_address s' = fresh_address s
     | None \<Rightarrow> a = fresh_address s \<and> e = \<lparr>attempts = 0, windowStartedAt = now, lastSeenAt = now\<rparr> \<and> fresh_address s' = fresh_address s + 1"
  using assms by (cases cur) (auto simp: take_attempt_def)

lemma evicted_entry: "e \<in> set (evict_oldest n es) \<Longrightarrow> e \<in> set es"
  by (induction n es rule: evict_oldest.induct) (auto split: if_splits)

lemma evict_distinct: "distinct (map f es) \<Longrightarrow> distinct (map f (evict_oldest n es))"
  by (induction n es rule: evict_oldest.induct) auto

lemma deleted_entry: "(k, a) \<in> set (AList.delete key es) \<Longrightarrow> (k, a) \<in> set es \<and> k \<noteq> key"
  by (auto simp: AList.delete_eq)

lemma take_attempt_ok:
  assumes t: "take_attempt n now key cur s = (r, s')" and tab: "table_ok limit now s" and hist: "history_ok window s g q"
    and rd: "ready limit window now s (key, cur)" and w: "0 < window"
  shows "table_ok limit now s' \<and> history_ok window s' (g @ [(snd r, now)]) q"
proof -
  obtain a e where r: "r = (key, a)" "table s' = evict_oldest n (AList.delete key (table s)) @ [(key, a)]"
    "store s' = (store s)(a := e\<lparr>attempts := attempts e + 1, lastSeenAt := now\<rparr>)"
    "case cur of Some b \<Rightarrow> a = b \<and> e = store s a \<and> fresh_address s' = fresh_address s
     | None \<Rightarrow> a = fresh_address s \<and> e = \<lparr>attempts = 0, windowStartedAt = now, lastSeenAt = now\<rparr> \<and> fresh_address s' = fresh_address s + 1"
    by (rule take_attempt_eq [OF t])
  have a: "a < fresh_address s'" "fresh_address s \<le> fresh_address s'" "attempts e < limit key" "attempts e = attempts (store s a)"
      "windowStartedAt e \<le> now" "now < windowStartedAt e + window" "a < fresh_address s \<longrightarrow> e = store s a"
    using r(4) rd w unused_address(1) [OF hist] by (auto simp: ready_def split: option.splits)
  have own: "b \<noteq> a" if "(k, b) \<in> set (AList.delete key (table s))" for k b
    using deleted_entry [OF that] r(4) rd tab by (fastforce simp: ready_def table_ok_def split: option.splits)
  have old: "\<forall>(k, b) \<in> set (evict_oldest n (AList.delete key (table s))). (k, b) \<in> set (table s) \<and> k \<noteq> key \<and> b \<noteq> a"
    using evicted_entry deleted_entry own by fast
  have d: "distinct (map fst (evict_oldest n (AList.delete key (table s))))" "distinct (map snd (evict_oldest n (AList.delete key (table s))))"
    using tab by (auto simp: table_ok_def AList.delete_eq intro!: evict_distinct distinct_map_filter)
  have "table_ok limit now s'"
    unfolding table_ok_def r(2,3) using d old tab a by (fastforce simp: table_ok_def)
  moreover have "history_ok window s' (g @ [(a, now)]) q"
    unfolding history_ok_def r(3) using hist a by (fastforce simp: history_ok_def)
  ultimately show ?thesis by (simp add: r(1))
qed

lemma take_attempt_ready:
  assumes t: "take_attempt n now key cur s = (r, s')" and rd: "ready limit window now s (k, c)"
    and k: "k \<noteq> key" and c: "c = None \<or> c \<noteq> cur"
  shows "ready limit window now s' (k, c)"
proof (cases c)
  case None
  then show ?thesis using rd by (simp add: ready_def)
next
  case (Some b)
  obtain a e where r: "r = (key, a)" "table s' = evict_oldest n (AList.delete key (table s)) @ [(key, a)]"
    "store s' = (store s)(a := e\<lparr>attempts := attempts e + 1, lastSeenAt := now\<rparr>)"
    "case cur of Some b \<Rightarrow> a = b \<and> e = store s a \<and> fresh_address s' = fresh_address s
     | None \<Rightarrow> a = fresh_address s \<and> e = \<lparr>attempts = 0, windowStartedAt = now, lastSeenAt = now\<rparr> \<and> fresh_address s' = fresh_address s + 1"
    by (rule take_attempt_eq [OF t])
  have b: "b \<noteq> a" "b < fresh_address s'" using r(4) rd c Some by (auto simp: ready_def split: option.splits)
  have "(k', b) \<in> set (table s)" if "(k', b) \<in> set (evict_oldest n (AList.delete key (table s)))" for k'
    using deleted_entry [OF evicted_entry [OF that]] by blast
  then show ?thesis using rd b unfolding ready_def r(2,3) Some by auto
qed

lemma take_attempts_ok:
  assumes "take_attempts n now rs s = (res, s')" "table_ok limit now s" "history_ok window s g q"
    and "list_all (ready limit window now s) rs" "apart rs" "0 < window"
  shows "table_ok limit now s' \<and> history_ok window s' (g @ map (\<lambda>(k, a). (a, now)) res) q"
  using assms
proof (induction rs arbitrary: s g res)
  case (Cons x rs)
  obtain key cur where x: "x = (key, cur)" by (cases x)
  obtain r s1 where t: "take_attempt n now key cur s = (r, s1)" by (cases "take_attempt n now key cur s")
  obtain res' where res: "take_attempts n now rs s1 = (res', s')" "res = r # res'"
    using Cons.prems(1) t by (auto simp: x split: prod.splits)
  have one: "table_ok limit now s1" "history_ok window s1 (g @ [(snd r, now)]) q"
    using take_attempt_ok [OF t Cons.prems(2,3) _ Cons.prems(6)] Cons.prems(4) by (auto simp: x)
  have "ready limit window now s1 y" if y: "y \<in> set rs" for y
  proof -
    have "ready limit window now s (fst y, snd y)" using Cons.prems(4) y by (simp add: list_all_iff)
    moreover have "fst y \<noteq> key" using Cons.prems(5) y by (auto simp: apart_def x)
    moreover have "cur \<noteq> None \<Longrightarrow> cur \<notin> snd ` set rs" using Cons.prems(5) by (simp add: apart_def x)
    then have "snd y = None \<or> snd y \<noteq> cur" using imageI [OF y, of snd] by metis
    ultimately show ?thesis using take_attempt_ready [OF t, of limit window "fst y" "snd y"] by simp
  qed
  then have rdy: "list_all (ready limit window now s1) rs" by (simp add: list_all_iff)
  have ap: "apart rs" using Cons.prems(5) by (auto simp: apart_def split: if_splits)
  from Cons.IH [OF res(1) one rdy ap Cons.prems(6)] show ?case by (simp add: res(2) split_beta)
qed simp

lemma take_attempts_bound:
  assumes "0 < n" "take_attempts n now rs s = (res, s')" "length (table s) \<le> n"
  shows "length (table s') \<le> n"
  using assms
proof (induction rs arbitrary: s res)
  case (Cons x rs)
  obtain key cur where x: "x = (key, cur)" by (cases x)
  obtain r s1 where t: "take_attempt n now key cur s = (r, s1)" by (cases "take_attempt n now key cur s")
  have "length (table s1) \<le> n"
    by (rule take_attempt_eq [OF t]) (use evict_oldest_length [OF assms(1)] in \<open>simp add: Suc_leI\<close>)
  moreover obtain res' where "take_attempts n now rs s1 = (res', s')"
    using Cons.prems(2) t by (auto simp: x split: prod.splits)
  ultimately show ?case using Cons.IH [OF assms(1)] by blast
qed simp

lemma prune_stale_entry: "e \<in> set (prune_stale window now st es) \<Longrightarrow> e \<in> set es"
  by (induction window now st es rule: prune_stale.induct) (auto split: if_splits)

lemma pruned:
  assumes "table_ok limit now s" "now \<le> t"
  shows "table_ok limit t (s\<lparr>table := prune_stale w t (store s) (table s)\<rparr>)"
    "length (prune_stale w t (store s) (table s)) \<le> length (table s)"
proof -
  obtain es where es: "table s = es @ prune_stale w t (store s) (table s)" using prune_stale_suffix by blast
  show "table_ok limit t (s\<lparr>table := prune_stale w t (store s) (table s)\<rparr>)" by (rule table_ok_suffix [OF assms(1) es assms(2)])
  show "length (prune_stale w t (store s) (table s)) \<le> length (table s)" using arg_cong [OF es, of length] by simp
qed

lemma same_address:
  assumes "table_ok limit now s" "(k, a) \<in> set (table s)" "(k', a) \<in> set (table s)"
  shows "k = k'"
proof -
  have "inj_on snd (set (table s))" using assms(1) by (simp add: table_ok_def distinct_map)
  from inj_onD [OF this _ assms(2,3)] show ?thesis by simp
qed

lemma current_ready:
  assumes tab: "table_ok limit now s" and lim: "(case current_entry window now s k of None \<Rightarrow> 0 | Some a \<Rightarrow> attempts (store s a)) < limit k"
  shows "ready limit window now s (k, current_entry window now s k)"
proof (cases "current_entry window now s k")
  case None
  then show ?thesis using lim by (simp add: ready_def)
next
  case (Some a)
  then have m: "map_of (table s) k = Some a" "now - windowStartedAt (store s a) < window"
    by (auto simp: current_entry_def split: option.splits if_splits)
  then have e: "(k, a) \<in> set (table s)" by (blast dest: map_of_SomeD)
  then have "a < fresh_address s" "windowStartedAt (store s a) \<le> now" using tab by (auto simp: table_ok_def)
  moreover have "\<forall>k'. (k', a) \<in> set (table s) \<longrightarrow> k' = k" using same_address [OF tab] e by blast
  ultimately show ?thesis using lim m(2) by (simp add: ready_def Some)
qed

lemma current_apart:
  assumes tab: "table_ok limit now s" and d: "distinct ks"
  shows "apart (map (\<lambda>k. (k, current_entry window now s k)) ks)"
proof -
  have same: "k = k'" if "current_entry window now s k = Some a" "current_entry window now s k' = Some a" for k k' a
  proof (rule same_address [OF tab])
    show "(k, a) \<in> set (table s)" "(k', a) \<in> set (table s)"
      using that by (auto simp: current_entry_def split: option.splits if_splits dest: map_of_SomeD)
  qed
  have "distinct (filter (\<lambda>c. c \<noteq> None) (map (current_entry window now s) ks))"
    using d by (induction ks) (auto dest: same)
  then show ?thesis using d by (simp add: apart_def o_def)
qed

text \<open>One call of \<open>reserve\<close>, and one reservation given back.\<close>

lemma reserve_ok:
  assumes r: "reserve opts t rules s = (res, s')" and tab: "table_ok limit now s" and hist: "history_ok (windowMs opts) s g q"
    and t: "now \<le> t" and w: "0 < windowMs opts" and ok: "rules_ok limit (Reserve d rules)"
    and n: "0 < maxKeys opts" "length (table s) \<le> maxKeys opts"
  shows "table_ok limit t s' \<and> length (table s') \<le> maxKeys opts
    \<and> history_ok (windowMs opts) s' (g @ map (\<lambda>(k, a). (a, t)) (case res of None \<Rightarrow> [] | Some l \<Rightarrow> l)) q"
proof -
  define s1 where "s1 = s\<lparr>table := prune_stale (windowMs opts) t (store s) (table s)\<rparr>"
  define cur where "cur = current_entry (windowMs opts) t s1"
  have req: "reserve opts t rules s =
      (if list_ex (\<lambda>r. (case cur (rule_key r) of None \<Rightarrow> 0 | Some a \<Rightarrow> attempts (store s1 a)) \<ge> rule_limit r) rules then (None, s1)
       else (case take_attempts (maxKeys opts) t (map (\<lambda>r. (rule_key r, cur (rule_key r))) rules) s1 of (res, s2) \<Rightarrow> (Some res, s2)))"
    unfolding reserve_def Let_def s1_def cur_def by (rule refl)
  have s1: "table_ok limit t s1" "length (table s1) \<le> maxKeys opts"
    using pruned [OF tab t, of "windowMs opts"] n(2) by (auto simp: s1_def)
  have h1: "history_ok (windowMs opts) s1 g q" using hist by (simp add: history_ok_def s1_def)
  show ?thesis
  proof (cases "list_ex (\<lambda>r. (case cur (rule_key r) of None \<Rightarrow> 0 | Some a \<Rightarrow> attempts (store s1 a)) \<ge> rule_limit r) rules")
    case True
    then have "res = None" "s' = s1" using r unfolding req by simp_all
    then show ?thesis using s1 h1 by simp
  next
    case False
    obtain l where l: "res = Some l" "take_attempts (maxKeys opts) t (map (\<lambda>r. (rule_key r, cur (rule_key r))) rules) s1 = (l, s')"
      using r False unfolding req by (auto split: prod.splits)
    have rdy: "list_all (ready limit (windowMs opts) t s1) (map (\<lambda>r. (rule_key r, cur (rule_key r))) rules)"
    proof -
      have "ready limit (windowMs opts) t s1 (rule_key r, cur (rule_key r))" if "r \<in> set rules" for r
      proof -
        have "rule_limit r = limit (rule_key r)" using ok that by (simp add: list_all_iff)
        moreover have "\<not> rule_limit r \<le> (case cur (rule_key r) of None \<Rightarrow> 0 | Some a \<Rightarrow> attempts (store s1 a))"
          using False that by (simp add: list_ex_iff)
        ultimately show ?thesis unfolding cur_def by (intro current_ready [OF s1(1)]) simp
      qed
      then show ?thesis by (simp add: list_all_iff)
    qed
    have ap: "apart (map (\<lambda>r. (rule_key r, cur (rule_key r))) rules)"
      using current_apart [OF s1(1), of "map rule_key rules" "windowMs opts"] ok by (simp add: cur_def o_def)
    show ?thesis
      using take_attempts_ok [OF l(2) s1(1) h1 rdy ap w] take_attempts_bound [OF n(1) l(2) s1(2)] by (simp only: l(1) option.case)
  qed
qed

lemma give_back_ok:
  assumes "table_ok limit now s" "history_ok window s g q"
  shows "table_ok limit now (give_back s x) \<and> length (table (give_back s x)) \<le> length (table s)
    \<and> history_ok window (give_back s x) g (q @ (if takes_effect s x then [snd x] else []))"
proof (cases "takes_effect s x")
  case False
  then have "give_back s x = s" by (auto simp: give_back_def takes_effect_def split_beta Let_def)
  then show ?thesis using assms False by simp
next
  case True
  obtain key a where x: "x = (key, a)" by (cases x)
  define n where "n = attempts (store s a) - 1"
  have g: "give_back s x = s\<lparr>store := (store s)(a := (store s a)\<lparr>attempts := n\<rparr>),
      table := (if n = 0 then AList.delete key (table s) else table s)\<rparr>"
    using True by (simp add: give_back_def takes_effect_def x n_def Let_def)
  have n: "attempts (store s a) = n + 1" using True by (simp add: takes_effect_def x n_def)
  have "history_ok window (give_back s x) g (q @ [a])"
    using assms(2) n unfolding g history_ok_def by fastforce
  moreover have "table_ok limit now (give_back s x)"
  proof -
    have e: "\<forall>(k, b) \<in> set (table s). b < fresh_address s \<and> attempts (((store s)(a := (store s a)\<lparr>attempts := n\<rparr>)) b) \<le> limit k
        \<and> windowStartedAt (((store s)(a := (store s a)\<lparr>attempts := n\<rparr>)) b) \<le> now"
      using assms(1) n by (fastforce simp: table_ok_def)
    show ?thesis
    proof (cases "n = 0")
      case True
      have "set (AList.delete key (table s)) \<subseteq> set (table s)" by (auto simp: AList.delete_eq)
      then show ?thesis using True e assms(1) unfolding g
        by (auto simp: table_ok_def AList.delete_eq intro!: distinct_map_filter)
    next
      case False
      then show ?thesis using e assms(1) unfolding g by (auto simp: table_ok_def)
    qed
  qed
  moreover have "length (table (give_back s x)) \<le> length (table s)" unfolding g by (simp add: AList.delete_eq)
  ultimately show ?thesis using True by (simp add: x)
qed

definition limiter_inv :: "limiter_options \<Rightarrow> (string \<Rightarrow> nat) \<Rightarrow> limiter_run \<Rightarrow> bool" where
  "limiter_inv opts limit x \<longleftrightarrow> table_ok limit (clock x) (limiter_of x) \<and> length (table (limiter_of x)) \<le> maxKeys opts
     \<and> history_ok (windowMs opts) (limiter_of x) (granted x) (returned x)"

lemma limiter_step_inv:
  assumes inv: "limiter_inv opts limit x" and o: "0 < maxKeys opts" "0 < windowMs opts" and ok: "rules_ok limit y"
  shows "limiter_inv opts limit (limiter_step opts x y)"
proof (cases y)
  case (Reserve d rules)
  obtain res s' where r: "reserve opts (clock x + int d) rules (limiter_of x) = (res, s')" by (cases "reserve opts (clock x + int d) rules (limiter_of x)")
  from inv have "table_ok limit (clock x + int d) s' \<and> length (table s') \<le> maxKeys opts
    \<and> history_ok (windowMs opts) s' (granted x @ map (\<lambda>(k, a). (a, clock x + int d)) (case res of None \<Rightarrow> [] | Some l \<Rightarrow> l)) (returned x)"
    by (intro reserve_ok [OF r, where d = d]) (use o ok Reserve in \<open>auto simp: limiter_inv_def\<close>)
  then show ?thesis by (cases res) (simp_all add: limiter_inv_def Reserve r Let_def)
next
  case (Give_Back z)
  from inv have "table_ok limit (clock x) (give_back (limiter_of x) z)
    \<and> length (table (give_back (limiter_of x) z)) \<le> length (table (limiter_of x))
    \<and> history_ok (windowMs opts) (give_back (limiter_of x) z) (granted x) (returned x @ (if takes_effect (limiter_of x) z then [snd z] else []))"
    by (intro give_back_ok) (simp_all add: limiter_inv_def)
  then show ?thesis using inv by (auto simp: limiter_inv_def Give_Back release_attempts_def)
qed

lemma limiter_run_inv:
  assumes "0 < maxKeys opts" "0 < windowMs opts" "list_all (rules_ok limit) ops"
  shows "limiter_inv opts limit (foldl (limiter_step opts) (limiter_start now) ops)"
  using assms(3)
proof (induction ops rule: rev_induct)
  case Nil
  then show ?case by (simp add: limiter_inv_def limiter_start_def new_limiter_def table_ok_def history_ok_def)
next
  case (snoc y ops)
  then show ?case by (simp add: limiter_step_inv [OF _ assms(1,2)])
qed


subsection \<open>Property\<close>

text \<open>C36. After any run of reservations and releases the table holds at most \<open>maxKeys\<close> entries; the count of the entry
  of a key is the number of attempts granted on it and not given back, never more than the limit of the key, and all
  of them fell within one window.\<close>

theorem attempts_limited:
  assumes "0 < maxKeys opts" "0 < windowMs opts" "list_all (rules_ok limit) ops"
    and "x = foldl (limiter_step opts) (limiter_start now) ops" and "map_of (table (limiter_of x)) key = Some a"
  shows "length (table (limiter_of x)) \<le> maxKeys opts
    \<and> grants_on a (granted x) - returns_on a (returned x) = attempts (store (limiter_of x) a)
    \<and> grants_on a (granted x) \<le> limit key + returns_on a (returned x)
    \<and> (\<exists>t. \<forall>u. (a, u) \<in> set (granted x) \<longrightarrow> t \<le> u \<and> u < t + windowMs opts)"
proof -
  have inv: "limiter_inv opts limit x" unfolding assms(4) by (rule limiter_run_inv [OF assms(1-3)])
  have c: "attempts (store (limiter_of x) a) + returns_on a (returned x) = grants_on a (granted x)"
    using inv by (simp add: limiter_inv_def history_ok_def)
  have "attempts (store (limiter_of x) a) \<le> limit key"
    using inv map_of_SomeD [OF assms(5)] by (auto simp: limiter_inv_def table_ok_def)
  moreover have "\<forall>u. (a, u) \<in> set (granted x) \<longrightarrow> windowStartedAt (store (limiter_of x) a) \<le> u
      \<and> u < windowStartedAt (store (limiter_of x) a) + windowMs opts"
    using inv by (auto simp: limiter_inv_def history_ok_def)
  ultimately show ?thesis using c inv by (auto simp: limiter_inv_def)
qed

definition small_limiter :: limiter_options where
  "small_limiter = \<lparr>maxKeys = 2, windowMs = 10\<rparr>"

definition sample_attempts :: "limiter_op list" where
  "sample_attempts = [Reserve 0 [\<lparr>rule_key = ''ip'', rule_limit = 2\<rparr>], Reserve 3 [\<lparr>rule_key = ''ip'', rule_limit = 2\<rparr>],
     Give_Back (''ip'', 0), Reserve 1 [\<lparr>rule_key = ''ip'', rule_limit = 2\<rparr>], Reserve 1 [\<lparr>rule_key = ''ip'', rule_limit = 2\<rparr>]]"

text \<open>Three attempts are granted and one is given back; the fourth is refused.\<close>

theorem attempts_limited_witness:
  "map_of (table (limiter_of (foldl (limiter_step small_limiter) (limiter_start 100) sample_attempts))) ''ip'' = Some 0
   \<and> granted (foldl (limiter_step small_limiter) (limiter_start 100) sample_attempts) = [(0, 100), (0, 103), (0, 104)]
   \<and> grants_on 0 (granted (foldl (limiter_step small_limiter) (limiter_start 100) sample_attempts))
     \<le> 2 + returns_on 0 (returned (foldl (limiter_step small_limiter) (limiter_start 100) sample_attempts))"
proof -
  have o: "0 < maxKeys small_limiter" "0 < windowMs small_limiter" "list_all (rules_ok (\<lambda>_. 2)) sample_attempts"
    by (simp_all add: small_limiter_def sample_attempts_def)
  have m: "map_of (table (limiter_of (foldl (limiter_step small_limiter) (limiter_start 100) sample_attempts))) ''ip'' = Some 0"
    "granted (foldl (limiter_step small_limiter) (limiter_start 100) sample_attempts) = [(0, 100), (0, 103), (0, 104)]"
    by code_simp+
  show ?thesis using attempts_limited [OF o refl m(1)] m by blast
qed

end
