(* ===== verification/Http_Syntax.thy ===== *)
theory Http_Syntax
  imports Js_Value
begin

text \<open>
  The lexical layer of the HTTP proxy: the byte classes and header checks of \<open>tools/http-proxy/src/request.rs\<close>, the
  limits of \<open>tools/http-proxy/src/config.rs\<close>, and the functions of the Rust standard library that the proxy uses on
  texts. A byte string is a \<open>string\<close>; a Rust \<open>str\<close> is a byte string that is valid UTF-8.
\<close>

subsection \<open>Standard library\<close>

definition utf8_tail :: "nat \<Rightarrow> nat \<Rightarrow> char \<Rightarrow> bool" where
  "utf8_tail lo hi c \<longleftrightarrow> lo \<le> (of_char c :: nat) \<and> (of_char c :: nat) \<le> hi"

text \<open>\<open>std::str::from_utf8\<close>: the well-formed byte sequences of the Unicode standard.\<close>

fun valid_utf8 :: "string \<Rightarrow> bool" where
  "valid_utf8 [] = True"
| "valid_utf8 (b # bs) =
     (let n = (of_char b :: nat) in
      if n < 0x80 then valid_utf8 bs
      else if 0xC2 \<le> n \<and> n \<le> 0xDF then
        (case bs of c # r \<Rightarrow> utf8_tail 0x80 0xBF c \<and> valid_utf8 r | [] \<Rightarrow> False)
      else if 0xE0 \<le> n \<and> n \<le> 0xEF then
        (case bs of c # d # r \<Rightarrow>
           utf8_tail (if n = 0xE0 then 0xA0 else 0x80) (if n = 0xED then 0x9F else 0xBF) c
           \<and> utf8_tail 0x80 0xBF d \<and> valid_utf8 r
         | _ \<Rightarrow> False)
      else if 0xF0 \<le> n \<and> n \<le> 0xF4 then
        (case bs of c # d # e # r \<Rightarrow>
           utf8_tail (if n = 0xF0 then 0x90 else 0x80) (if n = 0xF4 then 0x8F else 0xBF) c
           \<and> utf8_tail 0x80 0xBF d \<and> utf8_tail 0x80 0xBF e \<and> valid_utf8 r
         | _ \<Rightarrow> False)
      else False)"

text \<open>\<open>iter().position\<close> of a byte, and \<open>split_once\<close> at a byte.\<close>

definition position_of :: "char \<Rightarrow> string \<Rightarrow> nat option" where
  "position_of c s = (let n = length (takeWhile (\<lambda>x. x \<noteq> c) s) in if n < length s then Some n else None)"

definition split_once :: "char \<Rightarrow> string \<Rightarrow> (string \<times> string) option" where
  "split_once c s = (case position_of c s of None \<Rightarrow> None | Some n \<Rightarrow> Some (take n s, drop (n + 1) s))"

definition CR :: char where "CR = CHR 0x0D"

definition LF :: char where "LF = CHR 0x0A"

definition CRLF :: string where "CRLF = [CR, LF]"

text \<open>\<open>u64::from_str_radix(_, 16)\<close> on hexadecimal digits, and the format \<open>{:x}\<close>.\<close>

definition hex_digit :: "char \<Rightarrow> nat" where
  "hex_digit c = (case hex_val c of Some v \<Rightarrow> v | None \<Rightarrow> 0)"

definition hex_value :: "string \<Rightarrow> nat" where
  "hex_value ds = foldl (\<lambda>n c. 16 * n + hex_digit c) 0 ds"

fun show_hex :: "nat \<Rightarrow> string" where
  "show_hex n = (if n < 16 then [hex_char n] else show_hex (n div 16) @ [hex_char (n mod 16)])"

declare show_hex.simps [simp del]


subsection \<open>Header checks\<close>

definition MAX_REQUEST_HEADER_BYTES :: nat where
  "MAX_REQUEST_HEADER_BYTES = 64 * 1024"

definition MAX_REQUEST_BODY_BYTES :: nat where
  "MAX_REQUEST_BODY_BYTES = 16 * 1024 * 1024"

definition MAX_CHUNK_LINE_BYTES :: nat where
  "MAX_CHUNK_LINE_BYTES = 4 * 1024"

definition MAX_CHUNK_TRAILER_BYTES :: nat where
  "MAX_CHUNK_TRAILER_BYTES = 8 * 1024"

definition token_char :: "char \<Rightarrow> bool" where
  "token_char c \<longleftrightarrow> is_digit c \<or> is_upper c \<or> is_lower c
     \<or> c \<in> set (''!#$%&*+-.^_`|~'' @ [CHR 0x27])"

definition is_http_token :: "string \<Rightarrow> bool" where
  "is_http_token v \<longleftrightarrow> v \<noteq> [] \<and> list_all token_char v"

definition bad_value_char :: "char \<Rightarrow> bool" where
  "bad_value_char c \<longleftrightarrow> ((of_char c :: nat) < 32 \<and> c \<noteq> CHR 0x09) \<or> c = CHR 0x7F"

definition invalid_header_value :: "string \<Rightarrow> bool" where
  "invalid_header_value v \<longleftrightarrow> list_ex bad_value_char v"


subsection \<open>Facts\<close>

lemma CRLF_simps [simp]: "CR \<noteq> LF" "LF \<noteq> CR" "length CRLF = 2" "CRLF \<noteq> []"
  by (simp_all add: CR_def LF_def CRLF_def)

lemma bad_value_controls [simp]: "bad_value_char CR" "bad_value_char LF"
  by (simp_all add: bad_value_char_def CR_def LF_def)

lemma position_of_None: "position_of c s = None \<longleftrightarrow> c \<notin> set s"
proof -
  have "c \<in> set s \<longleftrightarrow> length (takeWhile (\<lambda>x. x \<noteq> c) s) < length s"
    by (induction s) auto
  then show ?thesis by (simp add: position_of_def Let_def)
qed

lemma position_of_Some:
  assumes "position_of c s = Some n"
  shows "n < length s" "s ! n = c" "c \<notin> set (take n s)" "s = take n s @ c # drop (n + 1) s"
proof -
  have n: "n = length (takeWhile (\<lambda>x. x \<noteq> c) s)" "n < length s"
    using assms by (auto simp: position_of_def Let_def split: if_splits)
  show "n < length s" by (rule n(2))
  show nth: "s ! n = c" using nth_length_takeWhile [of "\<lambda>x. x \<noteq> c" s] n by simp
  have "take n s = takeWhile (\<lambda>x. x \<noteq> c) s" by (simp add: n(1) takeWhile_eq_take [symmetric])
  then show "c \<notin> set (take n s)" by (auto dest: set_takeWhileD)
  show "s = take n s @ c # drop (n + 1) s" using id_take_nth_drop [OF n(2)] nth by simp
qed

lemma position_of_append: "c \<notin> set p \<Longrightarrow> position_of c (p @ c # r) = Some (length p)"
proof -
  assume "c \<notin> set p"
  then have "takeWhile (\<lambda>x. x \<noteq> c) (p @ c # r) = p" by (subst takeWhile_append2) auto
  then show ?thesis by (simp add: position_of_def Let_def)
qed

lemma split_once_Some: "split_once c s = Some (a, b) \<longleftrightarrow> s = a @ c # b \<and> c \<notin> set a"
proof
  assume h: "split_once c s = Some (a, b)"
  then obtain n where n: "position_of c s = Some n" "a = take n s" "b = drop (n + 1) s"
    by (auto simp: split_once_def split: option.splits)
  show "s = a @ c # b \<and> c \<notin> set a" using position_of_Some(3,4) [OF n(1)] unfolding n(2,3) by blast
next
  assume "s = a @ c # b \<and> c \<notin> set a"
  then show "split_once c s = Some (a, b)" by (simp add: split_once_def position_of_append)
qed

lemma hex_digit_hex_char: "n < 16 \<Longrightarrow> hex_digit (hex_char n) = n \<and> is_hex (hex_char n)"
  by (auto simp: hex_digit_def hex_val_def hex_char_def char_class_defs)

lemma hex_value_snoc [simp]: "hex_value (ds @ [c]) = 16 * hex_value ds + hex_digit c"
  by (simp add: hex_value_def)

lemma show_hex_value: "hex_value (show_hex n) = n"
proof (induction n rule: show_hex.induct)
  case (1 n)
  show ?case
  proof (cases "n < 16")
    case True
    then show ?thesis using hex_digit_hex_char by (simp add: show_hex.simps [of n] hex_value_def)
  next
    case False
    have "hex_value (show_hex n) = 16 * hex_value (show_hex (n div 16)) + hex_digit (hex_char (n mod 16))"
      using False by (simp add: show_hex.simps [of n])
    then show ?thesis using 1 [OF False] hex_digit_hex_char [of "n mod 16"] by simp
  qed
qed

lemma show_hex_chars: "show_hex n \<noteq> [] \<and> list_all is_hex (show_hex n)"
proof (induction n rule: show_hex.induct)
  case (1 n)
  then show ?case using hex_digit_hex_char [of n] hex_digit_hex_char [of "n mod 16"]
    by (cases "n < 16") (simp_all add: show_hex.simps [of n])
qed

lemma show_hex_length: "n < 16 ^ k \<Longrightarrow> 0 < k \<Longrightarrow> length (show_hex n) \<le> k"
proof (induction k arbitrary: n)
  case (Suc k)
  show ?case
  proof (cases "n < 16")
    case False
    have k: "0 < k" using False Suc.prems(1) by (cases k) auto
    have "n div 16 < 16 ^ k" using Suc.prems(1) by (simp add: less_mult_imp_div_less mult.commute)
    from Suc.IH [OF this k] False show ?thesis by (simp add: show_hex.simps [of n])
  qed (simp add: show_hex.simps [of n])
qed simp

lemma hex_not_control: "is_hex c \<Longrightarrow> c \<noteq> CR \<and> c \<noteq> LF"
  by (auto simp: char_class_defs CR_def LF_def)

lemma hex_value_bound: "list_all is_hex ds \<Longrightarrow> hex_value ds < 16 ^ length ds"
proof (induction ds rule: rev_induct)
  case (snoc c ds)
  have "hex_digit c < 16" using hex_val_bound [of c] by (cases "hex_val c") (auto simp: hex_digit_def)
  then show ?case using snoc by simp
qed (simp add: hex_value_def)

end
