(* ===== verification/Http_Chunked.thy ===== *)
theory Http_Chunked
  imports Http_Syntax
begin

text \<open>
  The decoder of chunked request bodies of the HTTP proxy, \<open>tools/http-proxy/src/chunked.rs\<close>.

  The socket is the list of the answers of its reads: the bytes of a read, or its error; after the last one, and on an
  empty read, the client has closed the connection. \<open>Source\<close> keeps its buffer and position as the code does. What has
  been written to the upstream is part of every answer, also of a failure; the writes themselves succeed (a write that
  fails ends the exchange). Sizes are \<open>u64\<close>: the only sum that could pass \<open>2 ^ 64\<close> is checked.

  \<open>chunked_body\<close> is the grammar of RFC 9112 as far as the decoder admits it, independent of reads and buffers. The
  lemmas relate every function to the stream of bytes that is still to come: a body is accepted exactly when it is in
  the grammar and within the limits, however its bytes are split into reads; what the upstream gets is the canonical
  encoding of the same data; and a body that is refused never reaches the upstream complete.
\<close>

subsection \<open>Source\<close>

datatype chunk_error = Closed | Read_Failed string | Not_Crlf | Line_Too_Long | Bare_Cr | Invalid_Size
  | Invalid_Extension | Malformed_Trailer | Body_Too_Large | No_Crlf_After_Data | Trailers_Too_Large | Pipelined

record source =
  inbound :: "(string + string) list"
  buffered :: string
  buf_position :: nat

definition pending :: "source \<Rightarrow> string" where
  "pending s = drop (buf_position s) (buffered s)"

definition fill :: "source \<Rightarrow> chunk_error + source" where
  "fill s =
     (case inbound s of
        [] \<Rightarrow> Inl Closed
      | Inl e # _ \<Rightarrow> Inl (Read_Failed e)
      | Inr seg # rest \<Rightarrow>
          if seg = [] then Inl Closed
          else Inr \<lparr>inbound = rest, buffered = drop (buf_position s) (buffered s) @ seg, buf_position = 0\<rparr>)"

lemma fill_inbound: "fill s = Inr s' \<Longrightarrow> length (inbound s') < length (inbound s)"
  by (auto simp: fill_def split: list.splits sum.splits if_splits)

function line :: "nat \<Rightarrow> source \<Rightarrow> chunk_error + (string \<times> source)" where
  "line limit s =
     (case position_of LF (pending s) of
        Some e \<Rightarrow>
          if e = 0 \<or> pending s ! (e - 1) \<noteq> CR then Inl Not_Crlf
          else (let l = take (e - 1) (pending s)
                in if length l > limit then Inl Line_Too_Long
                   else if CR \<in> set l then Inl Bare_Cr
                   else Inr (l, s\<lparr>buf_position := buf_position s + e + 1\<rparr>))
      | None \<Rightarrow>
          if length (pending s) > limit + 1 then Inl Line_Too_Long
          else (case fill s of Inl e \<Rightarrow> Inl e | Inr s' \<Rightarrow> line limit s'))"
  by pat_completeness auto
termination by (relation "measure (\<lambda>(limit, s). length (inbound s))") (auto dest: fill_inbound)

declare line.simps [simp del]

lemma fill_pending: "fill s = Inr s' \<Longrightarrow> pending s' \<noteq> []"
  by (auto simp: fill_def pending_def split: list.splits sum.splits if_splits)

function copy_exact :: "source \<Rightarrow> nat \<Rightarrow> string \<Rightarrow> (chunk_error + source) \<times> string" where
  "copy_exact s remaining out =
     (if remaining = 0 then (Inr s, out)
      else (case (if pending s = [] then fill s else Inr s) of
        Inl e \<Rightarrow> (Inl e, out)
      | Inr s1 \<Rightarrow>
          (let taken = min (length (pending s1)) remaining
           in copy_exact (s1\<lparr>buf_position := buf_position s1 + taken\<rparr>) (remaining - taken) (out @ take taken (pending s1)))))"
  by pat_completeness auto
termination
  by (relation "measure (\<lambda>(s, remaining, out). remaining)") (auto dest!: fill_pending split: if_splits)

declare copy_exact.simps [simp del]


subsection \<open>Lines\<close>

definition parse_chunk_size :: "string \<Rightarrow> chunk_error + nat" where
  "parse_chunk_size l =
     (let digits = takeWhile is_hex l; rest = dropWhile is_hex l;
          extension = dropWhile (\<lambda>c. c = CHR '' '' \<or> c = CHR 0x09) rest
      in if digits = [] \<or> length digits > 16 then Inl Invalid_Size
         else if rest \<noteq> [] \<and> ((extension = [] \<or> hd extension \<noteq> CHR '';'') \<or> list_ex bad_value_char extension)
           then Inl Invalid_Extension
         else Inr (hex_value digits))"

definition validate_trailer :: "string \<Rightarrow> chunk_error + unit" where
  "validate_trailer l =
     (if \<not> valid_utf8 l then Inl Malformed_Trailer
      else (case split_once (CHR '':'') l of
        None \<Rightarrow> Inl Malformed_Trailer
      | Some (name, v) \<Rightarrow>
          if \<not> is_http_token name \<or> invalid_header_value v then Inl Malformed_Trailer else Inr ()))"


subsection \<open>The body\<close>

text \<open>The bytes still to be read; every line read takes some of them.\<close>

definition left :: "source \<Rightarrow> nat" where
  "left s = length (pending s) + sum_list (map (\<lambda>r. case r of Inr seg \<Rightarrow> length seg | Inl _ \<Rightarrow> 0) (inbound s))"

lemma fill_left: "fill s = Inr s' \<Longrightarrow> left s' = left s"
  by (auto simp: fill_def left_def pending_def split: list.splits sum.splits if_splits)

lemma line_left: "line limit s = Inr (l, s') \<Longrightarrow> left s' < left s"
proof (induction limit s rule: line.induct)
  case (1 limit s)
  show ?case
  proof (cases "position_of LF (pending s)")
    case None
    then show ?thesis using 1 by (auto simp: line.simps [of limit s] fill_left split: if_splits sum.splits)
  next
    case (Some e)
    then show ?thesis using 1(2) position_of_Some(1) [OF Some]
      by (auto simp: line.simps [of limit s] left_def pending_def Let_def split: if_splits)
  qed
qed

lemma copy_exact_left: "copy_exact s n out = (Inr s', out') \<Longrightarrow> left s' \<le> left s"
proof (induction s n out rule: copy_exact.induct)
  case (1 s n out)
  show ?case
  proof (cases "n = 0")
    case False
    then obtain s1 where s1: "(if pending s = [] then fill s else Inr s) = Inr s1"
      using 1(2) by (auto simp: copy_exact.simps [of s n out] split: sum.splits)
    then have "left s1 = left s" by (auto simp: fill_left split: if_splits)
    define k where "k = min (length (pending s1)) n"
    have "copy_exact (s1\<lparr>buf_position := buf_position s1 + k\<rparr>) (n - k) (out @ take k (pending s1)) = (Inr s', out')"
      using 1(2) False s1 by (simp add: copy_exact.simps [of s n out] k_def Let_def)
    from 1(1) [OF False s1 k_def this] have "left s' \<le> left (s1\<lparr>buf_position := buf_position s1 + k\<rparr>)" .
    also have "\<dots> \<le> left s1" by (simp add: left_def pending_def)
    finally show ?thesis using \<open>left s1 = left s\<close> by simp
  qed (use 1(2) in \<open>simp add: copy_exact.simps [of s 0 out]\<close>)
qed

function chunk_loop :: "nat \<Rightarrow> source \<Rightarrow> nat \<Rightarrow> string \<Rightarrow> (chunk_error + source) \<times> string" where
  "chunk_loop max_body s sofar out =
     (case line MAX_CHUNK_LINE_BYTES s of
        Inl e \<Rightarrow> (Inl e, out)
      | Inr (l, s1) \<Rightarrow>
          (case parse_chunk_size l of
             Inl e \<Rightarrow> (Inl e, out)
           | Inr n \<Rightarrow>
               if n = 0 then (Inr s1, out)
               else if sofar + n \<ge> 2 ^ 64 \<or> sofar + n > max_body then (Inl Body_Too_Large, out)
               else (case copy_exact s1 n (out @ show_hex n @ CRLF) of
                   (Inl e, out2) \<Rightarrow> (Inl e, out2)
                 | (Inr s2, out2) \<Rightarrow>
                     (case line 0 s2 of
                        Inl e \<Rightarrow> (Inl e, out2)
                      | Inr (l2, s3) \<Rightarrow>
                          if l2 \<noteq> [] then (Inl No_Crlf_After_Data, out2)
                          else chunk_loop max_body s3 (sofar + n) (out2 @ CRLF)))))"
  by pat_completeness auto
termination
  by (relation "measure (\<lambda>(max_body, s, sofar, out). left s)") (auto dest!: line_left copy_exact_left [OF sym])

declare chunk_loop.simps [simp del]

function trailer_loop :: "source \<Rightarrow> nat \<Rightarrow> chunk_error + source" where
  "trailer_loop s trailer_bytes =
     (case line MAX_CHUNK_TRAILER_BYTES s of
        Inl e \<Rightarrow> Inl e
      | Inr (l, s1) \<Rightarrow>
          if l = [] then Inr s1
          else if trailer_bytes + length l + 2 > MAX_CHUNK_TRAILER_BYTES then Inl Trailers_Too_Large
          else (case validate_trailer l of
              Inl e \<Rightarrow> Inl e
            | Inr _ \<Rightarrow> trailer_loop s1 (trailer_bytes + length l + 2)))"
  by pat_completeness auto
termination
  by (relation "measure (\<lambda>(s, trailer_bytes). left s)") (auto dest!: line_left)

declare trailer_loop.simps [simp del]

definition forward_chunked_body
  :: "(string + string) list \<Rightarrow> string \<Rightarrow> nat \<Rightarrow> (chunk_error + (string + string) list) \<times> string" where
  "forward_chunked_body reads initial max_body =
     (case chunk_loop max_body \<lparr>inbound = reads, buffered = initial, buf_position = 0\<rparr> 0 [] of
        (Inl e, out) \<Rightarrow> (Inl e, out)
      | (Inr s, out) \<Rightarrow>
          (case trailer_loop s 0 of
             Inl e \<Rightarrow> (Inl e, out)
           | Inr s' \<Rightarrow>
               if pending s' \<noteq> [] then (Inl Pipelined, out)
               else (Inr (inbound s'), out @ ''0'' @ CRLF @ CRLF)))"


subsection \<open>The grammar\<close>

definition chunk_line :: "string \<Rightarrow> nat \<Rightarrow> bool" where
  "chunk_line l n \<longleftrightarrow> length l \<le> MAX_CHUNK_LINE_BYTES \<and> CR \<notin> set l \<and> LF \<notin> set l \<and>
     (\<exists>digits ext. l = digits @ ext \<and> digits \<noteq> [] \<and> length digits \<le> 16 \<and> list_all is_hex digits \<and> n = hex_value digits
       \<and> (ext = [] \<or> (\<exists>blank e. ext = blank @ CHR '';'' # e \<and> set blank \<subseteq> {CHR '' '', CHR 0x09} \<and> \<not> list_ex bad_value_char e)))"

definition trailer_line :: "string \<Rightarrow> bool" where
  "trailer_line l \<longleftrightarrow> CR \<notin> set l \<and> LF \<notin> set l \<and> valid_utf8 l
     \<and> (\<exists>name v. l = name @ CHR '':'' # v \<and> is_http_token name \<and> \<not> invalid_header_value v)"

text \<open>The chunks of data up to the line of the last chunk.\<close>

inductive chunked_data :: "string list \<Rightarrow> string \<Rightarrow> bool" where
  last_chunk: "chunk_line l 0 \<Longrightarrow> chunked_data [] (l @ CRLF)"
| chunk: "chunk_line l (length d) \<Longrightarrow> d \<noteq> [] \<Longrightarrow> chunked_data ds t \<Longrightarrow> chunked_data (d # ds) (l @ CRLF @ d @ CRLF @ t)"

definition chunked_body :: "string list \<Rightarrow> string \<Rightarrow> bool" where
  "chunked_body ds t \<longleftrightarrow> (\<exists>a ls. t = a @ concat (map (\<lambda>l. l @ CRLF) ls) @ CRLF \<and> chunked_data ds a
     \<and> list_all trailer_line ls \<and> sum_list (map (\<lambda>l. length l + 2) ls) \<le> MAX_CHUNK_TRAILER_BYTES)"

definition chunk_text :: "string \<Rightarrow> string" where
  "chunk_text d = show_hex (length d) @ CRLF @ d @ CRLF"

definition canonical_body :: "string list \<Rightarrow> string" where
  "canonical_body ds = concat (map chunk_text ds) @ ''0'' @ CRLF @ CRLF"

definition data_length :: "string list \<Rightarrow> nat" where
  "data_length ds = sum_list (map length ds)"


subsection \<open>Reading the stream\<close>

text \<open>\<open>consumes s c s'\<close>: between the two states exactly the bytes \<open>c\<close> were taken.\<close>

definition consumes :: "source \<Rightarrow> string \<Rightarrow> source \<Rightarrow> bool" where
  "consumes s c s' \<longleftrightarrow> (\<exists>used. inbound s = map Inr used @ inbound s' \<and> [] \<notin> set used \<and> pending s @ concat used = c @ pending s')"

definition offers :: "source \<Rightarrow> string \<Rightarrow> bool" where
  "offers s t \<longleftrightarrow> (\<exists>segs. inbound s = map Inr segs \<and> [] \<notin> set segs \<and> pending s @ concat segs = t)"

definition more_reads :: "(string + string) list \<Rightarrow> source \<Rightarrow> source" where
  "more_reads m s = s\<lparr>inbound := inbound s @ m\<rparr>"

lemma more_reads_simps [simp]: "pending (more_reads m s) = pending s" "inbound (more_reads m s) = inbound s @ m"
  "buf_position (more_reads m s) = buf_position s"
  "(more_reads m s)\<lparr>buf_position := k\<rparr> = more_reads m (s\<lparr>buf_position := k\<rparr>)"
  by (simp_all add: more_reads_def pending_def)

lemma consumes_refl [simp]: "consumes s [] s"
  unfolding consumes_def by (rule exI [of _ "[]"]) simp

lemma consumes_trans [trans]:
  assumes "consumes s c s1" "consumes s1 d s2"
  shows "consumes s (c @ d) s2"
proof -
  obtain u where u: "inbound s = map Inr u @ inbound s1" "[] \<notin> set u" "pending s @ concat u = c @ pending s1"
    using assms(1) unfolding consumes_def by blast
  obtain v where v: "inbound s1 = map Inr v @ inbound s2" "[] \<notin> set v" "pending s1 @ concat v = d @ pending s2"
    using assms(2) unfolding consumes_def by blast
  have "pending s @ concat (u @ v) = (pending s @ concat u) @ concat v" by simp
  also have "\<dots> = (c @ d) @ pending s2" unfolding u(3) using v(3) by simp
  finally show ?thesis using u v unfolding consumes_def by (intro exI [of _ "u @ v"]) simp
qed

lemma pending_skip [simp]: "pending (s\<lparr>buf_position := buf_position s + k\<rparr>) = drop k (pending s)"
  by (simp add: pending_def add.commute)

lemma consumes_pending: "pending s = c @ r \<Longrightarrow> consumes s c (s\<lparr>buf_position := buf_position s + length c\<rparr>)"
  unfolding consumes_def by (intro exI [of _ "[]"]) simp

lemma fill_consumes: "fill s = Inr s' \<Longrightarrow> consumes s [] s'"
  unfolding consumes_def
  by (auto simp: fill_def pending_def split: list.splits sum.splits if_splits intro!: exI [of _ "[_]"])

lemma fill_offers:
  assumes "offers s t" "length (pending s) < length t"
  obtains s' where "fill s = Inr s'" "offers s' t"
proof -
  obtain segs where segs: "inbound s = map Inr segs" "[] \<notin> set segs" "pending s @ concat segs = t"
    using assms(1) unfolding offers_def by blast
  then obtain x xs where x: "segs = x # xs" using assms(2) by (cases segs) auto
  let ?s = "\<lparr>inbound = map Inr xs, buffered = pending s @ x, buf_position = 0\<rparr>"
  have "fill s = Inr ?s" using segs(1,2) x by (auto simp: fill_def pending_def)
  moreover have "offers ?s t" unfolding offers_def using segs(2,3) x by (intro exI [of _ xs]) (simp add: pending_def)
  ultimately show thesis by (rule that)
qed

lemma fill_more: "fill s = Inr s' \<Longrightarrow> fill (more_reads m s) = Inr (more_reads m s')"
  by (auto simp: fill_def more_reads_def split: list.splits sum.splits if_splits)

lemma offers_pending: "offers s (c @ t) \<Longrightarrow> pending s = c @ r \<Longrightarrow> offers (s\<lparr>buf_position := buf_position s + length c\<rparr>) t"
  by (auto simp: offers_def)

subsection \<open>Lines\<close>

text \<open>One unfolding of \<open>line\<close>: a line in the buffer, or another read.\<close>

lemma line_buffered:
  assumes "position_of LF (pending s) = Some e" "line limit s = Inr (l, s')"
  shows "pending s = (l @ CRLF) @ pending s'" "s' = s\<lparr>buf_position := buf_position s + length (l @ CRLF)\<rparr>"
    "CR \<notin> set l" "LF \<notin> set l" "length l \<le> limit"
proof -
  note p = position_of_Some [OF assms(1)]
  have h: "e \<noteq> 0" "pending s ! (e - 1) = CR" "l = take (e - 1) (pending s)" "length l \<le> limit" "CR \<notin> set l"
      "s' = s\<lparr>buf_position := buf_position s + e + 1\<rparr>"
    using assms by (auto simp: line.simps [of limit s] Let_def split: if_splits)
  have "take e (pending s) = l @ [CR]"
    using h(1-3) p(1) take_Suc_conv_app_nth [of "e - 1" "pending s"] by simp
  moreover have "s' = s\<lparr>buf_position := buf_position s + (e + 1)\<rparr>" using h(6) by (simp add: add.assoc)
  then have "pending s' = drop (e + 1) (pending s)" by (simp only: pending_skip)
  ultimately show t: "pending s = (l @ CRLF) @ pending s'" using p(4) by (simp add: CRLF_def)
  have "length (l @ CRLF) = e + 1" using h(1,3) p(1) by simp
  then show "s' = s\<lparr>buf_position := buf_position s + length (l @ CRLF)\<rparr>" using h(6) by (simp add: add.assoc)
  show "CR \<notin> set l" "length l \<le> limit" by (rule h)+
  show "LF \<notin> set l" using p(3) \<open>take e (pending s) = l @ [CR]\<close> by simp
qed

lemma line_consumes:
  "line limit s = Inr (l, s') \<Longrightarrow> consumes s (l @ CRLF) s' \<and> CR \<notin> set l \<and> LF \<notin> set l \<and> length l \<le> limit"
proof (induction limit s rule: line.induct)
  case (1 limit s)
  show ?case
  proof (cases "position_of LF (pending s)")
    case None
    then obtain s1 where s1: "\<not> length (pending s) > limit + 1" "fill s = Inr s1" "line limit s1 = Inr (l, s')"
      using 1(2) by (auto simp: line.simps [of limit s] split: if_splits sum.splits)
    from 1(1) [OF None s1] consumes_trans [OF fill_consumes [OF s1(2)]] show ?thesis by auto
  next
    case (Some e)
    from line_buffered [OF this 1(2)] consumes_pending show ?thesis by metis
  qed
qed

lemma line_more: "line limit s = Inr (l, s') \<Longrightarrow> line limit (more_reads m s) = Inr (l, more_reads m s')"
proof (induction limit s rule: line.induct)
  case (1 limit s)
  show ?case
  proof (cases "position_of LF (pending s)")
    case None
    then obtain s1 where s1: "\<not> length (pending s) > limit + 1" "fill s = Inr s1" "line limit s1 = Inr (l, s')"
      using 1(2) by (auto simp: line.simps [of limit s] split: if_splits sum.splits)
    from 1(1) [OF None s1] fill_more [OF s1(2), of m] None s1(1) show ?thesis
      by (simp add: line.simps [of limit "more_reads m s"])
  next
    case (Some e)
    then show ?thesis using 1(2)
      by (auto simp: line.simps [of limit "more_reads m s"] line.simps [of limit s] Let_def split: if_splits)
  qed
qed

text \<open>The first line feed of a stream that starts with a line ends that line.\<close>

lemma first_line:
  assumes "p @ q = l @ CRLF @ r" "LF \<notin> set l"
  shows "position_of LF p = Some e \<Longrightarrow> e = length l + 1 \<and> take e p = l @ [CR]"
    and "position_of LF p = None \<Longrightarrow> length p \<le> length l + 1"
proof -
  have pq: "position_of LF (p @ q) = Some (length l + 1)"
    using assms position_of_append [of LF "l @ [CR]" r] by (simp add: CRLF_def)
  {
    assume e: "position_of LF p = Some e"
    note pe = position_of_Some [OF e]
    have "p @ q = take e p @ LF # (drop (e + 1) p @ q)" using arg_cong [OF pe(4), of "\<lambda>x. x @ q"] by simp
    then have "position_of LF (p @ q) = Some (length (take e p))" using position_of_append [OF pe(3)] by metis
    then have el: "e = length l + 1" using pq pe(1) by simp
    then have "take e p = take (length l + 1) (p @ q)" using pe(1) by simp
    also have "\<dots> = l @ [CR]" unfolding assms(1) by (simp add: CRLF_def)
    finally show "e = length l + 1 \<and> take e p = l @ [CR]" using el by simp
  next
    assume n: "position_of LF p = None"
    show "length p \<le> length l + 1"
    proof (rule ccontr)
      assume "\<not> length p \<le> length l + 1"
      then have "p ! (length l + 1) = (p @ q) ! (length l + 1)" "length l + 1 < length p" by (simp_all add: nth_append)
      moreover have "(p @ q) ! (length l + 1) = LF" unfolding assms(1) by (simp add: nth_append CRLF_def)
      ultimately have "LF \<in> set p" by (metis nth_mem)
      then show False using n by (simp add: position_of_None)
    qed
  }
qed

lemma line_offers:
  assumes "offers s (l @ CRLF @ r)" "CR \<notin> set l" "LF \<notin> set l" "length l \<le> limit"
  shows "\<exists>s'. line limit s = Inr (l, s') \<and> offers s' r"
  using assms
proof (induction limit s rule: line.induct)
  case (1 limit s)
  obtain segs where segs: "pending s @ concat segs = l @ CRLF @ r" using 1(2) unfolding offers_def by blast
  show ?case
  proof (cases "position_of LF (pending s)")
    case None
    have len: "length (pending s) \<le> length l + 1" by (rule first_line(2) [OF segs 1(4) None])
    then have "length (pending s) < length (l @ CRLF @ r)" by simp
    from fill_offers [OF 1(2) this] obtain s1 where s1: "fill s = Inr s1" "offers s1 (l @ CRLF @ r)" by blast
    have lim: "\<not> length (pending s) > limit + 1" using len 1(5) by simp
    from 1(1) [OF None lim s1(1,2) 1(3-5)] show ?thesis using None lim s1(1) by (simp add: line.simps [of limit s])
  next
    case (Some e)
    note e = conjunct1 [OF first_line(1) [OF segs 1(4) Some]] conjunct2 [OF first_line(1) [OF segs 1(4) Some]]
    have p: "pending s = (l @ CRLF) @ drop (e + 1) (pending s)"
      using position_of_Some(4) [OF Some] e(2) by (simp add: CRLF_def)
    have cr: "pending s ! (e - 1) = CR" "take (e - 1) (pending s) = l"
      using e(1) by (subst p, simp add: nth_append CRLF_def)+
    have "line limit s = Inr (l, s\<lparr>buf_position := buf_position s + length (l @ CRLF)\<rparr>)"
      using Some cr e(1) 1(3,5) by (simp add: line.simps [of limit s] Let_def add.assoc)
    moreover have "offers (s\<lparr>buf_position := buf_position s + length (l @ CRLF)\<rparr>) r"
      by (rule offers_pending [OF _ p]) (use 1(2) in simp)
    ultimately show ?thesis by blast
  qed
qed


subsection \<open>Data\<close>

text \<open>One unfolding of \<open>copy_exact\<close>.\<close>

lemma copy_exact_0 [simp]: "copy_exact s 0 out = (Inr s, out)"
  by (simp add: copy_exact.simps [of s 0 out])

lemma copy_exact_step:
  assumes "n \<noteq> 0" "(if pending s = [] then fill s else Inr s) = Inr s1" "k = min (length (pending s1)) n"
  shows "copy_exact s n out = copy_exact (s1\<lparr>buf_position := buf_position s1 + k\<rparr>) (n - k) (out @ take k (pending s1))"
  using assms by (simp add: copy_exact.simps [of s n out] Let_def)

lemma copy_exact_start:
  assumes "(if pending s = [] then fill s else Inr s) = Inr s1"
  shows "consumes s [] s1" "consumes s (take k (pending s1)) (s1\<lparr>buf_position := buf_position s1 + length (take k (pending s1))\<rparr>)"
proof -
  show c: "consumes s [] s1" using assms fill_consumes by (auto split: if_splits)
  have "pending s1 = take k (pending s1) @ drop k (pending s1)" by simp
  from consumes_trans [OF c consumes_pending [OF this]]
  show "consumes s (take k (pending s1)) (s1\<lparr>buf_position := buf_position s1 + length (take k (pending s1))\<rparr>)" by simp
qed

lemma copy_exact_consumes:
  "copy_exact s n out = (Inr s', out') \<Longrightarrow> \<exists>d. out' = out @ d \<and> length d = n \<and> consumes s d s'"
proof (induction s n out rule: copy_exact.induct)
  case (1 s n out)
  show ?case
  proof (cases "n = 0")
    case True
    then show ?thesis using 1(2) by simp
  next
    case False
    then obtain s1 where s1: "(if pending s = [] then fill s else Inr s) = Inr s1"
      using 1(2) by (auto simp: copy_exact.simps [of s n out] split: sum.splits)
    define k where "k = min (length (pending s1)) n"
    have "copy_exact (s1\<lparr>buf_position := buf_position s1 + k\<rparr>) (n - k) (out @ take k (pending s1)) = (Inr s', out')"
      using 1(2) copy_exact_step [OF False s1 k_def] by simp
    from 1(1) [OF False s1 k_def this] obtain d where d: "out' = (out @ take k (pending s1)) @ d" "length d = n - k"
      "consumes (s1\<lparr>buf_position := buf_position s1 + k\<rparr>) d s'" by blast
    have k: "length (take k (pending s1)) = k" by (simp add: k_def)
    from consumes_trans [OF copy_exact_start(2) [OF s1, of k]] d k
    have "consumes s (take k (pending s1) @ d) s'" by simp
    then show ?thesis using d(1,2) k by (intro exI [of _ "take k (pending s1) @ d"]) (simp add: k_def)
  qed
qed

lemma copy_exact_fails:
  "copy_exact s n out = (Inl e, out') \<Longrightarrow> \<exists>d. out' = out @ d \<and> length d < n"
proof (induction s n out rule: copy_exact.induct)
  case (1 s n out)
  have n: "n \<noteq> 0" using 1(2) by (intro notI) simp
  show ?case
  proof (cases "if pending s = [] then fill s else Inr s")
    case (Inl e')
    then show ?thesis using 1(2) n by (auto simp: copy_exact.simps [of s n out])
  next
    case (Inr s1)
    define k where "k = min (length (pending s1)) n"
    have "copy_exact (s1\<lparr>buf_position := buf_position s1 + k\<rparr>) (n - k) (out @ take k (pending s1)) = (Inl e, out')"
      using 1(2) copy_exact_step [OF n Inr k_def] by simp
    from 1(1) [OF n Inr k_def this] obtain d where "out' = (out @ take k (pending s1)) @ d" "length d < n - k" by blast
    then show ?thesis by (intro exI [of _ "take k (pending s1) @ d"]) (simp add: k_def)
  qed
qed

lemma copy_exact_more:
  "copy_exact s n out = (Inr s', out') \<Longrightarrow> copy_exact (more_reads m s) n out = (Inr (more_reads m s'), out')"
proof (induction s n out rule: copy_exact.induct)
  case (1 s n out)
  show ?case
  proof (cases "n = 0")
    case True
    then show ?thesis using 1(2) by simp
  next
    case False
    then obtain s1 where s1: "(if pending s = [] then fill s else Inr s) = Inr s1"
      using 1(2) by (auto simp: copy_exact.simps [of s n out] split: sum.splits)
    define k where "k = min (length (pending s1)) n"
    have c: "copy_exact (s1\<lparr>buf_position := buf_position s1 + k\<rparr>) (n - k) (out @ take k (pending s1)) = (Inr s', out')"
      using 1(2) copy_exact_step [OF False s1 k_def] by simp
    have m1: "(if pending (more_reads m s) = [] then fill (more_reads m s) else Inr (more_reads m s)) = Inr (more_reads m s1)"
      using s1 fill_more [of s s1 m] by (auto split: if_splits)
    from copy_exact_step [OF False m1, of k out] 1(1) [OF False s1 k_def c] show ?thesis by (simp add: k_def)
  qed
qed

lemma copy_exact_offers:
  "offers s (d @ r) \<Longrightarrow> length d = n \<Longrightarrow> \<exists>s'. copy_exact s n out = (Inr s', out @ d) \<and> offers s' r"
proof (induction s n out arbitrary: d rule: copy_exact.induct)
  case (1 s n out)
  show ?case
  proof (cases "n = 0")
    case True
    then show ?thesis using 1(2,3) by simp
  next
    case False
    obtain s1 where s1: "(if pending s = [] then fill s else Inr s) = Inr s1" "offers s1 (d @ r)"
    proof (cases "pending s = []")
      case True
      then show thesis using fill_offers [OF 1(2)] 1(3) False that by auto
    next
      case False
      then show thesis using that [of s] 1(2) by simp
    qed
    define k where "k = min (length (pending s1)) n"
    have k: "length (take k (pending s1)) = k" by (simp add: k_def)
    obtain segs where "pending s1 @ concat segs = d @ r" using s1(2) unfolding offers_def by blast
    then have "take k (d @ r) = take k (pending s1)" by (metis k length_take min.cobounded2 min_def take_append append_Nil2 diff_is_0_eq take_eq_Nil nat_le_linear)
    then have d: "d = take k (pending s1) @ drop k d" using 1(3) by (metis append_take_drop_id k_def min.cobounded2 take_append diff_is_0_eq take_0 append_Nil2)
    have "offers s1 (take k (pending s1) @ drop k d @ r)" using s1(2) d by (metis append.assoc)
    then have "offers (s1\<lparr>buf_position := buf_position s1 + length (take k (pending s1))\<rparr>) (drop k d @ r)"
      by (rule offers_pending [of _ _ _ "drop k (pending s1)"]) simp
    then have o: "offers (s1\<lparr>buf_position := buf_position s1 + k\<rparr>) (drop k d @ r)" using k by simp
    have "length (drop k d) = n - k" using 1(3) by simp
    from 1(1) [OF False s1(1) k_def o this] obtain s' where
      "copy_exact (s1\<lparr>buf_position := buf_position s1 + k\<rparr>) (n - k) (out @ take k (pending s1)) = (Inr s', (out @ take k (pending s1)) @ drop k d)"
      "offers s' r" by blast
    then show ?thesis using copy_exact_step [OF False s1(1) k_def, of out] d by (metis append.assoc)
  qed
qed

subsection \<open>Chunk sizes and trailers are those of the grammar\<close>

abbreviation blank_char :: "char \<Rightarrow> bool" where
  "blank_char c \<equiv> c = CHR '' '' \<or> c = CHR 0x09"

lemma size_line_chars: "\<not> is_hex (CHR '' '')" "\<not> is_hex (CHR 0x09)" "\<not> is_hex (CHR '';'')" "\<not> bad_value_char (CHR '';'')"
  by (simp_all add: char_class_defs bad_value_char_def)

lemma extension_split:
  assumes "set blank \<subseteq> {CHR '' '', CHR 0x09}"
  shows "dropWhile blank_char (blank @ CHR '';'' # e) = CHR '';'' # e"
  using assms by (induction blank) auto

lemma digits_split:
  assumes "list_all is_hex digits" "ext = [] \<or> \<not> is_hex (hd ext)"
  shows "takeWhile is_hex (digits @ ext) = digits" "dropWhile is_hex (digits @ ext) = ext"
  using assms by (induction digits; cases ext; simp)+

lemma parse_chunk_size_sound:
  assumes "parse_chunk_size l = Inr n" "length l \<le> MAX_CHUNK_LINE_BYTES" "CR \<notin> set l" "LF \<notin> set l"
  shows "chunk_line l n"
proof -
  define digits rest ext where "digits = takeWhile is_hex l" and "rest = dropWhile is_hex l" and "ext = dropWhile blank_char rest"
  have h: "digits \<noteq> []" "length digits \<le> 16" "n = hex_value digits"
      "rest = [] \<or> (ext \<noteq> [] \<and> hd ext = CHR '';'' \<and> \<not> list_ex bad_value_char ext)"
    using assms(1) unfolding parse_chunk_size_def Let_def digits_def rest_def ext_def by (auto split: if_splits)
  have l: "l = digits @ rest" "list_all is_hex digits" by (auto simp: digits_def rest_def list_all_iff dest: set_takeWhileD)
  have "rest = [] \<or> (\<exists>blank e. rest = blank @ CHR '';'' # e \<and> set blank \<subseteq> {CHR '' '', CHR 0x09} \<and> \<not> list_ex bad_value_char e)"
  proof (cases "rest = []")
    case False
    with h(4) obtain e where e: "ext = CHR '';'' # e" "\<not> list_ex bad_value_char e" by (cases ext) auto
    have "rest = takeWhile blank_char rest @ CHR '';'' # e" using e(1) unfolding ext_def by (metis takeWhile_dropWhile_id)
    moreover have "set (takeWhile blank_char rest) \<subseteq> {CHR '' '', CHR 0x09}" by (auto dest: set_takeWhileD)
    ultimately show ?thesis using e(2) by blast
  qed simp
  then show ?thesis using assms(2-4) h(1-3) l unfolding chunk_line_def by blast
qed

lemma parse_chunk_size_complete:
  assumes "chunk_line l n"
  shows "parse_chunk_size l = Inr n"
proof -
  obtain digits ext where d: "l = digits @ ext" "digits \<noteq> []" "length digits \<le> 16" "list_all is_hex digits" "n = hex_value digits"
    "ext = [] \<or> (\<exists>blank e. ext = blank @ CHR '';'' # e \<and> set blank \<subseteq> {CHR '' '', CHR 0x09} \<and> \<not> list_ex bad_value_char e)"
    using assms unfolding chunk_line_def by blast
  have first: "\<not> is_hex (hd (blank @ CHR '';'' # e))" if "set blank \<subseteq> {CHR '' '', CHR 0x09}" for blank e
    using that size_line_chars by (cases blank) auto
  have "ext = [] \<or> \<not> is_hex (hd ext)" using d(6) first by blast
  note split = digits_split [OF d(4) this]
  have "ext = [] \<or> (dropWhile blank_char ext \<noteq> [] \<and> hd (dropWhile blank_char ext) = CHR '';''
      \<and> \<not> list_ex bad_value_char (dropWhile blank_char ext))"
  proof (cases "ext = []")
    case False
    then obtain blank e where "ext = blank @ CHR '';'' # e" "set blank \<subseteq> {CHR '' '', CHR 0x09}" "\<not> list_ex bad_value_char e"
      using d(6) by blast
    then show ?thesis using extension_split [of blank e] size_line_chars(4) by simp
  qed simp
  then show ?thesis unfolding parse_chunk_size_def Let_def d(1) split using d(2,3,5) by auto
qed

lemma chunk_line_unique: "chunk_line l n \<Longrightarrow> chunk_line l n' \<Longrightarrow> n = n'"
  using parse_chunk_size_complete [of l n] parse_chunk_size_complete [of l n'] by simp

lemma chunk_line_plain: "chunk_line l n \<Longrightarrow> length l \<le> MAX_CHUNK_LINE_BYTES \<and> CR \<notin> set l \<and> LF \<notin> set l"
  by (simp add: chunk_line_def)

lemma show_hex_line:
  assumes "n < 2 ^ 64"
  shows "chunk_line (show_hex n) n"
proof -
  have len: "length (show_hex n) \<le> 16" by (rule show_hex_length) (use assms in simp_all)
  note c = show_hex_chars [of n]
  have "CR \<notin> set (show_hex n) \<and> LF \<notin> set (show_hex n)" using c hex_not_control by (auto simp: list_all_iff)
  then show ?thesis unfolding chunk_line_def
    using len c show_hex_value [of n] by (intro conjI exI [of _ "show_hex n"] exI [of _ "[]"]) (simp_all add: MAX_CHUNK_LINE_BYTES_def)
qed

lemma validate_trailer_iff:
  assumes "CR \<notin> set l" "LF \<notin> set l"
  shows "validate_trailer l = Inr () \<longleftrightarrow> trailer_line l"
proof -
  have colon: "CHR '':'' \<notin> set name" if "is_http_token name" for name
    using that by (auto simp: is_http_token_def token_char_def char_class_defs list_all_iff)
  show ?thesis
  proof
    assume "validate_trailer l = Inr ()"
    then show "trailer_line l" using assms
      by (auto simp: validate_trailer_def trailer_line_def split_once_Some split: option.splits if_splits) blast
  next
    assume t: "trailer_line l"
    then obtain name v where nv: "l = name @ CHR '':'' # v" "is_http_token name" "\<not> invalid_header_value v"
      unfolding trailer_line_def by blast
    then have "split_once (CHR '':'') l = Some (name, v)" using colon by (simp add: split_once_Some)
    then show "validate_trailer l = Inr ()" using t nv(2,3) by (simp add: validate_trailer_def trailer_line_def)
  qed
qed


subsection \<open>The loops follow the grammar\<close>

lemma chunk_loop_last:
  "line MAX_CHUNK_LINE_BYTES s = Inr (l, s1) \<Longrightarrow> parse_chunk_size l = Inr 0 \<Longrightarrow> chunk_loop max_body s sofar out = (Inr s1, out)"
  by (simp add: chunk_loop.simps [of max_body s])

lemma chunk_loop_chunk:
  assumes "line MAX_CHUNK_LINE_BYTES s = Inr (l, s1)" "parse_chunk_size l = Inr n" "n \<noteq> 0" "sofar + n < 2 ^ 64"
    "sofar + n \<le> max_body" "copy_exact s1 n (out @ show_hex n @ CRLF) = (Inr s2, out2)" "line 0 s2 = Inr ([], s3)"
  shows "chunk_loop max_body s sofar out = chunk_loop max_body s3 (sofar + n) (out2 @ CRLF)"
  using assms by (simp add: chunk_loop.simps [of max_body s])

lemma chunk_loop_cases:
  assumes r: "chunk_loop max_body s sofar out = (Inr s', out')"
  obtains (last) l where "line MAX_CHUNK_LINE_BYTES s = Inr (l, s')" "parse_chunk_size l = Inr 0" "out' = out"
  | (chunk) l s1 n s2 out2 s3 where "line MAX_CHUNK_LINE_BYTES s = Inr (l, s1)" "parse_chunk_size l = Inr n" "n \<noteq> 0"
      "sofar + n < 2 ^ 64" "sofar + n \<le> max_body" "copy_exact s1 n (out @ show_hex n @ CRLF) = (Inr s2, out2)"
      "line 0 s2 = Inr ([], s3)" "chunk_loop max_body s3 (sofar + n) (out2 @ CRLF) = (Inr s', out')"
proof -
  note r = r [unfolded chunk_loop.simps [of max_body s sofar out]]
  obtain l s1 where l: "line MAX_CHUNK_LINE_BYTES s = Inr (l, s1)" using r by (cases "line MAX_CHUNK_LINE_BYTES s") auto
  obtain n where n: "parse_chunk_size l = Inr n" using r l by (cases "parse_chunk_size l") auto
  show thesis
  proof (cases "n = 0")
    case True
    then show thesis using r l n by (intro last [of l]) simp_all
  next
    case False
    have lim: "\<not> (sofar + n \<ge> 2 ^ 64 \<or> sofar + n > max_body)"
    proof
      assume "sofar + n \<ge> 2 ^ 64 \<or> sofar + n > max_body"
      with r l n False show False by simp
    qed
    note r = r [unfolded l n sum.case prod.case if_not_P [OF False] if_not_P [OF lim]]
    obtain s2 out2 where c: "copy_exact s1 n (out @ show_hex n @ CRLF) = (Inr s2, out2)"
      using r by (cases "copy_exact s1 n (out @ show_hex n @ CRLF)") (auto split: sum.splits)
    note r = r [unfolded c sum.case prod.case]
    obtain l2 s3 where l2: "line 0 s2 = Inr (l2, s3)" using r by (cases "line 0 s2") auto
    have "l2 = []" using line_consumes [OF l2] by simp
    with r l2 have "chunk_loop max_body s3 (sofar + n) (out2 @ CRLF) = (Inr s', out')" by simp
    then show thesis using l n False lim c l2 \<open>l2 = []\<close> by (intro chunk [of l s1 n s2 out2 s3]) auto
  qed
qed

lemma chunk_step_left:
  assumes "line MAX_CHUNK_LINE_BYTES s = Inr (l, s1)" "copy_exact s1 n out = (Inr s2, out2)" "line 0 s2 = Inr (l2, s3)"
  shows "left s3 < left s"
  using line_left [OF assms(1)] copy_exact_left [OF assms(2)] line_left [OF assms(3)] by simp

lemma chunk_loop_consumes:
  assumes "chunk_loop max_body s sofar out = (Inr s', out')" "sofar \<le> max_body"
  shows "\<exists>ds a. consumes s a s' \<and> chunked_data ds a \<and> out' = out @ concat (map chunk_text ds) \<and> sofar + data_length ds \<le> max_body"
  using assms
proof (induction "left s" arbitrary: s sofar out rule: less_induct)
  case less
  from less.prems(1) show ?case
  proof (cases rule: chunk_loop_cases)
    case (last l)
    with line_consumes [OF last(1)] parse_chunk_size_sound [OF last(2)]
    have "consumes s (l @ CRLF) s'" "chunk_line l 0" by auto
    then show ?thesis using last(3) less.prems(2)
      by (intro exI [of _ "[]"] exI [of _ "l @ CRLF"]) (auto simp: data_length_def intro: last_chunk)
  next
    case (chunk l s1 n s2 out2 s3)
    from line_consumes [OF chunk(1)] parse_chunk_size_sound [OF chunk(2)]
    have c1: "consumes s (l @ CRLF) s1" "chunk_line l n" by auto
    obtain d where d: "out2 = (out @ show_hex n @ CRLF) @ d" "length d = n" "consumes s1 d s2"
      using copy_exact_consumes [OF chunk(6)] by blast
    have c3: "consumes s2 CRLF s3" using line_consumes [OF chunk(7)] by simp
    obtain ds a where ds: "consumes s3 a s'" "chunked_data ds a"
      "out' = (out2 @ CRLF) @ concat (map chunk_text ds)" "sofar + n + data_length ds \<le> max_body"
      using less.hyps [OF chunk_step_left [OF chunk(1,6,7)] chunk(8,5)] by blast
    have "consumes s ((((l @ CRLF) @ d) @ CRLF) @ a) s'"
      using consumes_trans [OF consumes_trans [OF consumes_trans [OF c1(1) d(3)] c3] ds(1)] .
    moreover have "chunked_data (d # ds) (l @ CRLF @ d @ CRLF @ a)" using c1(2) d(2) chunk(3) ds(2) by (intro chunked_data.chunk) auto
    moreover have "out' = out @ concat (map chunk_text (d # ds))" using ds(3) d(1,2) by (simp add: chunk_text_def)
    ultimately show ?thesis using ds(4) d(2)
      by (intro exI [of _ "d # ds"] exI [of _ "l @ CRLF @ d @ CRLF @ a"]) (simp add: data_length_def)
  qed
qed

lemma chunk_loop_offers:
  assumes "chunked_data ds a" "offers s (a @ r)" "sofar + data_length ds \<le> max_body" "max_body < 2 ^ 64"
  shows "\<exists>s'. chunk_loop max_body s sofar out = (Inr s', out @ concat (map chunk_text ds)) \<and> offers s' r"
  using assms
proof (induction arbitrary: s sofar out rule: chunked_data.induct)
  case (last_chunk l)
  then obtain s1 where "line MAX_CHUNK_LINE_BYTES s = Inr (l, s1)" "offers s1 r"
    using line_offers [of s l r MAX_CHUNK_LINE_BYTES] chunk_line_plain by auto
  then show ?case using chunk_loop_last parse_chunk_size_complete [OF last_chunk(1)] by fastforce
next
  case (chunk l d ds t)
  define mid where "mid = out @ show_hex (length d) @ CRLF"
  have "offers s (l @ CRLF @ (d @ CRLF @ t @ r))" using chunk.prems(1) by simp
  then obtain s1 where s1: "line MAX_CHUNK_LINE_BYTES s = Inr (l, s1)" "offers s1 (d @ CRLF @ t @ r)"
    using line_offers chunk_line_plain [OF chunk(1)] by blast
  obtain s2 where s2: "copy_exact s1 (length d) mid = (Inr s2, mid @ d)" "offers s2 (CRLF @ t @ r)"
    using copy_exact_offers [OF s1(2) refl] by blast
  obtain s3 where s3: "line 0 s2 = Inr ([], s3)" "offers s3 (t @ r)"
    using line_offers [of s2 "[]" "t @ r" 0] s2(2) by auto
  have len: "sofar + length d + data_length ds \<le> max_body" using chunk.prems(2) by (simp add: data_length_def)
  obtain s' where s': "chunk_loop max_body s3 (sofar + length d) ((mid @ d) @ CRLF)
      = (Inr s', ((mid @ d) @ CRLF) @ concat (map chunk_text ds))" "offers s' r"
    using chunk.IH [OF s3(2) len chunk.prems(3)] by blast
  have "chunk_loop max_body s sofar out = chunk_loop max_body s3 (sofar + length d) ((mid @ d) @ CRLF)"
    by (rule chunk_loop_chunk [OF s1(1) parse_chunk_size_complete [OF chunk(1)] _ _ _ s2(1) [unfolded mid_def] s3(1), folded mid_def])
       (use chunk(2) len chunk.prems(3) in simp_all)
  moreover have "out @ concat (map chunk_text (d # ds)) = ((mid @ d) @ CRLF) @ concat (map chunk_text ds)"
    by (simp add: mid_def chunk_text_def [of d])
  ultimately show ?case using s' by metis
qed

lemma chunk_loop_more:
  assumes "chunk_loop max_body s sofar out = (Inr s', out')"
  shows "chunk_loop max_body (more_reads m s) sofar out = (Inr (more_reads m s'), out')"
  using assms
proof (induction "left s" arbitrary: s sofar out rule: less_induct)
  case less
  from less.prems(1) show ?case
  proof (cases rule: chunk_loop_cases)
    case (last l)
    then show ?thesis using chunk_loop_last [OF line_more [OF last(1)]] by simp
  next
    case (chunk l s1 n s2 out2 s3)
    from chunk_loop_chunk [OF line_more [OF chunk(1)] chunk(2-5) copy_exact_more [OF chunk(6)] line_more [OF chunk(7)]]
      less.hyps [OF chunk_step_left [OF chunk(1,6,7)] chunk(8)] show ?thesis by simp
  qed
qed

abbreviation trailer_text :: "string list \<Rightarrow> string" where
  "trailer_text ls \<equiv> concat (map (\<lambda>l. l @ CRLF) ls) @ CRLF"

abbreviation trailer_size :: "string list \<Rightarrow> nat" where
  "trailer_size ls \<equiv> sum_list (map (\<lambda>l. length l + 2) ls)"

lemma trailer_line_nonempty: "trailer_line l \<Longrightarrow> l \<noteq> []"
  by (auto simp: trailer_line_def)

lemma trailer_loop_line:
  assumes "line MAX_CHUNK_TRAILER_BYTES s = Inr (l, s1)" "trailer_line l" "n + length l + 2 \<le> MAX_CHUNK_TRAILER_BYTES"
  shows "trailer_loop s n = trailer_loop s1 (n + length l + 2)"
proof -
  have "validate_trailer l = Inr ()" using validate_trailer_iff line_consumes [OF assms(1)] assms(2) by blast
  then show ?thesis using assms(1,3) trailer_line_nonempty [OF assms(2)] by (simp add: trailer_loop.simps [of s n])
qed

lemma trailer_loop_cases:
  assumes "trailer_loop s n = Inr s'"
  obtains (last) "line MAX_CHUNK_TRAILER_BYTES s = Inr ([], s')"
  | (more) l s1 where "line MAX_CHUNK_TRAILER_BYTES s = Inr (l, s1)" "trailer_line l"
      "n + length l + 2 \<le> MAX_CHUNK_TRAILER_BYTES" "trailer_loop s1 (n + length l + 2) = Inr s'"
proof -
  note r = assms [unfolded trailer_loop.simps [of s n]]
  obtain l s1 where l: "line MAX_CHUNK_TRAILER_BYTES s = Inr (l, s1)" using r by (cases "line MAX_CHUNK_TRAILER_BYTES s") auto
  show thesis
  proof (cases "l = []")
    case True
    then show thesis using r l last by simp
  next
    case False
    then have v: "validate_trailer l = Inr ()" "n + length l + 2 \<le> MAX_CHUNK_TRAILER_BYTES" "trailer_loop s1 (n + length l + 2) = Inr s'"
      using r l by (auto split: if_splits sum.splits)
    then have "trailer_line l" using validate_trailer_iff line_consumes [OF l] by blast
    then show thesis using more [OF l _ v(2,3)] by blast
  qed
qed

lemma trailer_loop_consumes:
  assumes "trailer_loop s n = Inr s'" "n \<le> MAX_CHUNK_TRAILER_BYTES"
  shows "\<exists>ls. consumes s (trailer_text ls) s' \<and> list_all trailer_line ls \<and> n + trailer_size ls \<le> MAX_CHUNK_TRAILER_BYTES"
  using assms
proof (induction "left s" arbitrary: s n rule: less_induct)
  case less
  from less.prems(1) show ?case
  proof (cases rule: trailer_loop_cases)
    case last
    then show ?thesis using line_consumes [OF last] less.prems(2) by (intro exI [of _ "[]"]) simp
  next
    case (more l s1)
    from less.hyps [OF line_left [OF more(1)] more(4,3)] obtain ls where ls: "consumes s1 (trailer_text ls) s'"
      "list_all trailer_line ls" "n + length l + 2 + trailer_size ls \<le> MAX_CHUNK_TRAILER_BYTES" by blast
    have "consumes s ((l @ CRLF) @ trailer_text ls) s'" using consumes_trans line_consumes [OF more(1)] ls(1) by blast
    then show ?thesis using more(2) ls(2,3) by (intro exI [of _ "l # ls"]) simp
  qed
qed

lemma trailer_loop_offers:
  assumes "offers s (trailer_text ls @ r)" "list_all trailer_line ls" "n + trailer_size ls \<le> MAX_CHUNK_TRAILER_BYTES"
  shows "\<exists>s'. trailer_loop s n = Inr s' \<and> offers s' r"
  using assms
proof (induction ls arbitrary: s n)
  case Nil
  then obtain s1 where "line MAX_CHUNK_TRAILER_BYTES s = Inr ([], s1)" "offers s1 r"
    using line_offers [of s "[]" r MAX_CHUNK_TRAILER_BYTES] by auto
  then show ?case by (simp add: trailer_loop.simps [of s n])
next
  case (Cons l ls)
  have t: "trailer_line l" "list_all trailer_line ls" using Cons.prems(2) by simp_all
  have len: "n + length l + 2 + trailer_size ls \<le> MAX_CHUNK_TRAILER_BYTES" using Cons.prems(3) by simp
  have "offers s (l @ CRLF @ trailer_text ls @ r)" using Cons.prems(1) by simp
  moreover have "CR \<notin> set l" "LF \<notin> set l" "length l \<le> MAX_CHUNK_TRAILER_BYTES" using t(1) len by (simp_all add: trailer_line_def)
  ultimately obtain s1 where s1: "line MAX_CHUNK_TRAILER_BYTES s = Inr (l, s1)" "offers s1 (trailer_text ls @ r)"
    using line_offers by blast
  from Cons.IH [OF s1(2) t(2) len] obtain s' where "trailer_loop s1 (n + length l + 2) = Inr s'" "offers s' r" by blast
  then show ?case using trailer_loop_line [OF s1(1) t(1)] len by auto
qed

lemma trailer_loop_more: "trailer_loop s n = Inr s' \<Longrightarrow> trailer_loop (more_reads m s) n = Inr (more_reads m s')"
proof (induction "left s" arbitrary: s n rule: less_induct)
  case less
  from less.prems(1) show ?case
  proof (cases rule: trailer_loop_cases)
    case last
    then show ?thesis using line_more [OF last] by (simp add: trailer_loop.simps [of "more_reads m s" n])
  next
    case (more l s1)
    from less.hyps [OF line_left [OF more(1)] more(4)] trailer_loop_line [OF line_more [OF more(1)] more(2,3)]
    show ?thesis by simp
  qed
qed


subsection \<open>What reaches the upstream when a body is refused\<close>

text \<open>Whole chunks, then at most a chunk whose data or final line end is missing.\<close>

definition cut_short :: "string \<Rightarrow> bool" where
  "cut_short p \<longleftrightarrow> p = [] \<or> (\<exists>n d. 0 < n \<and> n < 2 ^ 64 \<and> p = show_hex n @ CRLF @ d \<and> length d \<le> n)"

definition chunk_data :: "nat \<Rightarrow> source \<Rightarrow> nat \<Rightarrow> nat \<Rightarrow> string \<Rightarrow> (chunk_error + source) \<times> string" where
  "chunk_data max_body s1 n sofar out =
     (case copy_exact s1 n out of
        (Inl e, out2) \<Rightarrow> (Inl e, out2)
      | (Inr s2, out2) \<Rightarrow>
          (case line 0 s2 of
             Inl e \<Rightarrow> (Inl e, out2)
           | Inr (l2, s3) \<Rightarrow>
               if l2 \<noteq> [] then (Inl No_Crlf_After_Data, out2) else chunk_loop max_body s3 (sofar + n) (out2 @ CRLF)))"

lemma chunk_data_fails:
  assumes "chunk_data max_body s1 n sofar out = (Inl e, out')"
  shows "\<exists>d. out' = out @ d \<and> length d \<le> n
     \<or> length d = n \<and> (\<exists>s3. left s3 < left s1 \<and> chunk_loop max_body s3 (sofar + n) (out @ d @ CRLF) = (Inl e, out'))"
proof -
  obtain res out2 where c: "copy_exact s1 n out = (res, out2)" by (cases "copy_exact s1 n out")
  show ?thesis
  proof (cases res)
    case (Inl e')
    then have "out' = out2" using assms c by (simp add: chunk_data_def)
    then show ?thesis using copy_exact_fails [of s1 n out e' out2] c Inl less_imp_le by blast
  next
    case (Inr s2)
    then obtain d where d: "out2 = out @ d" "length d = n" using copy_exact_consumes c by blast
    have r: "(case line 0 s2 of Inl e \<Rightarrow> (Inl e, out2) | Inr (l2, s3) \<Rightarrow>
        if l2 \<noteq> [] then (Inl No_Crlf_After_Data, out2) else chunk_loop max_body s3 (sofar + n) (out2 @ CRLF)) = (Inl e, out')"
      using assms c Inr by (simp add: chunk_data_def)
    show ?thesis
    proof (cases "\<exists>s3. line 0 s2 = Inr ([], s3)")
      case True
      then obtain s3 where s3: "line 0 s2 = Inr ([], s3)" by blast
      have "left s2 \<le> left s1" using copy_exact_left c Inr by blast
      then show ?thesis using r s3 d line_left [OF s3] by (intro exI [of _ d]) auto
    next
      case False
      then have "out' = out2" using r by (auto split: sum.splits if_splits)
      then show ?thesis using d by auto
    qed
  qed
qed

lemma chunk_loop_fails:
  assumes "chunk_loop max_body s sofar out = (Inl e, out')"
  shows "\<exists>ds p. out' = out @ concat (map chunk_text ds) @ p \<and> (\<forall>d \<in> set ds. d \<noteq> [] \<and> length d < 2 ^ 64) \<and> cut_short p"
  using assms
proof (induction "left s" arbitrary: s sofar out rule: less_induct)
  case less
  note r = less.prems [unfolded chunk_loop.simps [of max_body s sofar out]]
  show ?case
  proof (cases "\<exists>l s1 n. line MAX_CHUNK_LINE_BYTES s = Inr (l, s1) \<and> parse_chunk_size l = Inr n \<and> n \<noteq> 0
      \<and> sofar + n < 2 ^ 64 \<and> sofar + n \<le> max_body")
    case False
    then have "out' = out" using r by (auto split: sum.splits if_splits)
    then show ?thesis by (intro exI [of _ "[]"]) (simp add: cut_short_def)
  next
    case True
    then obtain l s1 n where l: "line MAX_CHUNK_LINE_BYTES s = Inr (l, s1)" "parse_chunk_size l = Inr n" "n \<noteq> 0"
      "sofar + n < 2 ^ 64" "sofar + n \<le> max_body" by blast
    then have "chunk_data max_body s1 n sofar (out @ show_hex n @ CRLF) = (Inl e, out')"
      using r by (simp add: chunk_data_def)
    then consider (cut) d where "out' = (out @ show_hex n @ CRLF) @ d" "length d \<le> n"
      | (more) d s3 where "length d = n" "left s3 < left s1"
          "chunk_loop max_body s3 (sofar + n) ((out @ show_hex n @ CRLF) @ d @ CRLF) = (Inl e, out')"
      using chunk_data_fails by blast
    then show ?thesis
    proof cases
      case cut
      then show ?thesis using l(3,4)
        by (intro exI [of _ "[]"] exI [of _ "show_hex n @ CRLF @ d"]) (auto simp: cut_short_def)
    next
      case more
      have "left s3 < left s" using line_left [OF l(1)] more(2) by simp
      from less.hyps [OF this more(3)] obtain ds p where ds:
        "out' = ((out @ show_hex n @ CRLF) @ d @ CRLF) @ concat (map chunk_text ds) @ p"
        "\<forall>d \<in> set ds. d \<noteq> [] \<and> length d < 2 ^ 64" "cut_short p" by blast
      show ?thesis using ds more(1) l(3,4)
        by (intro exI [of _ "d # ds"] exI [of _ p]) (auto simp: chunk_text_def [of d])
    qed
  qed
qed

text \<open>The first line of a text is determined.\<close>

lemma same_first_line:
  assumes "l @ CRLF @ r = l' @ CRLF @ r'" "LF \<notin> set l" "LF \<notin> set l'"
  shows "l = l' \<and> r = r'"
proof -
  have "length (l @ [CR]) = length (l' @ [CR])"
    using position_of_append [of LF "l @ [CR]" r] position_of_append [of LF "l' @ [CR]" r'] assms by (simp add: CRLF_def)
  then show ?thesis using assms(1) by simp
qed

lemma hex_line_plain: "LF \<notin> set (show_hex n)"
  using show_hex_chars [of n] hex_not_control by (auto simp: list_all_iff)

lemma cut_not_complete:
  assumes "chunked_data ds' a" "cut_short p" "\<forall>d \<in> set ds. d \<noteq> [] \<and> length d < 2 ^ 64"
  shows "a @ r \<noteq> concat (map chunk_text ds) @ p"
  using assms(3,1)
proof (induction ds arbitrary: ds' a)
  case Nil
  show ?case
  proof
    assume h: "a @ r = concat (map chunk_text []) @ p"
    have "a \<noteq> []" using Nil(2) by (cases rule: chunked_data.cases) auto
    with h obtain n d where p: "0 < n" "n < 2 ^ 64" "p = show_hex n @ CRLF @ d" "length d \<le> n"
      using assms(2) by (auto simp: cut_short_def)
    from Nil(2) show False
    proof (cases rule: chunked_data.cases)
      case (last_chunk l)
      then have "l = show_hex n" using same_first_line [of l r "show_hex n" d] h p(3) hex_line_plain chunk_line_plain by auto
      then show False using chunk_line_unique [OF last_chunk(3)] show_hex_line [OF p(2)] p(1) by auto
    next
      case (chunk l d' ds'' t)
      then have s: "l = show_hex n" "d' @ CRLF @ t @ r = d"
        using same_first_line [of l "d' @ CRLF @ t @ r" "show_hex n" d] h p(3) hex_line_plain chunk_line_plain by auto
      then have "length d' = n" using chunk_line_unique [OF chunk(3)] show_hex_line [OF p(2)] by auto
      then show False using s(2) p(4) by auto
    qed
  qed
next
  case (Cons d ds)
  have d: "d \<noteq> []" "length d < 2 ^ 64" using Cons.prems(1) by simp_all
  show ?case
  proof
    assume "a @ r = concat (map chunk_text (d # ds)) @ p"
    then have h: "a @ r = show_hex (length d) @ CRLF @ d @ CRLF @ concat (map chunk_text ds) @ p"
      by (simp add: chunk_text_def [of d])
    from Cons.prems(2) show False
    proof (cases rule: chunked_data.cases)
      case (last_chunk l)
      then have "l = show_hex (length d)" using same_first_line [of l r "show_hex (length d)"] h hex_line_plain chunk_line_plain by auto
      then show False using chunk_line_unique [OF last_chunk(3)] show_hex_line [OF d(2)] d(1) by auto
    next
      case (chunk l d' ds'' t)
      then have s: "l = show_hex (length d)" "d' @ CRLF @ t @ r = d @ CRLF @ concat (map chunk_text ds) @ p"
        using same_first_line [of l "d' @ CRLF @ t @ r" "show_hex (length d)" "d @ CRLF @ concat (map chunk_text ds) @ p"]
          h hex_line_plain chunk_line_plain by auto
      then have "length d' = length d" using chunk_line_unique [OF chunk(3)] show_hex_line [OF d(2)] by auto
      then have "t @ r = concat (map chunk_text ds) @ p" using s(2) by simp
      then show False using Cons.IH [OF _ chunk(5)] Cons.prems(1) by simp
    qed
  qed
qed

lemma chunk_line_bound: "chunk_line l n \<Longrightarrow> n < 2 ^ 64"
proof -
  assume "chunk_line l n"
  then obtain digits where d: "length digits \<le> 16" "list_all is_hex digits" "n = hex_value digits" unfolding chunk_line_def by blast
  have "n < 16 ^ length digits" using hex_value_bound d(2,3) by simp
  also have "\<dots> \<le> 16 ^ 16" using d(1) by (intro power_increasing) simp_all
  finally show ?thesis by simp
qed

lemma chunked_data_chunks: "chunked_data ds a \<Longrightarrow> \<forall>d \<in> set ds. d \<noteq> [] \<and> length d < 2 ^ 64"
  by (induction rule: chunked_data.induct) (auto dest: chunk_line_bound)

lemma chunked_data_canonical: "\<forall>d \<in> set ds. d \<noteq> [] \<and> length d < 2 ^ 64 \<Longrightarrow> chunked_data ds (concat (map chunk_text ds) @ ''0'' @ CRLF)"
proof (induction ds)
  case Nil
  have "show_hex 0 = ''0''" by code_simp
  then have "chunk_line ''0'' 0" using show_hex_line [of 0] by simp
  from last_chunk [OF this] show ?case by simp
next
  case (Cons d ds)
  then have "chunked_data (d # ds) (show_hex (length d) @ CRLF @ d @ CRLF @ concat (map chunk_text ds) @ ''0'' @ CRLF)"
    by (intro chunk show_hex_line) simp_all
  then show ?case by (simp add: chunk_text_def [of d])
qed

lemma chunked_body_canonical: "\<forall>d \<in> set ds. d \<noteq> [] \<and> length d < 2 ^ 64 \<Longrightarrow> chunked_body ds (canonical_body ds)"
  unfolding chunked_body_def canonical_body_def
  by (intro exI [of _ "concat (map chunk_text ds) @ ''0'' @ CRLF"] exI [of _ "[]"]) (use chunked_data_canonical in auto)

lemma chunked_data_unique: "chunked_data ds a \<Longrightarrow> chunked_data ds' a' \<Longrightarrow> a @ r = a' @ r' \<Longrightarrow> ds = ds'"
proof (induction arbitrary: ds' a' rule: chunked_data.induct)
  case (last_chunk l)
  from last_chunk(2) show ?case
  proof (cases rule: chunked_data.cases)
    case (chunk l' d ds'' t)
    then have "l = l'" using last_chunk(1,3) same_first_line [of l r l' "d @ CRLF @ t @ r'"] chunk_line_plain by auto
    then show ?thesis using chunk_line_unique [OF last_chunk(1)] chunk(3,4) by auto
  qed simp
next
  case (chunk l d ds t)
  from chunk(5) show ?case
  proof (cases rule: chunked_data.cases)
    case (last_chunk l')
    then have "l = l'" using chunk(1,6) same_first_line [of l "d @ CRLF @ t @ r" l' r'] chunk_line_plain by auto
    then show ?thesis using chunk_line_unique [OF chunk(1)] last_chunk(3) chunk(2) by auto
  next
    case (chunk l' d' ds'' t')
    note c' = this
    have e: "l = l' \<and> d @ CRLF @ t @ r = d' @ CRLF @ t' @ r'"
      using c'(2,3) chunk.prems(2) chunk.hyps(1) chunk_line_plain
      by (intro same_first_line [of l _ l']) auto
    have "chunk_line l (length d')" using e c'(3) by simp
    then have "length d = length d'" using chunk_line_unique chunk.hyps(1) by blast
    then have "d = d'" "t @ r = t' @ r'" using e by simp_all
    then show ?thesis using chunk.IH [OF c'(5)] c'(1) by simp
  qed
qed

lemma chunked_data_same_text: "chunked_data ds a \<Longrightarrow> chunked_data ds' a' \<Longrightarrow> a @ r = a' @ r' \<Longrightarrow> a = a'"
proof (induction arbitrary: ds' a' rule: chunked_data.induct)
  case (last_chunk l)
  from last_chunk(2) show ?case
  proof (cases rule: chunked_data.cases)
    case (last_chunk l')
    then show ?thesis using last_chunk.prems(2) last_chunk.hyps same_first_line [of l r l' r'] chunk_line_plain by auto
  next
    case (chunk l' d ds'' t)
    then have "l = l'" using last_chunk(1,3) same_first_line [of l r l' "d @ CRLF @ t @ r'"] chunk_line_plain by auto
    then show ?thesis using chunk_line_unique [OF last_chunk(1)] chunk(3,4) by auto
  qed
next
  case (chunk l d ds t)
  from chunk(5) show ?case
  proof (cases rule: chunked_data.cases)
    case (last_chunk l')
    then have "l = l'" using chunk(1,6) same_first_line [of l "d @ CRLF @ t @ r" l' r'] chunk_line_plain by auto
    then show ?thesis using chunk_line_unique [OF chunk(1)] last_chunk(3) chunk(2) by auto
  next
    case (chunk l' d' ds'' t')
    note c' = this
    have e: "l = l' \<and> d @ CRLF @ t @ r = d' @ CRLF @ t' @ r'"
      using c'(2,3) chunk.prems(2) chunk.hyps(1) chunk_line_plain
      by (intro same_first_line [of l _ l']) auto
    have "chunk_line l (length d')" using e c'(3) by simp
    then have "length d = length d'" using chunk_line_unique chunk.hyps(1) by blast
    then have "d = d'" "t @ r = t' @ r'" using e by simp_all
    then show ?thesis using chunk.IH [OF c'(5)] c'(2) e by simp
  qed
qed

text \<open>The canonical encoding is complete only as a whole.\<close>

lemma canonical_whole:
  assumes "chunked_body ds sent" "canonical_body cs = sent @ rest" "\<forall>d \<in> set cs. d \<noteq> [] \<and> length d < 2 ^ 64"
  shows "rest = []"
proof -
  obtain a ls where a: "sent = a @ trailer_text ls" "chunked_data ds a" "list_all trailer_line ls"
    using assms(1) unfolding chunked_body_def by blast
  define c where "c = concat (map chunk_text cs) @ ''0'' @ CRLF"
  have c: "chunked_data cs c" unfolding c_def by (rule chunked_data_canonical [OF assms(3)])
  have e: "a @ trailer_text ls @ rest = c @ CRLF" using assms(2) a(1) by (simp add: canonical_body_def c_def)
  then have "a = c" using chunked_data_same_text [OF a(2) c] by blast
  then have t: "trailer_text ls @ rest = CRLF" using e by simp
  show ?thesis
  proof (cases ls)
    case Nil
    then show ?thesis using t by simp
  next
    case (Cons l ls')
    have "length (trailer_text ls) \<le> length CRLF" using t by (metis le_add1 length_append)
    then show ?thesis using Cons a(3) trailer_line_nonempty [of l] by simp
  qed
qed

lemma chunked_body_unique: "chunked_body ds t \<Longrightarrow> chunked_body ds' t \<Longrightarrow> ds = ds'"
  unfolding chunked_body_def using chunked_data_unique by blast


subsection \<open>The decoder\<close>

abbreviation start_source :: "(string + string) list \<Rightarrow> string \<Rightarrow> source" where
  "start_source reads initial \<equiv> \<lparr>inbound = reads, buffered = initial, buf_position = 0\<rparr>"

lemma pending_start [simp]: "pending (start_source reads initial) = initial"
  by (simp add: pending_def)

lemma forward_cases:
  assumes "forward_chunked_body reads initial max_body = (res, out)"
  obtains (refused) e where "res = Inl e" "chunk_loop max_body (start_source reads initial) 0 [] = (Inl e, out)"
  | (late) e s where "res = Inl e" "chunk_loop max_body (start_source reads initial) 0 [] = (Inr s, out)"
  | (accepted) s out1 s' where "chunk_loop max_body (start_source reads initial) 0 [] = (Inr s, out1)"
      "trailer_loop s 0 = Inr s'" "pending s' = []" "res = Inr (inbound s')" "out = out1 @ ''0'' @ CRLF @ CRLF"
proof -
  obtain r1 out1 where c: "chunk_loop max_body (start_source reads initial) 0 [] = (r1, out1)"
    by (cases "chunk_loop max_body (start_source reads initial) 0 []")
  show thesis
  proof (cases r1)
    case (Inl e)
    then show thesis using assms c refused unfolding forward_chunked_body_def by auto
  next
    case (Inr s)
    then have r: "(case trailer_loop s 0 of Inl e \<Rightarrow> (Inl e, out1)
         | Inr s' \<Rightarrow> if pending s' \<noteq> [] then (Inl Pipelined, out1) else (Inr (inbound s'), out1 @ ''0'' @ CRLF @ CRLF)) = (res, out)"
      using assms c unfolding forward_chunked_body_def by simp
    show thesis
    proof (cases "\<exists>s'. trailer_loop s 0 = Inr s' \<and> pending s' = []")
      case True
      then show thesis using r c Inr accepted by auto
    next
      case False
      then have "\<exists>e. res = Inl e \<and> out = out1" using r by (auto split: sum.splits if_splits)
      then show thesis using c Inr late by blast
    qed
  qed
qed

lemma forward_sound:
  assumes "forward_chunked_body reads initial max_body = (Inr rest, out)"
  shows "\<exists>ds segs. reads = map Inr segs @ rest \<and> [] \<notin> set segs \<and> chunked_body ds (initial @ concat segs)
     \<and> data_length ds \<le> max_body \<and> out = canonical_body ds"
  using assms
proof (cases rule: forward_cases)
  case (accepted s out1 s')
  obtain ds a where ds: "consumes (start_source reads initial) a s" "chunked_data ds a" "out1 = concat (map chunk_text ds)"
    "data_length ds \<le> max_body" using chunk_loop_consumes [OF accepted(1)] by auto
  obtain ls where ls: "consumes s (trailer_text ls) s'" "list_all trailer_line ls" "trailer_size ls \<le> MAX_CHUNK_TRAILER_BYTES"
    using trailer_loop_consumes [OF accepted(2)] by auto
  have "consumes (start_source reads initial) (a @ trailer_text ls) s'" using consumes_trans ds(1) ls(1) .
  then obtain segs where segs: "reads = map Inr segs @ rest" "[] \<notin> set segs" "initial @ concat segs = a @ trailer_text ls"
    using accepted(3,4) unfolding consumes_def by auto
  have "chunked_body ds (initial @ concat segs)" unfolding chunked_body_def segs(3) using ds(2) ls(2,3) by blast
  then show ?thesis using segs(1,2) ds(3,4) accepted(5) by (auto simp: canonical_body_def)
qed simp_all

lemma forward_complete:
  assumes "[] \<notin> set segs" "chunked_body ds (initial @ concat segs)" "data_length ds \<le> max_body" "max_body < 2 ^ 64"
  shows "forward_chunked_body (map Inr segs @ rest) initial max_body = (Inr rest, canonical_body ds)"
proof -
  let ?s = "start_source (map Inr segs) initial"
  obtain a ls where t: "initial @ concat segs = a @ trailer_text ls" "chunked_data ds a" "list_all trailer_line ls"
    "trailer_size ls \<le> MAX_CHUNK_TRAILER_BYTES" using assms(2) unfolding chunked_body_def by blast
  have "offers ?s (a @ trailer_text ls @ [])" unfolding offers_def using assms(1) t(1) by auto
  then obtain s where s: "chunk_loop max_body ?s 0 [] = (Inr s, concat (map chunk_text ds))" "offers s (trailer_text ls @ [])"
    using chunk_loop_offers [OF t(2) _ _ assms(4), of ?s _ 0 "[]"] assms(3) by auto
  obtain s' where s': "trailer_loop s 0 = Inr s'" "offers s' []" using trailer_loop_offers [OF s(2) t(3), of 0] t(4) by auto
  have ends: "pending s' = []" "inbound s' = []" using s'(2) unfolding offers_def by (auto simp: concat_eq_Nil_conv) (metis list.set_intros(1) neq_Nil_conv)
  have m: "start_source (map Inr segs @ rest) initial = more_reads rest ?s" by (simp add: more_reads_def)
  show ?thesis
    unfolding forward_chunked_body_def m chunk_loop_more [OF s(1)]
    using trailer_loop_more [OF s'(1)] ends by (simp add: canonical_body_def)
qed

text \<open>
  C5. A chunked body is accepted exactly when the bytes the client sent are a chunked body of the grammar within the
  limits, wherever the boundaries of the reads fall; exactly those bytes are taken, and the upstream gets the canonical
  encoding of the same chunks: no chunk extension, no trailer and no size of the client's own spelling.
\<close>

theorem chunked_accepts_exactly:
  assumes "max_body < 2 ^ 64"
  shows "forward_chunked_body reads initial max_body = (Inr rest, out) \<longleftrightarrow>
    (\<exists>ds segs. reads = map Inr segs @ rest \<and> [] \<notin> set segs \<and> chunked_body ds (initial @ concat segs)
       \<and> data_length ds \<le> max_body \<and> out = canonical_body ds)"
  using forward_sound forward_complete [OF _ _ _ assms] by blast

lemma example_line: "chunk_line ''5;x=1'' 5" "chunk_line ''0'' 0"
proof -
  have "parse_chunk_size ''5;x=1'' = Inr 5" "parse_chunk_size ''0'' = Inr 0" by code_simp+
  then show "chunk_line ''5;x=1'' 5" "chunk_line ''0'' 0"
    by (auto intro!: parse_chunk_size_sound simp: MAX_CHUNK_LINE_BYTES_def CR_def LF_def)
qed

lemma example_body: "chunked_body [''hello''] (''5;x=1'' @ CRLF @ ''hello'' @ CRLF @ ''0'' @ CRLF @ ''A: b'' @ CRLF @ CRLF)"
proof -
  have "validate_trailer ''A: b'' = Inr ()" by code_simp
  then have t: "trailer_line ''A: b''" using validate_trailer_iff [of "''A: b''"] by (simp add: CR_def LF_def)
  have "chunked_data [''hello''] (''5;x=1'' @ CRLF @ ''hello'' @ CRLF @ ''0'' @ CRLF)"
    using chunk [OF _ _ last_chunk [OF example_line(2)], of "''5;x=1''" "''hello''"] example_line(1) by (simp add: eval_nat_numeral)
  then show ?thesis unfolding chunked_body_def using t
    by (intro exI [of _ "''5;x=1'' @ CRLF @ ''hello'' @ CRLF @ ''0'' @ CRLF"] exI [of _ "[''A: b'']"])
      (simp add: MAX_CHUNK_TRAILER_BYTES_def)
qed

theorem chunked_accepts_exactly_witness:
  "forward_chunked_body [Inr (''llo'' @ CRLF @ ''0''), Inr (CRLF @ ''A: b'' @ CRLF @ CRLF), Inl ''reset''] (''5;x=1'' @ CRLF @ ''he'') 9
     = (Inr [Inl ''reset''], ''5'' @ CRLF @ ''hello'' @ CRLF @ ''0'' @ CRLF @ CRLF)"
proof -
  have "canonical_body [''hello''] = ''5'' @ CRLF @ ''hello'' @ CRLF @ ''0'' @ CRLF @ CRLF" by code_simp
  then show ?thesis
    using example_body by (subst chunked_accepts_exactly, simp, intro exI [of _ "[''hello'']"]
      exI [of _ "[''llo'' @ CRLF @ ''0'', CRLF @ ''A: b'' @ CRLF @ CRLF]"]) (simp add: data_length_def CRLF_def)
qed

lemma refused_incomplete:
  assumes "forward_chunked_body reads initial max_body = (Inl e, out)" "out = sent @ rest"
  shows "\<not> chunked_body ds sent"
proof -
  have "\<exists>cs p. out = concat (map chunk_text cs) @ p \<and> (\<forall>d \<in> set cs. d \<noteq> [] \<and> length d < 2 ^ 64) \<and> cut_short p"
    using assms(1)
  proof (cases rule: forward_cases)
    case (refused e')
    then show ?thesis using chunk_loop_fails [OF refused(2)] by simp
  next
    case (late e' s)
    obtain ds a where "chunked_data ds a" "out = concat (map chunk_text ds)" using chunk_loop_consumes [OF late(2)] by auto
    then show ?thesis using chunked_data_chunks by (intro exI [of _ ds] exI [of _ "[]"]) (simp add: cut_short_def)
  qed simp
  then show ?thesis unfolding chunked_body_def using cut_not_complete assms(2) by (metis append.assoc)
qed

text \<open>
  A body that is refused, for whatever reason and at whatever point, never reaches the upstream complete: no prefix of
  what was written is a chunked body, so also a write that stopped half way leaves the request unfinished.
\<close>

theorem refused_never_complete:
  assumes "forward_chunked_body reads initial max_body = (Inl e, out)"
  shows "\<not> (\<exists>ds sent rest. out = sent @ rest \<and> chunked_body ds sent)"
  using refused_incomplete [OF assms] by blast

lemma example_refused: "forward_chunked_body [] (''5'' @ CRLF @ ''he'') 9 = (Inl Closed, ''5'' @ CRLF @ ''he'')"
proof -
  have p: "position_of LF (''5'' @ CRLF @ ''he'') = Some 2" "parse_chunk_size ''5'' = Inr 5" "show_hex 5 = ''5''" by code_simp+
  have "line MAX_CHUNK_LINE_BYTES (start_source [] (''5'' @ CRLF @ ''he''))
      = Inr (''5'', \<lparr>inbound = [], buffered = ''5'' @ CRLF @ ''he'', buf_position = 3\<rparr>)"
    using p(1) by (simp add: line.simps [of _ "start_source [] _"] CRLF_def CR_def LF_def MAX_CHUNK_LINE_BYTES_def)
  moreover have "copy_exact \<lparr>inbound = [], buffered = ''5'' @ CRLF @ ''he'', buf_position = 3\<rparr> 5 (''5'' @ CRLF)
      = (Inl Closed, ''5'' @ CRLF @ ''he'')"
    by (simp add: copy_exact.simps pending_def fill_def CRLF_def)
  ultimately show ?thesis using p(2,3)
    by (simp add: forward_chunked_body_def chunk_loop.simps [of 9 "start_source [] _"])
qed

theorem refused_never_complete_witness:
  "forward_chunked_body [] (''5'' @ CRLF @ ''he'') 9 = (Inl Closed, ''5'' @ CRLF @ ''he'')
   \<and> \<not> (\<exists>ds sent rest. ''5'' @ CRLF @ ''he'' = sent @ rest \<and> chunked_body ds sent)"
  using example_refused refused_never_complete [OF example_refused] by blast

text \<open>
  C33. What the upstream gets for an accepted body decodes, in only one way, to the chunks of the client.
\<close>

theorem upstream_reads_same_chunks:
  assumes "forward_chunked_body reads initial max_body = (Inr rest, out)"
  shows "\<exists>ds segs. reads = map Inr segs @ rest \<and> (\<forall>ds'. chunked_body ds' (initial @ concat segs) \<longleftrightarrow> ds' = ds)
     \<and> (\<forall>ds'. chunked_body ds' out \<longleftrightarrow> ds' = ds)"
proof -
  obtain ds segs where h: "reads = map Inr segs @ rest" "chunked_body ds (initial @ concat segs)" "out = canonical_body ds"
    using forward_sound [OF assms] by blast
  have "chunked_body ds out" unfolding h(3) using h(2) chunked_data_chunks
    by (intro chunked_body_canonical) (auto simp: chunked_body_def)
  then show ?thesis using h(1,2) chunked_body_unique by blast
qed

theorem upstream_reads_same_chunks_witness:
  "\<exists>ds segs. [Inr (''llo'' @ CRLF @ ''0''), Inr (CRLF @ ''A: b'' @ CRLF @ CRLF)] = map Inr segs @ ([] :: (string + string) list)
     \<and> (\<forall>ds'. chunked_body ds' ((''5;x=1'' @ CRLF @ ''he'') @ concat segs) \<longleftrightarrow> ds' = ds)
     \<and> (\<forall>ds'. chunked_body ds' (canonical_body [''hello'']) \<longleftrightarrow> ds' = ds)"
proof (rule upstream_reads_same_chunks [of _ _ 9])
  show "forward_chunked_body [Inr (''llo'' @ CRLF @ ''0''), Inr (CRLF @ ''A: b'' @ CRLF @ CRLF)] (''5;x=1'' @ CRLF @ ''he'') 9
      = (Inr [], canonical_body [''hello''])"
    using forward_complete [of "[''llo'' @ CRLF @ ''0'', CRLF @ ''A: b'' @ CRLF @ CRLF]" "[''hello'']" "''5;x=1'' @ CRLF @ ''he''" 9 "[]"]
      example_body by (simp add: data_length_def CRLF_def)
qed

end
