(* ===== verification/Ip_Addr.thy ===== *)
theory Ip_Addr
  imports Http_Syntax "HOL-Library.Word"
begin

text \<open>
  Addresses of clients as the Rust standard library has them: \<open>IpAddr\<close>, its canonical form, which takes an IPv4 address out of
  the IPv6 address that maps it, and its text, with the longest run of zeros of an IPv6 address left out. The text has only
  digits, dots and colons.
\<close>

text \<open>\<open>IpAddr\<close>: its canonical form and its text.\<close>

datatype ip_addr = V4 "8 word" "8 word" "8 word" "8 word"
  | V6 "16 word" "16 word" "16 word" "16 word" "16 word" "16 word" "16 word" "16 word"

fun to_canonical :: "ip_addr \<Rightarrow> ip_addr" where
  "to_canonical (V4 a b c d) = V4 a b c d"
| "to_canonical (V6 a b c d e f g h) =
     (if a = 0 \<and> b = 0 \<and> c = 0 \<and> d = 0 \<and> e = 0 \<and> f = 0xFFFF
      then V4 (ucast (drop_bit 8 g)) (ucast g) (ucast (drop_bit 8 h)) (ucast h)
      else V6 a b c d e f g h)"

text \<open>The first of the longest runs of zeros, as start and length.\<close>

fun zero_run :: "nat \<Rightarrow> nat \<times> nat \<Rightarrow> nat \<times> nat \<Rightarrow> 16 word list \<Rightarrow> nat \<times> nat" where
  "zero_run i longest current [] = longest"
| "zero_run i longest current (s # ss) =
     (if s = 0
      then (let current = (if snd current = 0 then (i, 1) else (fst current, snd current + 1))
            in zero_run (i + 1) (if snd current > snd longest then current else longest) current ss)
      else zero_run (i + 1) longest (0, 0) ss)"

definition segments_text :: "16 word list \<Rightarrow> string" where
  "segments_text ss = join_str '':'' (map (\<lambda>s. show_hex (unat s)) ss)"

fun show_ip :: "ip_addr \<Rightarrow> string" where
  "show_ip (V4 a b c d) = join_str ''.'' (map (\<lambda>x. show_nat (unat x)) [a, b, c, d])"
| "show_ip (V6 a b c d e f g h) =
     (if a = 0 \<and> b = 0 \<and> c = 0 \<and> d = 0 \<and> e = 0 \<and> f = 0xFFFF
      then ''::ffff:'' @ join_str ''.'' (map show_nat [unat (drop_bit 8 g), unat (ucast g :: 8 word), unat (drop_bit 8 h), unat (ucast h :: 8 word)])
      else (let ss = [a, b, c, d, e, f, g, h]; (start, len) = zero_run 0 (0, 0) (0, 0) ss
            in if len > 1 then segments_text (take start ss) @ ''::'' @ segments_text (drop (start + len) ss) else segments_text ss))"

definition address_char :: "char \<Rightarrow> bool" where
  "address_char c \<longleftrightarrow> is_digit c \<or> is_hex c \<or> c = CHR ''.'' \<or> c = CHR '':''"

lemma join_chars: "list_all P sep \<Longrightarrow> \<forall>p \<in> set ps. list_all P p \<Longrightarrow> list_all P (join_str sep ps)"
  by (induction sep ps rule: join_str.induct) auto

lemma number_chars: "list_all address_char (show_nat n)" "list_all address_char (show_hex n)"
  using show_nat_digits [of n] show_hex_chars [of n] by (auto simp: list_all_iff address_char_def)

lemma segments_chars: "list_all address_char (segments_text ss)"
  unfolding segments_text_def by (rule join_chars) (auto simp: number_chars address_char_def)

lemma show_ip_chars: "list_all address_char (show_ip a)"
proof (cases a)
  case (V4 a b c d)
  then show ?thesis unfolding V4 show_ip.simps by (intro join_chars) (auto simp: number_chars address_char_def)
next
  case (V6 a b c d e f g h)
  have "list_all address_char (''::ffff:'')" "list_all address_char ''::''" by code_simp+
  moreover have "list_all address_char (join_str ''.'' (map show_nat ns))" for ns
    by (intro join_chars) (auto simp: number_chars address_char_def)
  ultimately show ?thesis unfolding V6 show_ip.simps Let_def
    by (simp add: segments_chars split: prod.splits del: join_str.simps list.map)
qed

end
