(* ===== verification/Http_Request.thy ===== *)
theory Http_Request
  imports Ip_Addr
begin

text \<open>
  The request head of the HTTP proxy, \<open>tools/http-proxy/src/request.rs\<close>: what a client may send, where the request goes and
  what the upstream reads.

  \<open>header_line\<close> is one round of the loop of \<open>request_plan\<close> over the header lines, on the state \<open>head_state\<close> of the local
  variables of that loop. The base64 decoder and the derivation of the WebSocket accept key are code of other packages
  and arguments of the model; nothing is assumed of them.

  \<open>read_head\<close> is how a server reads the head it gets, written without regard to the proxy: the lines up to the empty
  line, and every field split at its first colon. The lemmas show what such a server finds in the head the proxy writes:
  the fields the proxy let through, one \<open>Host\<close>, the forwarding fields of the proxy and none of the client's, and body
  framing that means the same to every server, also to one that takes \<open>_\<close> and \<open>.\<close> in a name for \<open>-\<close>.
\<close>

subsection \<open>Standard library\<close>

text \<open>\<open>str::trim\<close>: the encodings of the Unicode white space characters, stripped at both ends.\<close>

definition white_space :: "string list" where
  "white_space = [[CHR 0x09], [CHR 0x0A], [CHR 0x0B], [CHR 0x0C], [CHR 0x0D], [CHR 0x20], [CHR 0xC2, CHR 0x85], [CHR 0xC2, CHR 0xA0],
     [CHR 0xE1, CHR 0x9A, CHR 0x80], [CHR 0xE2, CHR 0x80, CHR 0x80], [CHR 0xE2, CHR 0x80, CHR 0x81], [CHR 0xE2, CHR 0x80, CHR 0x82],
     [CHR 0xE2, CHR 0x80, CHR 0x83], [CHR 0xE2, CHR 0x80, CHR 0x84], [CHR 0xE2, CHR 0x80, CHR 0x85], [CHR 0xE2, CHR 0x80, CHR 0x86],
     [CHR 0xE2, CHR 0x80, CHR 0x87], [CHR 0xE2, CHR 0x80, CHR 0x88], [CHR 0xE2, CHR 0x80, CHR 0x89], [CHR 0xE2, CHR 0x80, CHR 0x8A],
     [CHR 0xE2, CHR 0x80, CHR 0xA8], [CHR 0xE2, CHR 0x80, CHR 0xA9], [CHR 0xE2, CHR 0x80, CHR 0xAF], [CHR 0xE2, CHR 0x81, CHR 0x9F],
     [CHR 0xE3, CHR 0x80, CHR 0x80]]"

function strip_all :: "string list \<Rightarrow> string \<Rightarrow> string" where
  "strip_all ws s =
     (case find (\<lambda>w. w \<noteq> [] \<and> starts_with w s) ws of
        None \<Rightarrow> s
      | Some w \<Rightarrow> strip_all ws (drop (length w) s))"
  by pat_completeness auto
termination
  by (relation "measure (\<lambda>(ws, s). length s)") (auto simp: find_Some_iff starts_with_iff)

declare strip_all.simps [simp del]

definition trim :: "string \<Rightarrow> string" where
  "trim s = rev (strip_all (map rev white_space) (rev (strip_all white_space s)))"

text \<open>\<open>str::split\<close> at the pattern CR LF.\<close>

fun split_crlf :: "string \<Rightarrow> string list" where
  "split_crlf [] = [[]]"
| "split_crlf [c] = [[c]]"
| "split_crlf (c # d # r) =
     (if c = CR \<and> d = LF then [] # split_crlf r
      else (case split_crlf (d # r) of l # ls \<Rightarrow> (c # l) # ls | [] \<Rightarrow> [[c]]))"

definition eq_ignore_case :: "string \<Rightarrow> string \<Rightarrow> bool" where
  "eq_ignore_case a b \<longleftrightarrow> to_lower a = to_lower b"


subsection \<open>Reading the head\<close>

datatype request_error = Head_Read_Failed string | Header_Too_Large | Header_Terminator_Missing | Not_Utf8 | Missing_Request_Line
  | Bad_Request_Line | Connect_Disabled | Malformed_Header | Malformed_Header_Name | Malformed_Header_Value
  | Invalid_Host_Authority | Invalid_Host_Port | Invalid_Host_Name | Duplicate_Transfer_Encoding | Duplicate_Expect
  | Duplicate_Content_Length | Invalid_Content_Length | Content_Too_Large | Duplicate_Connection | Duplicate_Upgrade
  | Duplicate_Websocket_Key | Duplicate_Websocket_Version | Duplicate_Websocket_Protocol | Duplicate_Websocket_Extensions
  | Websocket_Accept_Forbidden | Not_One_Host | Unsupported_Transfer_Encoding | Two_Framings | Chunked_Needs_11
  | Unsupported_Expect | Malformed_Token_List | Websocket_Needs_Get | Websocket_With_Body | Websocket_With_Expect
  | Websocket_Token_Missing | Not_Websocket | Websocket_Version_Unsupported | Websocket_Key_Missing | Websocket_Key_Invalid
  | Host_Missing

fun find_header_end :: "string \<Rightarrow> nat option" where
  "find_header_end [] = None"
| "find_header_end (c # s) =
     (if starts_with [CR, LF, CR, LF] (c # s) then Some 4 else map_option Suc (find_header_end s))"

fun read_head_loop :: "string \<Rightarrow> (string + string) list \<Rightarrow> request_error + (string \<times> (string + string) list)" where
  "read_head_loop head [] = Inr (head, [])"
| "read_head_loop head (Inl e # reads) = Inl (Head_Read_Failed e)"
| "read_head_loop head (Inr seg # reads) =
     (if seg = [] then Inr (head, reads)
      else (let head = head @ seg
            in case find_header_end head of
                 Some n \<Rightarrow> if n > MAX_REQUEST_HEADER_BYTES then Inl Header_Too_Large else Inr (head, reads)
               | None \<Rightarrow> if length head > MAX_REQUEST_HEADER_BYTES then Inl Header_Too_Large else read_head_loop head reads))"

definition read_request_head :: "(string + string) list \<Rightarrow> request_error + (string \<times> (string + string) list)" where
  "read_request_head reads = read_head_loop [] reads"


subsection \<open>Header names and values\<close>

record client_context =
  peer_ip :: ip_addr
  https :: bool

datatype request_mode = Fixed_Body nat | Chunked_Body | Web_Socket string

record planned_request =
  plan_host :: string
  plan_header :: string
  plan_mode :: request_mode
  plan_expect_continue :: bool

definition fold_header_name :: "string \<Rightarrow> string" where
  "fold_header_name name = map (\<lambda>c. if c = CHR ''_'' \<or> c = CHR ''.'' then CHR ''-'' else c) (to_lower name)"

definition is_forwarding_header :: "string \<Rightarrow> bool" where
  "is_forwarding_header name \<longleftrightarrow>
     (let n = fold_header_name name
      in starts_with ''x-forwarded-'' n
         \<or> n \<in> {''forwarded'', ''x-real-ip'', ''true-client-ip'', ''cf-connecting-ip'', ''x-client-ip'', ''client-ip'',
              ''fastly-client-ip'', ''x-cluster-client-ip''})"

definition is_folded_alias_of_proxy_header :: "string \<Rightarrow> bool" where
  "is_folded_alias_of_proxy_header name \<longleftrightarrow>
     (CHR ''_'' \<in> set name \<or> CHR ''.'' \<in> set name)
     \<and> (let n = fold_header_name name
        in n \<in> {''content-length'', ''transfer-encoding'', ''keep-alive'', ''proxy-connection''} \<or> starts_with ''sec-websocket-'' n)"

definition forwarding_headers :: "client_context \<Rightarrow> string \<Rightarrow> string" where
  "forwarding_headers client authority =
     (let ip = show_ip (to_canonical (peer_ip client)); proto = (if https client then ''https'' else ''http'')
      in ''X-Forwarded-For: '' @ ip @ CRLF @ ''X-Forwarded-Proto: '' @ proto @ CRLF
         @ ''X-Forwarded-Host: '' @ authority @ CRLF @ ''X-Real-IP: '' @ ip @ CRLF)"

definition is_ascii_graphic :: "char \<Rightarrow> bool" where
  "is_ascii_graphic c \<longleftrightarrow> 33 \<le> (of_char c :: nat) \<and> (of_char c :: nat) \<le> 126"

definition parse_request_line :: "string \<Rightarrow> request_error + string \<times> string \<times> string" where
  "parse_request_line l =
     (case split_char (CHR '' '') l of
        [method, target, version] \<Rightarrow>
          if \<not> is_http_token method \<or> \<not> list_all is_ascii_graphic target \<or> \<not> (starts_with ''/'' target \<or> target = ''*'')
             \<or> version \<notin> {''HTTP/1.0'', ''HTTP/1.1''}
          then Inl Bad_Request_Line else Inr (method, target, version)
      | _ \<Rightarrow> Inl Bad_Request_Line)"

fun token_list_has :: "bool \<Rightarrow> string list \<Rightarrow> string \<Rightarrow> request_error + bool" where
  "token_list_has found [] expected = Inr found"
| "token_list_has found (t # ts) expected =
     (let t = trim t
      in if \<not> is_http_token t then Inl Malformed_Token_List
         else token_list_has (found \<or> eq_ignore_case t expected) ts expected)"

definition header_has_token :: "string \<Rightarrow> string \<Rightarrow> request_error + bool" where
  "header_has_token v expected = token_list_has False (split_char (CHR '','') v) expected"

definition is_ascii_whitespace :: "char \<Rightarrow> bool" where
  "is_ascii_whitespace c \<longleftrightarrow> c \<in> {CHR 0x09, CHR 0x0A, CHR 0x0C, CHR 0x0D, CHR 0x20}"

definition host_name_char :: "char \<Rightarrow> bool" where
  "host_name_char c \<longleftrightarrow> is_digit c \<or> is_upper c \<or> is_lower c \<or> c = CHR ''.'' \<or> c = CHR ''-''"

definition normalize_host_authority :: "string \<Rightarrow> request_error + string" where
  "normalize_host_authority v =
     (let authority = trim v
      in if authority = [] \<or> \<not> list_all (\<lambda>c. (of_char c :: nat) < 128) authority
            \<or> list_ex (\<lambda>c. is_ascii_whitespace c \<or> c \<in> {CHR ''/'', CHR 0x5C, CHR ''@''}) authority
         then Inl Invalid_Host_Authority
         else (let parts = split_char (CHR '':'') authority;
                   hostname = rev (dropWhile (\<lambda>c. c = CHR ''.'') (rev (hd parts)))
               in if (case tl parts of
                        [] \<Rightarrow> False
                      | port # others \<Rightarrow> others \<noteq> [] \<or> port = [] \<or> \<not> list_all is_digit port
                          \<or> \<not> (digits_val port < 2 ^ 16 \<and> digits_val port > 0))
                  then Inl Invalid_Host_Port
                  else if hostname = [] \<or> starts_with ''.'' hostname \<or> str_includes ''..'' hostname \<or> \<not> list_all host_name_char hostname
                  then Inl Invalid_Host_Name
                  else Inr (to_lower hostname)))"


subsection \<open>The plan\<close>

record head_state =
  content_length :: "nat option"
  transfer_encoding :: "string option"
  expect :: "string option"
  host_count :: nat
  host :: "string option"
  host_authority :: string
  connection :: "string option"
  upgrade :: "string option"
  websocket_key :: "string option"
  websocket_version :: "string option"
  websocket_protocol_seen :: bool
  websocket_extensions_seen :: bool
  websocket_header_seen :: bool
  rewritten :: string

definition initial_head :: "string \<Rightarrow> head_state" where
  "initial_head request_line =
     \<lparr>content_length = None, transfer_encoding = None, expect = None, host_count = 0, host = None, host_authority = [],
      connection = None, upgrade = None, websocket_key = None, websocket_version = None, websocket_protocol_seen = False,
      websocket_extensions_seen = False, websocket_header_seen = False, rewritten = request_line @ CRLF\<rparr>"

definition host_field :: "string \<Rightarrow> string \<Rightarrow> head_state \<Rightarrow> request_error + head_state" where
  "host_field name v st =
     (if eq_ignore_case name ''host''
      then bind_res (normalize_host_authority v) (\<lambda>h.
        Inr (st\<lparr>host_count := host_count st + 1, host := Some h, host_authority := trim v\<rparr>))
      else Inr st)"

definition content_length_field :: "string \<Rightarrow> string \<Rightarrow> head_state \<Rightarrow> request_error + head_state" where
  "content_length_field name v st =
     (if eq_ignore_case name ''content-length''
      then if content_length st \<noteq> None then Inl Duplicate_Content_Length
           else (let v = trim v
                 in if v = [] \<or> \<not> list_all is_digit v then Inl Invalid_Content_Length
                    else if digits_val v \<ge> 2 ^ 64 then Inl Invalid_Content_Length
                    else if digits_val v > MAX_REQUEST_BODY_BYTES then Inl Content_Too_Large
                    else Inr (st\<lparr>content_length := Some (digits_val v)\<rparr>))
      else Inr st)"

definition websocket_field :: "string \<Rightarrow> string \<Rightarrow> head_state \<Rightarrow> request_error + head_state" where
  "websocket_field name v st =
     (if eq_ignore_case name ''sec-websocket-key'' then
        if websocket_key st \<noteq> None then Inl Duplicate_Websocket_Key
        else Inr (st\<lparr>websocket_key := Some (trim v), websocket_header_seen := True\<rparr>)
      else if eq_ignore_case name ''sec-websocket-version'' then
        if websocket_version st \<noteq> None then Inl Duplicate_Websocket_Version
        else Inr (st\<lparr>websocket_version := Some (trim v), websocket_header_seen := True\<rparr>)
      else if eq_ignore_case name ''sec-websocket-protocol'' then
        if websocket_protocol_seen st then Inl Duplicate_Websocket_Protocol
        else Inr (st\<lparr>websocket_protocol_seen := True, websocket_header_seen := True\<rparr>)
      else if eq_ignore_case name ''sec-websocket-extensions'' then
        if websocket_extensions_seen st then Inl Duplicate_Websocket_Extensions
        else Inr (st\<lparr>websocket_extensions_seen := True, websocket_header_seen := True\<rparr>)
      else if eq_ignore_case name ''sec-websocket-accept'' then Inl Websocket_Accept_Forbidden
      else Inr st)"

definition header_field :: "string \<Rightarrow> string \<Rightarrow> string \<Rightarrow> head_state \<Rightarrow> request_error + head_state" where
  "header_field l name v st =
     (if eq_ignore_case name ''transfer-encoding'' then
        if transfer_encoding st \<noteq> None then Inl Duplicate_Transfer_Encoding
        else Inr (st\<lparr>transfer_encoding := Some (trim v)\<rparr>)
      else if eq_ignore_case name ''expect'' then
        if expect st \<noteq> None then Inl Duplicate_Expect else Inr (st\<lparr>expect := Some (trim v)\<rparr>)
      else if is_forwarding_header name \<or> is_folded_alias_of_proxy_header name then Inr st
      else bind_res (content_length_field name v st) (\<lambda>st.
        if eq_ignore_case name ''connection'' then
          if connection st \<noteq> None then Inl Duplicate_Connection else Inr (st\<lparr>connection := Some (trim v)\<rparr>)
        else if eq_ignore_case name ''upgrade'' then
          if upgrade st \<noteq> None then Inl Duplicate_Upgrade
          else Inr (st\<lparr>upgrade := Some (trim v), websocket_header_seen := True\<rparr>)
        else bind_res (websocket_field name v st) (\<lambda>st.
          if eq_ignore_case name ''proxy-connection'' \<or> eq_ignore_case name ''keep-alive'' then Inr st
          else Inr (st\<lparr>rewritten := rewritten st @ l @ CRLF\<rparr>))))"

definition header_line :: "string \<Rightarrow> head_state \<Rightarrow> request_error + head_state" where
  "header_line l st =
     (case split_once (CHR '':'') l of
        None \<Rightarrow> Inl Malformed_Header
      | Some (name, v) \<Rightarrow>
          if \<not> is_http_token name then Inl Malformed_Header_Name
          else if invalid_header_value v then Inl Malformed_Header_Value
          else bind_res (host_field name v st) (header_field l name v))"

fun header_lines :: "string list \<Rightarrow> head_state \<Rightarrow> request_error + head_state" where
  "header_lines [] st = Inr st"
| "header_lines (l # ls) st = (if l = [] then Inr st else bind_res (header_line l st) (header_lines ls))"

text \<open>What follows the loop: the framing, the expectation and the upgrade.\<close>

definition request_framing :: "string \<Rightarrow> head_state \<Rightarrow> request_error + bool" where
  "request_framing version st =
     (if host_count st \<noteq> 1 then Inl Not_One_Host
      else bind_res (case transfer_encoding st of
             None \<Rightarrow> Inr False
           | Some v \<Rightarrow> if eq_ignore_case v ''chunked'' then Inr True else Inl Unsupported_Transfer_Encoding)
        (\<lambda>chunked. if chunked \<and> content_length st \<noteq> None then Inl Two_Framings
                   else if chunked \<and> version \<noteq> ''HTTP/1.1'' then Inl Chunked_Needs_11
                   else Inr chunked))"

definition expects_continue :: "string \<Rightarrow> head_state \<Rightarrow> request_error + bool" where
  "expects_continue version st =
     (case expect st of
        None \<Rightarrow> Inr False
      | Some v \<Rightarrow> if eq_ignore_case v ''100-continue'' then Inr (version = ''HTTP/1.1'') else Inl Unsupported_Expect)"

definition websocket_handshake ::
  "(string \<Rightarrow> string option) \<Rightarrow> (string \<Rightarrow> string) \<Rightarrow> string \<times> string \<times> string \<Rightarrow> bool \<Rightarrow> bool \<Rightarrow> head_state \<Rightarrow> request_error + string" where
  "websocket_handshake base64_decode derive_accept_key rl chunked connection_has_upgrade st =
     (case rl of (method, target, version) \<Rightarrow>
      if method \<noteq> ''GET'' \<or> version \<noteq> ''HTTP/1.1'' \<or> \<not> starts_with ''/'' target then Inl Websocket_Needs_Get
      else if content_length st \<noteq> None \<or> chunked then Inl Websocket_With_Body
      else if expect st \<noteq> None then Inl Websocket_With_Expect
      else if \<not> connection_has_upgrade then Inl Websocket_Token_Missing
      else if (case upgrade st of None \<Rightarrow> True | Some v \<Rightarrow> \<not> eq_ignore_case v ''websocket'') then Inl Not_Websocket
      else if websocket_version st \<noteq> Some ''13'' then Inl Websocket_Version_Unsupported
      else (case websocket_key st of
              None \<Rightarrow> Inl Websocket_Key_Missing
            | Some k \<Rightarrow>
                (case base64_decode k of
                   None \<Rightarrow> Inl Websocket_Key_Invalid
                 | Some d \<Rightarrow> if length d \<noteq> 16 then Inl Websocket_Key_Invalid else Inr (derive_accept_key k))))"

definition mode_head ::
  "(string \<Rightarrow> string option) \<Rightarrow> (string \<Rightarrow> string) \<Rightarrow> client_context \<Rightarrow> string \<times> string \<times> string \<Rightarrow> bool \<Rightarrow> bool \<Rightarrow> head_state
     \<Rightarrow> request_error + string \<times> request_mode" where
  "mode_head base64_decode derive_accept_key client rl chunked connection_has_upgrade st =
     (let head = rewritten st @ forwarding_headers client (host_authority st)
      in if websocket_header_seen st \<or> upgrade st \<noteq> None \<or> connection_has_upgrade
         then bind_res (websocket_handshake base64_decode derive_accept_key rl chunked connection_has_upgrade st) (\<lambda>accept.
           Inr (head @ ''Upgrade: websocket'' @ CRLF @ ''Connection: Upgrade'' @ CRLF @ CRLF, Web_Socket accept))
         else Inr (head @ (if chunked then ''Transfer-Encoding: chunked'' @ CRLF else []) @ ''Connection: close'' @ CRLF @ CRLF,
                   if chunked then Chunked_Body else Fixed_Body (case content_length st of None \<Rightarrow> 0 | Some n \<Rightarrow> n)))"

definition finish_plan ::
  "(string \<Rightarrow> string option) \<Rightarrow> (string \<Rightarrow> string) \<Rightarrow> client_context \<Rightarrow> string \<times> string \<times> string \<Rightarrow> head_state
     \<Rightarrow> request_error + planned_request" where
  "finish_plan base64_decode derive_accept_key client rl st =
     bind_res (request_framing (snd (snd rl)) st) (\<lambda>chunked.
     bind_res (expects_continue (snd (snd rl)) st) (\<lambda>expect_continue.
     bind_res (case connection st of None \<Rightarrow> Inr False | Some v \<Rightarrow> header_has_token v ''upgrade'') (\<lambda>connection_has_upgrade.
     bind_res (mode_head base64_decode derive_accept_key client rl chunked connection_has_upgrade st) (\<lambda>(header, mode).
       let has_body = (case mode of Fixed_Body n \<Rightarrow> n > 0 | Chunked_Body \<Rightarrow> True | Web_Socket _ \<Rightarrow> False)
       in case host st of
            None \<Rightarrow> Inl Host_Missing
          | Some h \<Rightarrow> Inr \<lparr>plan_host = h, plan_header = header, plan_mode = mode, plan_expect_continue = expect_continue \<and> has_body\<rparr>))))"

definition request_plan ::
  "(string \<Rightarrow> string option) \<Rightarrow> (string \<Rightarrow> string) \<Rightarrow> string \<Rightarrow> client_context \<Rightarrow> request_error + planned_request" where
  "request_plan base64_decode derive_accept_key header client =
     (if \<not> valid_utf8 header then Inl Not_Utf8
      else (case split_crlf header of
          [] \<Rightarrow> Inl Missing_Request_Line
        | request_line # ls \<Rightarrow>
            if request_line = [] then Inl Missing_Request_Line
            else bind_res (parse_request_line request_line) (\<lambda>rl.
              if eq_ignore_case (fst rl) ''CONNECT'' then Inl Connect_Disabled
              else bind_res (header_lines ls (initial_head request_line)) (finish_plan base64_decode derive_accept_key client rl))))"

definition initial_body_bytes_allowed :: "nat \<Rightarrow> nat \<Rightarrow> bool" where
  "initial_body_bytes_allowed len received \<longleftrightarrow> received \<le> len"


subsection \<open>How a server reads a head\<close>

fun read_fields :: "string list \<Rightarrow> (string \<times> string) list option" where
  "read_fields [] = None"
| "read_fields (l # ls) =
     (if l = [] then Some []
      else (case split_once (CHR '':'') l of
          None \<Rightarrow> None
        | Some f \<Rightarrow> map_option (\<lambda>fs. f # fs) (read_fields ls)))"

definition read_head :: "string \<Rightarrow> (string \<times> (string \<times> string) list) option" where
  "read_head t = (case split_crlf t of [] \<Rightarrow> None | rl # ls \<Rightarrow> map_option (Pair rl) (read_fields ls))"

definition named :: "string \<Rightarrow> (string \<times> string) list \<Rightarrow> string list" where
  "named k fs = map snd (filter (\<lambda>f. fold_header_name (fst f) = k) fs)"

definition field_text :: "string \<times> string \<Rightarrow> string" where
  "field_text f = fst f @ CHR '':'' # snd f @ CRLF"

definition head_text :: "string \<Rightarrow> (string \<times> string) list \<Rightarrow> string" where
  "head_text rl fs = rl @ CRLF @ concat (map field_text fs) @ CRLF"

definition field_ok :: "string \<times> string \<Rightarrow> bool" where
  "field_ok f \<longleftrightarrow> is_http_token (fst f) \<and> \<not> invalid_header_value (snd f)"

lemma named_simps [simp]:
  "named k [] = []"
  "named k (f # fs) = (if fold_header_name (fst f) = k then [snd f] else []) @ named k fs"
  "named k (fs @ gs) = named k fs @ named k gs"
  by (simp_all add: named_def)

lemma token_chars: "is_http_token v \<Longrightarrow> c \<in> set v \<Longrightarrow> c \<noteq> CR \<and> c \<noteq> LF \<and> c \<noteq> CHR '':'' \<and> c \<noteq> CHR '' ''"
  by (auto simp: is_http_token_def list_all_iff token_char_def char_class_defs CR_def LF_def)

lemma valid_value_chars: "\<not> invalid_header_value v \<Longrightarrow> c \<in> set v \<Longrightarrow> c \<noteq> CR \<and> c \<noteq> LF"
  by (auto simp: invalid_header_value_def list_ex_iff)

lemma split_crlf_line: "LF \<notin> set l \<Longrightarrow> split_crlf (l @ CRLF @ r) = l # split_crlf r"
proof (induction l rule: split_crlf.induct)
  case (3 c d l)
  then show ?case by (auto simp: CRLF_def split: list.splits)
qed (auto simp: CRLF_def)

lemma split_once_field: "is_http_token name \<Longrightarrow> split_once (CHR '':'') (name @ CHR '':'' # v) = Some (name, v)"
  using token_chars [of name "CHR '':''"] by (auto simp: split_once_Some)

lemma read_fields_text:
  assumes "\<forall>f \<in> set fs. field_ok f"
  shows "read_fields (split_crlf (concat (map field_text fs) @ CRLF @ r)) = Some fs"
  using assms
proof (induction fs)
  case Nil
  then show ?case using split_crlf_line [of "[]" r] by simp
next
  case (Cons f fs)
  have ok: "is_http_token (fst f)" "\<not> invalid_header_value (snd f)" using Cons.prems by (simp_all add: field_ok_def)
  have "LF \<notin> set (fst f @ CHR '':'' # snd f)" using token_chars [OF ok(1)] valid_value_chars [OF ok(2)] by (auto simp: LF_def)
  from split_crlf_line [OF this] have "split_crlf (concat (map field_text (f # fs)) @ CRLF @ r)
      = (fst f @ CHR '':'' # snd f) # split_crlf (concat (map field_text fs) @ CRLF @ r)" by (simp add: field_text_def)
  then show ?case using Cons split_once_field [OF ok(1)] by simp
qed

lemma read_head_text: "LF \<notin> set rl \<Longrightarrow> \<forall>f \<in> set fs. field_ok f \<Longrightarrow> read_head (head_text rl fs) = Some (rl, fs)"
  using read_fields_text [of fs "[]"] split_crlf_line [of rl] by (simp add: read_head_def head_text_def)

text \<open>Trimming only drops characters.\<close>

lemma strip_all_suffix: "\<exists>p. s = p @ strip_all ws s"
proof (induction ws s rule: strip_all.induct)
  case (1 ws s)
  show ?case
  proof (cases "find (\<lambda>w. w \<noteq> [] \<and> starts_with w s) ws")
    case None
    then show ?thesis by (simp add: strip_all.simps [of ws s])
  next
    case (Some w)
    then show ?thesis using 1 [OF Some] by (simp add: strip_all.simps [of ws s]) (metis append.assoc append_take_drop_id)
  qed
qed

lemma trim_infix: "\<exists>p q. s = p @ trim s @ q"
proof -
  obtain p where p: "s = p @ strip_all white_space s" using strip_all_suffix by blast
  obtain q where q: "rev (strip_all white_space s) = q @ strip_all (map rev white_space) (rev (strip_all white_space s))"
    using strip_all_suffix by blast
  from arg_cong [OF q, of rev] have "strip_all white_space s = trim s @ rev q" by (simp add: trim_def)
  then show ?thesis using p by metis
qed

lemma trim_chars: "set (trim s) \<subseteq> set s"
  using trim_infix [of s] by (metis set_append Un_commute le_sup_iff order_refl sup.cobounded2 sup_assoc)

lemma trim_valid: "\<not> invalid_header_value v \<Longrightarrow> \<not> invalid_header_value (trim v)"
  using trim_chars [of v] by (auto simp: invalid_header_value_def list_ex_iff)


subsection \<open>Folded names\<close>

lemma lower_char_mark: "lower_char c = CHR ''_'' \<longleftrightarrow> c = CHR ''_''" "lower_char c = CHR ''.'' \<longleftrightarrow> c = CHR ''.''"
  by (auto simp: lower_char_def is_upper_def char_of_eq)

lemma fold_plain: "CHR ''_'' \<notin> set n \<Longrightarrow> CHR ''.'' \<notin> set n \<Longrightarrow> fold_header_name n = to_lower n"
  by (auto simp: fold_header_name_def to_lower_def lower_char_mark)

lemma fold_marked: "CHR ''_'' \<in> set n \<or> CHR ''.'' \<in> set n \<Longrightarrow> CHR ''-'' \<in> set (fold_header_name n)"
  using lower_char_mark by (force simp: fold_header_name_def to_lower_def image_iff)

text \<open>A name that folds to \<open>k\<close> is \<open>k\<close> in some capitalisation or has one of the other marks.\<close>

lemma fold_eq:
  assumes "fold_header_name n = k" "to_lower k = k"
  shows "eq_ignore_case n k \<or> (CHR ''_'' \<in> set n \<or> CHR ''.'' \<in> set n)"
proof (rule ccontr)
  assume h: "\<not> ?thesis"
  then have "fold_header_name n = to_lower n" by (intro fold_plain) simp_all
  then show False using h assms by (simp add: eq_ignore_case_def)
qed

lemma fold_same:
  assumes "eq_ignore_case n k" "to_lower k = k" "CHR ''_'' \<notin> set k" "CHR ''.'' \<notin> set k"
  shows "fold_header_name n = k"
proof -
  have "lower_char ` set n = set k" using assms(1,2) by (metis eq_ignore_case_def set_map to_lower_def)
  then have "CHR ''_'' \<notin> set n" "CHR ''.'' \<notin> set n" using lower_char_mark assms(3,4) by (metis image_eqI)+
  then show ?thesis using fold_plain assms(1,2) by (simp add: eq_ignore_case_def)
qed

lemma fold_eq_plain:
  assumes "to_lower k = k" "CHR ''_'' \<notin> set k" "CHR ''.'' \<notin> set k" "CHR ''-'' \<notin> set k"
  shows "fold_header_name n = k \<longleftrightarrow> eq_ignore_case n k"
proof
  assume "fold_header_name n = k"
  then show "eq_ignore_case n k" using fold_eq [OF _ assms(1)] fold_marked assms(4) by blast
qed (use fold_same assms in blast)

lemma plain_names [simp]:
  "fold_header_name n = ''host'' \<longleftrightarrow> eq_ignore_case n ''host''"
  "fold_header_name n = ''expect'' \<longleftrightarrow> eq_ignore_case n ''expect''"
  "fold_header_name n = ''connection'' \<longleftrightarrow> eq_ignore_case n ''connection''"
  "fold_header_name n = ''upgrade'' \<longleftrightarrow> eq_ignore_case n ''upgrade''"
  by (intro fold_eq_plain; code_simp)+

text \<open>The fields the proxy passes on.\<close>

definition passed_on :: "string \<Rightarrow> bool" where
  "passed_on n \<longleftrightarrow> \<not> is_forwarding_header n \<and> fold_header_name n \<notin> {''transfer-encoding'', ''expect'', ''connection'', ''upgrade'', ''proxy-connection'', ''keep-alive''}"

lemma passed_on_intro:
  assumes "\<not> is_forwarding_header n" "\<not> is_folded_alias_of_proxy_header n"
    "\<not> eq_ignore_case n ''transfer-encoding''" "\<not> eq_ignore_case n ''expect''" "\<not> eq_ignore_case n ''connection''"
    "\<not> eq_ignore_case n ''upgrade''" "\<not> eq_ignore_case n ''proxy-connection''" "\<not> eq_ignore_case n ''keep-alive''"
  shows "passed_on n"
proof -
  have "fold_header_name n \<noteq> k" if "k \<in> {''transfer-encoding'', ''proxy-connection'', ''keep-alive''}" for k
  proof
    assume f: "fold_header_name n = k"
    have "to_lower k = k" using that by (elim insertE emptyE; simp only:; code_simp)
    then have "CHR ''_'' \<in> set n \<or> CHR ''.'' \<in> set n" using fold_eq [OF f] that assms by blast
    then show False using assms(2) f that by (auto simp: is_folded_alias_of_proxy_header_def)
  qed
  then show ?thesis using assms by (auto simp: passed_on_def)
qed

lemma content_length_name:
  assumes "\<not> is_folded_alias_of_proxy_header n"
  shows "fold_header_name n = ''content-length'' \<longleftrightarrow> eq_ignore_case n ''content-length''"
proof
  assume f: "fold_header_name n = ''content-length''"
  have "to_lower ''content-length'' = ''content-length''" by code_simp
  from fold_eq [OF f this] show "eq_ignore_case n ''content-length''" using assms f by (auto simp: is_folded_alias_of_proxy_header_def)
next
  assume "eq_ignore_case n ''content-length''"
  then show "fold_header_name n = ''content-length''" by (rule fold_same; code_simp)
qed


subsection \<open>The fields passed on\<close>

lemma lower_names:
  "to_lower ''host'' = ''host''" "to_lower ''transfer-encoding'' = ''transfer-encoding''" "to_lower ''expect'' = ''expect''"
  "to_lower ''content-length'' = ''content-length''" "to_lower ''connection'' = ''connection''" "to_lower ''upgrade'' = ''upgrade''"
  "to_lower ''proxy-connection'' = ''proxy-connection''" "to_lower ''keep-alive'' = ''keep-alive''"
  by code_simp+

lemma websocket_field_keeps:
  assumes "websocket_field name v st = Inr st'"
  shows "rewritten st' = rewritten st \<and> content_length st' = content_length st \<and> host_count st' = host_count st \<and> host st' = host st
     \<and> host_authority st' = host_authority st"
  using assms by (auto simp: websocket_field_def split: if_splits)

lemma content_length_field_keeps:
  assumes "content_length_field name v st = Inr st'"
  shows "rewritten st' = rewritten st \<and> host_count st' = host_count st \<and> host st' = host st \<and> host_authority st' = host_authority st"
    and "\<not> eq_ignore_case name ''content-length'' \<Longrightarrow> st' = st"
    and "eq_ignore_case name ''content-length'' \<Longrightarrow> content_length st = None \<and> trim v \<noteq> [] \<and> list_all is_digit (trim v)
       \<and> content_length st' = Some (digits_val (trim v)) \<and> digits_val (trim v) \<le> MAX_REQUEST_BODY_BYTES"
  using assms by (auto simp: content_length_field_def Let_def split: if_splits)

text \<open>A field is dropped, and then it is not the host, or it is passed on.\<close>

lemma not_host_name:
  assumes "is_forwarding_header name \<or> is_folded_alias_of_proxy_header name"
  shows "\<not> eq_ignore_case name ''host''"
proof
  assume "eq_ignore_case name ''host''"
  then have f: "fold_header_name name = ''host''" by simp
  show False using assms unfolding is_forwarding_header_def is_folded_alias_of_proxy_header_def f Let_def by simp
qed

lemma header_field_result:
  assumes "header_field l name v st = Inr st'"
  shows "host_count st' = host_count st \<and> host st' = host st \<and> host_authority st' = host_authority st \<and>
     ((rewritten st' = rewritten st \<and> content_length st' = content_length st \<and> \<not> eq_ignore_case name ''host'')
       \<or> (passed_on name \<and> \<not> is_folded_alias_of_proxy_header name \<and> rewritten st' = rewritten st @ l @ CRLF
          \<and> (\<exists>st1. content_length_field name v st = Inr st1 \<and> content_length st' = content_length st1)))"
proof (cases "eq_ignore_case name ''transfer-encoding'' \<or> eq_ignore_case name ''expect''
    \<or> is_forwarding_header name \<or> is_folded_alias_of_proxy_header name")
  case True
  then have "\<not> eq_ignore_case name ''host''" using not_host_name by (auto simp: eq_ignore_case_def lower_names)
  then show ?thesis using assms True by (auto simp: header_field_def split: if_splits)
next
  case False
  then obtain st1 where c: "content_length_field name v st = Inr st1" using assms
    by (cases "content_length_field name v st") (auto simp: header_field_def res_simps)
  have r: "(if eq_ignore_case name ''connection'' then
          if connection st1 \<noteq> None then Inl Duplicate_Connection else Inr (st1\<lparr>connection := Some (trim v)\<rparr>)
        else if eq_ignore_case name ''upgrade'' then
          if upgrade st1 \<noteq> None then Inl Duplicate_Upgrade
          else Inr (st1\<lparr>upgrade := Some (trim v), websocket_header_seen := True\<rparr>)
        else bind_res (websocket_field name v st1) (\<lambda>st.
          if eq_ignore_case name ''proxy-connection'' \<or> eq_ignore_case name ''keep-alive'' then Inr st
          else Inr (st\<lparr>rewritten := rewritten st @ l @ CRLF\<rparr>))) = Inr st'"
    using assms False c by (simp add: header_field_def res_simps)
  note keeps = content_length_field_keeps [OF c]
  show ?thesis
  proof (cases "eq_ignore_case name ''connection'' \<or> eq_ignore_case name ''upgrade''")
    case True
    then have "\<not> eq_ignore_case name ''host''" "\<not> eq_ignore_case name ''content-length''"
      by (auto simp: eq_ignore_case_def lower_names)
    then show ?thesis using r True keeps by (auto split: if_splits)
  next
    case no: False
    then obtain st2 where w: "websocket_field name v st1 = Inr st2" using r
      by (cases "websocket_field name v st1") (auto simp: res_simps)
    note wk = websocket_field_keeps [OF w]
    show ?thesis
    proof (cases "eq_ignore_case name ''proxy-connection'' \<or> eq_ignore_case name ''keep-alive''")
      case True
      then have "\<not> eq_ignore_case name ''host''" "\<not> eq_ignore_case name ''content-length''"
        by (auto simp: eq_ignore_case_def lower_names)
      then show ?thesis using r no w True keeps wk by (auto simp: res_simps)
    next
      case last: False
      have "passed_on name" using passed_on_intro False no last by blast
      moreover have "st' = st2\<lparr>rewritten := rewritten st2 @ l @ CRLF\<rparr>" using r no w last by (simp add: res_simps)
      ultimately show ?thesis using False keeps(1) wk c by auto
    qed
  qed
qed

text \<open>The head written so far, for the fields passed on so far.\<close>

definition length_agrees :: "nat option \<Rightarrow> string list \<Rightarrow> bool" where
  "length_agrees len vs \<longleftrightarrow>
     (case len of
        None \<Rightarrow> vs = []
      | Some n \<Rightarrow> \<exists>v. vs = [v] \<and> trim v \<noteq> [] \<and> list_all is_digit (trim v) \<and> digits_val (trim v) = n \<and> n \<le> MAX_REQUEST_BODY_BYTES)"

definition host_agrees :: "head_state \<Rightarrow> string list \<Rightarrow> bool" where
  "host_agrees st vs \<longleftrightarrow> host_count st = length vs
     \<and> (vs = [] \<or> (\<exists>h. normalize_host_authority (last vs) = Inr h \<and> host st = Some h \<and> host_authority st = trim (last vs)))"

definition head_inv :: "string \<Rightarrow> head_state \<Rightarrow> (string \<times> string) list \<Rightarrow> bool" where
  "head_inv rl st fs \<longleftrightarrow> rewritten st = rl @ CRLF @ concat (map field_text fs)
     \<and> (\<forall>f \<in> set fs. field_ok f \<and> passed_on (fst f))
     \<and> length_agrees (content_length st) (named ''content-length'' fs) \<and> host_agrees st (named ''host'' fs)"

lemma host_field_result:
  assumes "host_field name v st = Inr st'"
  shows "rewritten st' = rewritten st \<and> content_length st' = content_length st"
    and "\<not> eq_ignore_case name ''host'' \<Longrightarrow> st' = st"
    and "eq_ignore_case name ''host'' \<Longrightarrow> host_agrees st vs \<Longrightarrow> host_agrees st' (vs @ [v])"
  using assms by (auto simp: host_field_def res_simps host_agrees_def split: if_splits sum.splits)

lemma head_inv_initial: "head_inv rl (initial_head rl) []"
  by (simp add: head_inv_def initial_head_def length_agrees_def host_agrees_def)

lemma header_line_step:
  assumes "header_line l st = Inr st'" "head_inv rl st fs"
  shows "\<exists>fs'. head_inv rl st' fs'"
proof -
  obtain name v st1 where h: "split_once (CHR '':'') l = Some (name, v)" "is_http_token name" "\<not> invalid_header_value v"
    "host_field name v st = Inr st1" "header_field l name v st1 = Inr st'"
    using assms(1) by (auto simp: header_line_def res_simps split: option.splits if_splits)
  have l: "l @ CRLF = field_text (name, v)" using h(1) by (auto simp: split_once_Some field_text_def)
  note i = assms(2) [unfolded head_inv_def]
  note host = host_field_result [OF h(4)] and r = header_field_result [OF h(5)]
  show ?thesis
  proof (cases "rewritten st' = rewritten st1 \<and> content_length st' = content_length st1 \<and> \<not> eq_ignore_case name ''host''")
    case True
    then have "head_inv rl st' fs" using i host(2) r by (simp add: head_inv_def host_agrees_def)
    then show ?thesis ..
  next
    case False
    then obtain st2 where k: "passed_on name" "\<not> is_folded_alias_of_proxy_header name" "rewritten st' = rewritten st1 @ l @ CRLF"
      "content_length_field name v st1 = Inr st2" "content_length st' = content_length st2" using r by blast
    have "rewritten st' = rl @ CRLF @ concat (map field_text (fs @ [(name, v)]))" using i host(1) k(3) l by simp
    moreover have "\<forall>f \<in> set (fs @ [(name, v)]). field_ok f \<and> passed_on (fst f)" using i h(2,3) k(1) by (simp add: field_ok_def)
    moreover have "length_agrees (content_length st') (named ''content-length'' (fs @ [(name, v)]))"
      using i host(1) k(5) content_length_name [OF k(2)] content_length_field_keeps [OF k(4)]
      by (cases "eq_ignore_case name ''content-length''") (auto simp: length_agrees_def)
    moreover have "host_agrees st' (named ''host'' (fs @ [(name, v)]))"
      using i host(2,3) r by (cases "eq_ignore_case name ''host''") (auto simp: host_agrees_def)
    ultimately show ?thesis unfolding head_inv_def by blast
  qed
qed

lemma header_lines_inv: "header_lines ls st = Inr st' \<Longrightarrow> head_inv rl st fs \<Longrightarrow> \<exists>fs'. head_inv rl st' fs'"
proof (induction ls arbitrary: st fs)
  case Nil
  then show ?case by auto
next
  case (Cons l ls)
  show ?case
  proof (cases "l = []")
    case True
    then show ?thesis using Cons.prems by auto
  next
    case False
    then obtain st1 where "header_line l st = Inr st1" "header_lines ls st1 = Inr st'" using Cons.prems(1) by (auto simp: res_simps)
    then show ?thesis using header_line_step Cons.prems(2) Cons.IH by blast
  qed
qed


subsection \<open>The head the upstream gets\<close>

definition proxy_fields :: "client_context \<Rightarrow> string \<Rightarrow> (string \<times> string) list" where
  "proxy_fields client authority =
     (let ip = show_ip (to_canonical (peer_ip client))
      in [(''X-Forwarded-For'', '' '' @ ip), (''X-Forwarded-Proto'', if https client then '' https'' else '' http''),
          (''X-Forwarded-Host'', '' '' @ authority), (''X-Real-IP'', '' '' @ ip)])"

fun mode_fields :: "request_mode \<Rightarrow> (string \<times> string) list" where
  "mode_fields (Fixed_Body n) = [(''Connection'', '' close'')]"
| "mode_fields Chunked_Body = [(''Transfer-Encoding'', '' chunked''), (''Connection'', '' close'')]"
| "mode_fields (Web_Socket accept) = [(''Upgrade'', '' websocket''), (''Connection'', '' Upgrade'')]"

lemma forwarding_headers_text: "forwarding_headers client authority = concat (map field_text (proxy_fields client authority))"
  by (simp add: forwarding_headers_def proxy_fields_def field_text_def Let_def)

lemma mode_fields_text:
  "concat (map field_text (mode_fields (Fixed_Body n))) = ''Connection: close'' @ CRLF"
  "concat (map field_text (mode_fields Chunked_Body)) = ''Transfer-Encoding: chunked'' @ CRLF @ ''Connection: close'' @ CRLF"
  "concat (map field_text (mode_fields (Web_Socket a))) = ''Upgrade: websocket'' @ CRLF @ ''Connection: Upgrade'' @ CRLF"
  by (simp_all add: field_text_def)

text \<open>What the framing of the plan says about the fields.\<close>

definition mode_agrees :: "head_state \<Rightarrow> request_mode \<Rightarrow> bool" where
  "mode_agrees st mode \<longleftrightarrow>
     (case mode of
        Fixed_Body n \<Rightarrow> n = (case content_length st of None \<Rightarrow> 0 | Some k \<Rightarrow> k)
      | _ \<Rightarrow> content_length st = None)"

lemma request_framing_result:
  assumes "request_framing version st = Inr chunked"
  shows "host_count st = 1" "chunked \<Longrightarrow> content_length st = None"
  using assms by (auto simp: request_framing_def res_simps split: if_splits option.splits)

lemma websocket_handshake_result:
  "websocket_handshake d a rl chunked c st = Inr k \<Longrightarrow> content_length st = None"
  by (auto simp: websocket_handshake_def split: prod.splits if_splits)

lemma mode_head_result:
  assumes "mode_head d a client rl chunked has st = Inr (header, mode)" "chunked \<Longrightarrow> content_length st = None"
  shows "mode_agrees st mode"
    and "header = rewritten st @ concat (map field_text (proxy_fields client (host_authority st) @ mode_fields mode)) @ CRLF"
proof -
  have "mode_agrees st mode \<and> header = (rewritten st @ forwarding_headers client (host_authority st)) @ concat (map field_text (mode_fields mode)) @ CRLF"
  proof (cases "websocket_header_seen st \<or> upgrade st \<noteq> None \<or> has")
    case True
    then obtain k where "websocket_handshake d a rl chunked has st = Inr k" "mode = Web_Socket k"
      "header = (rewritten st @ forwarding_headers client (host_authority st)) @ ''Upgrade: websocket'' @ CRLF @ ''Connection: Upgrade'' @ CRLF @ CRLF"
      using assms(1) unfolding mode_head_def Let_def if_P [OF True] bind_res_Inr by auto
    then show ?thesis using websocket_handshake_result by (simp add: mode_fields_text mode_agrees_def del: mode_fields.simps)
  next
    case False
    show ?thesis using assms unfolding mode_head_def Let_def if_not_P [OF False] Inr_inject prod.inject
      by (cases chunked) (auto simp: mode_fields_text mode_agrees_def simp del: mode_fields.simps)
  qed
  then show "mode_agrees st mode"
    "header = rewritten st @ concat (map field_text (proxy_fields client (host_authority st) @ mode_fields mode)) @ CRLF"
    unfolding map_append concat_append forwarding_headers_text [symmetric] by simp_all
qed

lemma finish_plan_result:
  assumes "finish_plan d a client rl st = Inr p"
  shows "host_count st = 1" "host st = Some (plan_host p)" "mode_agrees st (plan_mode p)"
    "plan_header p = rewritten st @ concat (map field_text (proxy_fields client (host_authority st) @ mode_fields (plan_mode p))) @ CRLF"
proof -
  obtain chunked has where
    f: "request_framing (snd (snd rl)) st = Inr chunked" and
    m: "mode_head d a client rl chunked has st = Inr (plan_header p, plan_mode p)" and
    p: "host st = Some (plan_host p)"
    using assms unfolding finish_plan_def bind_res_Inr Let_def by (auto split: option.splits)
  show "host_count st = 1" using request_framing_result [OF f] by simp
  show "host st = Some (plan_host p)" by (fact p)
  show "mode_agrees st (plan_mode p)"
    "plan_header p = rewritten st @ concat (map field_text (proxy_fields client (host_authority st) @ mode_fields (plan_mode p))) @ CRLF"
    using mode_head_result [OF m] request_framing_result(2) [OF f] by blast+
qed

text \<open>The characters of the request line and of the proxy's own fields.\<close>

lemma request_line_plain:
  assumes "parse_request_line l = Inr rl"
  shows "LF \<notin> set l"
proof -
  obtain m t v where s: "split_char (CHR '' '') l = [m, t, v]" and
    c: "is_http_token m" "list_all is_ascii_graphic t" "v = ''HTTP/1.0'' \<or> v = ''HTTP/1.1''"
    using assms by (auto simp: parse_request_line_def split: list.splits if_splits)
  have "l = m @ '' '' @ t @ '' '' @ v" using join_split [of "CHR '' ''" l] s by simp
  moreover have "LF \<notin> set t" using c(2) by (auto simp: list_all_iff is_ascii_graphic_def LF_def)
  ultimately show ?thesis using token_chars [OF c(1)] c(3) by (auto simp: LF_def)
qed

lemma address_valid: "\<not> invalid_header_value ('' '' @ show_ip a)"
proof -
  have "\<not> bad_value_char c" if "address_char c" for c
    using that by (auto simp: address_char_def bad_value_char_def char_class_defs split: if_splits)
  moreover have "\<not> bad_value_char (CHR '' '')" by code_simp
  ultimately show ?thesis using show_ip_chars [of a] by (auto simp: invalid_header_value_def list_ex_iff list_all_iff)
qed

lemma proxy_fields_ok:
  assumes "\<not> invalid_header_value authority" "f \<in> set (proxy_fields client authority @ mode_fields mode)"
  shows "field_ok f"
proof -
  have t: "is_http_token ''X-Forwarded-For''" "is_http_token ''X-Forwarded-Proto''" "is_http_token ''X-Forwarded-Host''"
    "is_http_token ''X-Real-IP''" "is_http_token ''Connection''" "is_http_token ''Transfer-Encoding''" "is_http_token ''Upgrade''"
    by code_simp+
  have v: "\<not> invalid_header_value '' https''" "\<not> invalid_header_value '' http''" "\<not> invalid_header_value '' close''"
    "\<not> invalid_header_value '' chunked''" "\<not> invalid_header_value '' websocket''" "\<not> invalid_header_value '' Upgrade''"
    "\<not> invalid_header_value '' ''" by code_simp+
  have "\<not> invalid_header_value ('' '' @ authority)" using assms(1) v(7) by (simp add: invalid_header_value_def)
  then show ?thesis using assms(2) t v address_valid
    by (cases mode) (auto simp: proxy_fields_def field_ok_def Let_def split: if_splits)
qed

lemma named_member: "v \<in> set (named k fs) \<Longrightarrow> \<exists>f \<in> set fs. snd f = v"
  by (auto simp: named_def)

text \<open>The fields \<open>fs\<close> of the client, with its host \<open>v\<close>, behind a planned head.\<close>

definition planned_head :: "client_context \<Rightarrow> planned_request \<Rightarrow> string \<Rightarrow> (string \<times> string) list \<Rightarrow> string \<Rightarrow> bool" where
  "planned_head client p rl fs v \<longleftrightarrow> (\<forall>f \<in> set fs. field_ok f \<and> passed_on (fst f))
     \<and> named ''host'' fs = [v] \<and> normalize_host_authority v = Inr (plan_host p)
     \<and> (case plan_mode p of
          Fixed_Body n \<Rightarrow> length_agrees (if named ''content-length'' fs = [] then None else Some n) (named ''content-length'' fs)
            \<and> (named ''content-length'' fs = [] \<longrightarrow> n = 0)
        | _ \<Rightarrow> named ''content-length'' fs = [])
     \<and> LF \<notin> set rl \<and> plan_header p = head_text rl (fs @ proxy_fields client (trim v) @ mode_fields (plan_mode p))
     \<and> read_head (plan_header p) = Some (rl, fs @ proxy_fields client (trim v) @ mode_fields (plan_mode p))"

lemma plan_reads:
  assumes "request_plan d a header client = Inr p"
  shows "\<exists>rl fs v. planned_head client p rl fs v"
proof -
  obtain rl ls parts st where h: "split_crlf header = rl # ls" "parse_request_line rl = Inr parts"
    "header_lines ls (initial_head rl) = Inr st" "finish_plan d a client parts st = Inr p"
    using assms by (auto simp: request_plan_def res_simps split: if_splits list.splits)
  obtain fs where i: "head_inv rl st fs" using header_lines_inv [OF h(3) head_inv_initial] by blast
  note r = finish_plan_result [OF h(4)] and i = i [unfolded head_inv_def]
  have "length (named ''host'' fs) = 1" using r(1) i by (simp add: host_agrees_def)
  then obtain v where v: "named ''host'' fs = [v]" by (cases "named ''host'' fs") auto
  then have n: "normalize_host_authority v = Inr (plan_host p)" "host_authority st = trim v" using i r(2) by (auto simp: host_agrees_def)
  have "\<exists>f \<in> set fs. snd f = v" using named_member [of v "''host''" fs] v by simp
  then have "\<not> invalid_header_value (trim v)" using i trim_valid field_ok_def by blast
  then have ok: "\<forall>f \<in> set (fs @ proxy_fields client (trim v) @ mode_fields (plan_mode p)). field_ok f"
    using i proxy_fields_ok [of "trim v" _ client "plan_mode p"] by auto
  have t: "plan_header p = head_text rl (fs @ proxy_fields client (trim v) @ mode_fields (plan_mode p))"
    using r(4) i n(2) by (simp add: head_text_def)
  have rl: "LF \<notin> set rl" by (rule request_line_plain [OF h(2)])
  have c: "case plan_mode p of
          Fixed_Body n \<Rightarrow> length_agrees (if named ''content-length'' fs = [] then None else Some n) (named ''content-length'' fs)
            \<and> (named ''content-length'' fs = [] \<longrightarrow> n = 0)
        | _ \<Rightarrow> named ''content-length'' fs = []"
    using i r(3) by (auto simp: mode_agrees_def length_agrees_def split: request_mode.splits option.splits)
  have rh: "read_head (plan_header p) = Some (rl, fs @ proxy_fields client (trim v) @ mode_fields (plan_mode p))"
    unfolding t by (rule read_head_text [OF rl ok])
  have "planned_head client p rl fs v" unfolding planned_head_def
    by (intro conjI v n(1) c rl t rh) (use i in blast)
  then show ?thesis by blast
qed


subsection \<open>What the upstream reads\<close>

lemma fold_literals:
  "fold_header_name ''X-Forwarded-For'' = ''x-forwarded-for''" "fold_header_name ''X-Forwarded-Proto'' = ''x-forwarded-proto''"
  "fold_header_name ''X-Forwarded-Host'' = ''x-forwarded-host''" "fold_header_name ''X-Real-IP'' = ''x-real-ip''"
  "fold_header_name ''Connection'' = ''connection''" "fold_header_name ''Transfer-Encoding'' = ''transfer-encoding''"
  "fold_header_name ''Upgrade'' = ''upgrade''"
  by code_simp+

lemma named_proxy_fields:
  assumes "k \<in> {''transfer-encoding'', ''content-length'', ''connection'', ''expect'', ''upgrade'', ''host''}"
  shows "named k (proxy_fields client authority) = []"
  using assms by (auto simp: proxy_fields_def fold_literals Let_def)

lemma named_dropped:
  assumes "\<forall>f \<in> set fs. field_ok f \<and> passed_on (fst f)" "k \<in> {''transfer-encoding'', ''connection'', ''expect'', ''upgrade''}"
  shows "named k fs = []"
  using assms unfolding named_def passed_on_def by (auto simp: filter_empty_conv)

lemma named_mode_fields:
  "named ''content-length'' (mode_fields mode) = []" "named ''host'' (mode_fields mode) = []" "named ''expect'' (mode_fields mode) = []"
  "length (named ''connection'' (mode_fields mode)) = 1"
  "named ''transfer-encoding'' (mode_fields mode) = (if mode = Chunked_Body then ['' chunked''] else [])"
  by (cases mode; simp add: fold_literals)+

definition example_head :: string where
  "example_head = ''POST /x HTTP/1.1'' @ CRLF @ ''Host: App.'' @ CRLF @ ''X_Real.IP: 1'' @ CRLF
     @ ''Transfer-Encoding: Chunked'' @ CRLF @ CRLF"

definition example_client :: client_context where
  "example_client = \<lparr>peer_ip = V6 0 0 0 0 0 0xFFFF 0x0A00 0x0102, https = True\<rparr>"

definition example_plan :: planned_request where
  "example_plan = \<lparr>plan_host = ''app'',
     plan_header = ''POST /x HTTP/1.1'' @ CRLF @ ''Host: App.'' @ CRLF
       @ ''X-Forwarded-For: 10.0.1.2'' @ CRLF @ ''X-Forwarded-Proto: https'' @ CRLF @ ''X-Forwarded-Host: App.'' @ CRLF
       @ ''X-Real-IP: 10.0.1.2'' @ CRLF @ ''Transfer-Encoding: chunked'' @ CRLF @ ''Connection: close'' @ CRLF @ CRLF,
     plan_mode = Chunked_Body, plan_expect_continue = False\<rparr>"

lemma example_planned: "request_plan (\<lambda>k. None) (\<lambda>k. []) example_head example_client = Inr example_plan"
  by code_simp

lemma example_mode: "plan_mode example_plan = Chunked_Body" "plan_host example_plan = ''app''"
  by (simp_all add: example_plan_def)

text \<open>
  C18. A server that reads the head the proxy writes finds one framing of the body, the one the proxy itself will use: no
  transfer coding and at most one length, a decimal number equal to the planned one, or the chunked coding alone, or for
  an upgrade neither. Names are compared with their marks folded, so a server that takes \<open>Content_Length\<close> for a length
  finds no more. There is one \<open>Connection\<close> field and no expectation.
\<close>

theorem upstream_framing_unambiguous:
  assumes "request_plan base64_decode derive_accept_key header client = Inr p"
  shows "\<exists>rl fs. read_head (plan_header p) = Some (rl, fs) \<and>
    (case plan_mode p of
       Fixed_Body n \<Rightarrow> n \<le> MAX_REQUEST_BODY_BYTES \<and> named ''transfer-encoding'' fs = [] \<and>
         (named ''content-length'' fs = [] \<and> n = 0
          \<or> (\<exists>v. named ''content-length'' fs = [v] \<and> trim v \<noteq> [] \<and> list_all is_digit (trim v) \<and> digits_val (trim v) = n))
     | Chunked_Body \<Rightarrow> named ''transfer-encoding'' fs = ['' chunked''] \<and> named ''content-length'' fs = []
     | Web_Socket _ \<Rightarrow> named ''transfer-encoding'' fs = [] \<and> named ''content-length'' fs = [])
    \<and> length (named ''connection'' fs) = 1 \<and> named ''expect'' fs = []"
proof -
  obtain rl fs v where h: "planned_head client p rl fs v" using plan_reads [OF assms] by blast
  note r = h [unfolded planned_head_def]
  let ?fs = "fs @ proxy_fields client (trim v) @ mode_fields (plan_mode p)"
  have "named ''transfer-encoding'' ?fs = (if plan_mode p = Chunked_Body then ['' chunked''] else [])"
    "named ''content-length'' ?fs = named ''content-length'' fs" "length (named ''connection'' ?fs) = 1" "named ''expect'' ?fs = []"
    using named_dropped [of fs] r by (simp_all add: named_proxy_fields named_mode_fields del: plain_names)
  moreover have "read_head (plan_header p) = Some (rl, ?fs)" using r by blast
  ultimately show ?thesis using r
    by (intro exI [of _ rl] exI [of _ ?fs])
      (auto simp: length_agrees_def MAX_REQUEST_BODY_BYTES_def split: request_mode.splits if_splits simp del: named_simps plain_names)
qed

theorem upstream_framing_unambiguous_witness:
  "\<exists>rl fs. read_head (plan_header example_plan) = Some (rl, fs) \<and> named ''transfer-encoding'' fs = ['' chunked'']
     \<and> named ''content-length'' fs = [] \<and> length (named ''connection'' fs) = 1 \<and> named ''expect'' fs = []"
  using upstream_framing_unambiguous [OF example_planned] by (simp add: example_mode)

text \<open>
  The host the request is routed by is the host the upstream reads: there is one \<open>Host\<close> field in the head, and its
  normal form is the planned one.
\<close>

theorem upstream_host_is_routed_host:
  assumes "request_plan base64_decode derive_accept_key header client = Inr p"
  shows "\<exists>rl fs v. read_head (plan_header p) = Some (rl, fs) \<and> named ''host'' fs = [v] \<and> normalize_host_authority v = Inr (plan_host p)"
proof -
  obtain rl fs v where h: "planned_head client p rl fs v" using plan_reads [OF assms] by blast
  note r = h [unfolded planned_head_def]
  have "named ''host'' (fs @ proxy_fields client (trim v) @ mode_fields (plan_mode p)) = [v]"
    using r by (simp add: named_proxy_fields named_mode_fields del: plain_names)
  then show ?thesis using r by blast
qed

theorem upstream_host_is_routed_host_witness:
  "\<exists>rl fs v. read_head (plan_header example_plan) = Some (rl, fs) \<and> named ''host'' fs = [v] \<and> normalize_host_authority v = Inr ''app''"
  using upstream_host_is_routed_host [OF example_planned] by (simp only: example_mode)

lemma proxy_forwarding:
  "filter (\<lambda>f. is_forwarding_header (fst f)) (proxy_fields client authority) = proxy_fields client authority"
  "filter (\<lambda>f. is_forwarding_header (fst f)) (mode_fields mode) = []"
proof -
  have "is_forwarding_header ''X-Forwarded-For''" "is_forwarding_header ''X-Forwarded-Proto''" "is_forwarding_header ''X-Forwarded-Host''"
    "is_forwarding_header ''X-Real-IP''" "\<not> is_forwarding_header ''Connection''" "\<not> is_forwarding_header ''Transfer-Encoding''"
    "\<not> is_forwarding_header ''Upgrade''" by code_simp+
  then show "filter (\<lambda>f. is_forwarding_header (fst f)) (proxy_fields client authority) = proxy_fields client authority"
    "filter (\<lambda>f. is_forwarding_header (fst f)) (mode_fields mode) = []"
    by (simp add: proxy_fields_def Let_def) (cases mode; simp add: \<open>\<not> is_forwarding_header ''Connection''\<close>
      \<open>\<not> is_forwarding_header ''Transfer-Encoding''\<close> \<open>\<not> is_forwarding_header ''Upgrade''\<close>)
qed

text \<open>
  C17. A client cannot speak for the proxy: of the fields that tell an application the address, the scheme or the host of
  the client, in any spelling, the upstream finds those of the proxy and no others.
\<close>

theorem forwarding_fields_are_the_proxys:
  assumes "request_plan base64_decode derive_accept_key header client = Inr p"
  shows "\<exists>rl fs v. read_head (plan_header p) = Some (rl, fs) \<and> named ''host'' fs = [v]
    \<and> filter (\<lambda>f. is_forwarding_header (fst f)) fs = proxy_fields client (trim v)"
proof -
  obtain rl fs v where h: "planned_head client p rl fs v" using plan_reads [OF assms] by blast
  note r = h [unfolded planned_head_def]
  let ?fs = "fs @ proxy_fields client (trim v) @ mode_fields (plan_mode p)"
  have "filter (\<lambda>f. is_forwarding_header (fst f)) fs = []" using r by (simp add: filter_empty_conv passed_on_def)
  then have "filter (\<lambda>f. is_forwarding_header (fst f)) ?fs = proxy_fields client (trim v)" by (simp add: proxy_forwarding)
  moreover have "named ''host'' ?fs = [v]" using r by (simp add: named_proxy_fields named_mode_fields del: plain_names)
  ultimately show ?thesis using r by blast
qed

theorem forwarding_fields_are_the_proxys_witness:
  "\<exists>rl fs v. read_head (plan_header example_plan) = Some (rl, fs) \<and> named ''host'' fs = [v]
     \<and> filter (\<lambda>f. is_forwarding_header (fst f)) fs = proxy_fields example_client (trim v)"
  by (rule forwarding_fields_are_the_proxys [OF example_planned])

end
