(* ===== verification/Http_Forward.thy ===== *)
theory Http_Forward
  imports Http_Chunked Http_Request
begin

text \<open>
  One exchange of the HTTP proxy with the upstream, \<open>tools/http-proxy/src/upstream.rs\<close>: the request body, the connection, the
  answers to the client on every failure, and the WebSocket handshake.

  What the upstream and the network do is an argument, \<open>upstream_answers\<close>: how the connection attempt ends, after how many
  written bytes the budget of the body runs out, if it does, the bytes of the response until its relay ends, and the reads of the
  handshake response. The proxy's own actions are events in order. Writes succeed; a write that fails ends the exchange with a
  prefix of the bytes, and the theorems about what the upstream gets are about every prefix.

  \<open>complete_request\<close> is what a server takes for a request: a head and, as its fields frame it, a body. The main lemmas:
  of the bytes of an exchange, cut off anywhere, only the whole is a complete request, and only when the proxy has seen the
  whole body of the client.
\<close>

subsection \<open>The request body\<close>

datatype request_body = Fixed nat | Chunked

datatype response_error = Response_Not_Utf8 | Upgrade_Refused | Malformed_Response_Header | Forbidden_Framing
  | Duplicate_Response_Connection | Duplicate_Response_Upgrade | Duplicate_Response_Accept | Response_Connection_Missing
  | Response_Token_List | Response_Token_Missing | Response_Not_Websocket | Response_Accept_Invalid

datatype exchange_error = Pipelined_Request | Connect_Error string | Connect_Deadline | Body_Io string | Body_Framing chunk_error
  | Body_Short | Body_Deadline | Relay_Aborted | Early_Websocket_Data | Upgrade_Io string | Upgrade_Too_Large
  | Upgrade_Deadline | Upgrade_Incomplete | Upgrade_Invalid response_error

text \<open>\<open>io::copy\<close> from the client, limited by \<open>take\<close>: how many bytes came, the reads that are left, the bytes written.\<close>

fun copy_limited :: "(string + string) list \<Rightarrow> nat \<Rightarrow> (string + nat \<times> (string + string) list) \<times> string" where
  "copy_limited reads 0 = (Inr (0, reads), [])"
| "copy_limited [] (Suc n) = (Inr (0, []), [])"
| "copy_limited (Inl e # reads) (Suc n) = (Inl e, [])"
| "copy_limited (Inr seg # reads) (Suc n) =
     (if seg = [] then (Inr (0, reads), [])
      else if length seg \<le> Suc n then
        (case copy_limited reads (Suc n - length seg) of
           (Inl e, w) \<Rightarrow> (Inl e, seg @ w)
         | (Inr (k, reads'), w) \<Rightarrow> (Inr (length seg + k, reads'), seg @ w))
      else (Inr (Suc n, Inr (drop (Suc n) seg) # reads), take (Suc n) seg))"

definition chunk_failure :: "chunk_error \<Rightarrow> exchange_error" where
  "chunk_failure e = (case e of Read_Failed m \<Rightarrow> Body_Io m | _ \<Rightarrow> Body_Framing e)"

definition forward_request ::
  "(string + string) list \<Rightarrow> string \<Rightarrow> string \<Rightarrow> request_body \<Rightarrow> (exchange_error + (string + string) list) \<times> string" where
  "forward_request reads header initial body =
     (case body of
        Chunked \<Rightarrow>
          (case forward_chunked_body reads initial MAX_REQUEST_BODY_BYTES of
             (Inl e, out) \<Rightarrow> (Inl (chunk_failure e), header @ out)
           | (Inr rest, out) \<Rightarrow> (Inr rest, header @ out))
      | Fixed len \<Rightarrow>
          (let remaining = len - length initial
           in if remaining > 0 then
                (case copy_limited reads remaining of
                   (Inl e, w) \<Rightarrow> (Inl (Body_Io e), header @ initial @ w)
                 | (Inr (copied, rest), w) \<Rightarrow> (if copied \<noteq> remaining then Inl Body_Short else Inr rest, header @ initial @ w))
              else (Inr reads, header @ initial)))"


subsection \<open>The exchange\<close>

datatype connect_answer = Connected | Connect_Failed string | Connect_Expired

datatype relay_answer = Relay_Done string | Relay_Failed string | Relay_Expired string

record upstream_answers =
  connects :: connect_answer
  body_expires :: "nat option"
  response :: relay_answer
  upgrade_reads :: "(string + string) list"
  upgrade_expires :: bool

datatype proxy_event = Reject string | To_Client string | To_Upstream string | Tunnel

definition reject_text :: "string \<Rightarrow> string" where
  "reject_text status = ''HTTP/1.1 '' @ status @ CRLF @ ''Connection: close'' @ CRLF @ ''Content-Length: 0'' @ CRLF @ CRLF"

definition connect_upstream :: "upstream_answers \<Rightarrow> (exchange_error + unit) \<times> proxy_event list" where
  "connect_upstream ans =
     (case connects ans of
        Connected \<Rightarrow> (Inr (), [])
      | Connect_Failed e \<Rightarrow> (Inl (Connect_Error e), [Reject ''503 Service Unavailable''])
      | Connect_Expired \<Rightarrow> (Inl Connect_Deadline, [Reject ''503 Service Unavailable'']))"

fun relay_response :: "relay_answer \<Rightarrow> (exchange_error + unit) \<times> proxy_event list" where
  "relay_response (Relay_Done bytes) = (Inr (), [To_Client bytes])"
| "relay_response (Relay_Failed bytes) = (Inl Relay_Aborted, [To_Client bytes])"
| "relay_response (Relay_Expired bytes) = (Inl Relay_Aborted, [To_Client bytes])"

definition send_upstream ::
  "upstream_answers \<Rightarrow> (string + string) list \<Rightarrow> string \<Rightarrow> string \<Rightarrow> request_body \<Rightarrow> (exchange_error + unit) \<times> proxy_event list" where
  "send_upstream ans reads initial header body =
     (case (body_expires ans, forward_request reads header initial body) of
        (Some k, (_, out)) \<Rightarrow> (Inl Body_Deadline, [To_Upstream (take k out), Reject ''408 Request Timeout''])
      | (None, (Inr _, out)) \<Rightarrow> (Inr (), [To_Upstream out])
      | (None, (Inl e, out)) \<Rightarrow>
          (Inl e, To_Upstream out
             # (if body = Chunked \<and> (case e of Body_Io _ \<Rightarrow> False | _ \<Rightarrow> True) then [Reject ''400 Bad Request''] else [])))"

definition proxy_single_request ::
  "upstream_answers \<Rightarrow> (string + string) list \<Rightarrow> string \<Rightarrow> string \<Rightarrow> request_body \<Rightarrow> bool \<Rightarrow> (exchange_error + unit) \<times> proxy_event list" where
  "proxy_single_request ans reads initial header body expect_continue =
     (if (case body of Fixed len \<Rightarrow> \<not> initial_body_bytes_allowed len (length initial) | Chunked \<Rightarrow> False)
      then (Inl Pipelined_Request, [Reject ''400 Bad Request''])
      else (case connect_upstream ans of
          (Inl e, ev) \<Rightarrow> (Inl e, ev)
        | (Inr _, ev) \<Rightarrow>
            (let ev = ev @ (if expect_continue then [To_Client (''HTTP/1.1 100 Continue'' @ CRLF @ CRLF)] else [])
             in case send_upstream ans reads initial header body of
                  (Inl e, ev2) \<Rightarrow> (Inl e, ev @ ev2)
                | (Inr _, ev2) \<Rightarrow> (case relay_response (response ans) of (r, ev3) \<Rightarrow> (r, ev @ ev2 @ ev3)))))"


subsection \<open>WebSocket\<close>

definition MAX_UPSTREAM_UPGRADE_HEADER_BYTES :: nat where
  "MAX_UPSTREAM_UPGRADE_HEADER_BYTES = 64 * 1024"

fun read_response_head :: "string \<Rightarrow> (string + string) list \<Rightarrow> exchange_error + string" where
  "read_response_head head [] = Inr head"
| "read_response_head head (Inl e # reads) = Inl (Upgrade_Io e)"
| "read_response_head head (Inr seg # reads) =
     (if seg = [] then Inr head
      else (let head = head @ seg
            in case find_header_end head of
                 Some n \<Rightarrow> if n > MAX_UPSTREAM_UPGRADE_HEADER_BYTES then Inl Upgrade_Too_Large else Inr head
               | None \<Rightarrow> if length head > MAX_UPSTREAM_UPGRADE_HEADER_BYTES then Inl Upgrade_Too_Large
                         else read_response_head head reads))"

record response_state =
  r_connection :: "string option"
  r_upgrade :: "string option"
  r_accept :: "string option"

definition response_line :: "string \<Rightarrow> response_state \<Rightarrow> response_error + response_state" where
  "response_line l st =
     (case split_once (CHR '':'') l of
        None \<Rightarrow> Inl Malformed_Response_Header
      | Some (name, v) \<Rightarrow>
          if \<not> is_http_token name \<or> invalid_header_value v then Inl Malformed_Response_Header
          else if eq_ignore_case name ''content-length'' \<or> eq_ignore_case name ''transfer-encoding'' then Inl Forbidden_Framing
          else if eq_ignore_case name ''connection'' then
            if r_connection st \<noteq> None then Inl Duplicate_Response_Connection else Inr (st\<lparr>r_connection := Some (trim v)\<rparr>)
          else if eq_ignore_case name ''upgrade'' then
            if r_upgrade st \<noteq> None then Inl Duplicate_Response_Upgrade else Inr (st\<lparr>r_upgrade := Some (trim v)\<rparr>)
          else if eq_ignore_case name ''sec-websocket-accept'' then
            if r_accept st \<noteq> None then Inl Duplicate_Response_Accept else Inr (st\<lparr>r_accept := Some (trim v)\<rparr>)
          else Inr st)"

fun response_lines :: "string list \<Rightarrow> response_state \<Rightarrow> response_error + response_state" where
  "response_lines [] st = Inr st"
| "response_lines (l # ls) st = (if l = [] then Inr st else bind_res (response_line l st) (response_lines ls))"

text \<open>\<open>splitn(3, ' ')\<close>: the first two parts.\<close>

definition status_line_ok :: "string \<Rightarrow> bool" where
  "status_line_ok status \<longleftrightarrow>
     (case split_char (CHR '' '') status of version # code # _ \<Rightarrow> version = ''HTTP/1.1'' \<and> code = ''101'' | _ \<Rightarrow> False)"

definition accept_response :: "string \<Rightarrow> response_state \<Rightarrow> response_error + unit" where
  "accept_response expected_accept st =
     (case r_connection st of
        None \<Rightarrow> Inl Response_Connection_Missing
      | Some c \<Rightarrow>
          (case header_has_token c ''upgrade'' of
             Inl _ \<Rightarrow> Inl Response_Token_List
           | Inr has \<Rightarrow>
               if \<not> has then Inl Response_Token_Missing
               else if (case r_upgrade st of None \<Rightarrow> True | Some v \<Rightarrow> \<not> eq_ignore_case v ''websocket'') then Inl Response_Not_Websocket
               else if r_accept st \<noteq> Some expected_accept then Inl Response_Accept_Invalid
               else Inr ()))"

definition validate_websocket_response :: "string \<Rightarrow> string \<Rightarrow> response_error + unit" where
  "validate_websocket_response header expected_accept =
     (if \<not> valid_utf8 header then Inl Response_Not_Utf8
      else (case split_crlf header of
          [] \<Rightarrow> Inl Upgrade_Refused
        | status # ls \<Rightarrow>
            if \<not> status_line_ok status then Inl Upgrade_Refused
            else bind_res (response_lines ls \<lparr>r_connection = None, r_upgrade = None, r_accept = None\<rparr>) (accept_response expected_accept)))"

definition proxy_websocket_upgrade :: "upstream_answers \<Rightarrow> string \<Rightarrow> string \<Rightarrow> (exchange_error + unit) \<times> proxy_event list" where
  "proxy_websocket_upgrade ans header expected_accept =
     (case connect_upstream ans of
        (Inl e, ev) \<Rightarrow> (Inl e, ev)
      | (Inr _, ev) \<Rightarrow>
          (let ev = ev @ [To_Upstream header]
           in if upgrade_expires ans then (Inl Upgrade_Deadline, ev @ [Reject ''504 Gateway Timeout''])
              else (case read_response_head [] (upgrade_reads ans) of
                  Inl e \<Rightarrow> (Inl e, ev @ [Reject ''502 Bad Gateway''])
                | Inr resp \<Rightarrow>
                    (case find_header_end resp of
                       None \<Rightarrow> (Inl Upgrade_Incomplete, ev @ [Reject ''502 Bad Gateway''])
                     | Some n \<Rightarrow>
                         (case validate_websocket_response (take n resp) expected_accept of
                            Inl e \<Rightarrow> (Inl (Upgrade_Invalid e), ev @ [Reject ''502 Bad Gateway''])
                          | Inr _ \<Rightarrow> (Inr (), ev @ [To_Client resp, Tunnel]))))))"

definition proxy_request ::
  "upstream_answers \<Rightarrow> (string + string) list \<Rightarrow> string \<Rightarrow> nat \<Rightarrow> planned_request \<Rightarrow> (exchange_error + unit) \<times> proxy_event list" where
  "proxy_request ans reads received header_end plan =
     (case plan_mode plan of
        Fixed_Body len \<Rightarrow>
          proxy_single_request ans reads (drop header_end received) (plan_header plan) (Fixed len) (plan_expect_continue plan)
      | Chunked_Body \<Rightarrow>
          proxy_single_request ans reads (drop header_end received) (plan_header plan) Chunked (plan_expect_continue plan)
      | Web_Socket expected_accept \<Rightarrow>
          if length received \<noteq> header_end then (Inl Early_Websocket_Data, [Reject ''400 Bad Request''])
          else proxy_websocket_upgrade ans (plan_header plan) expected_accept)"


subsection \<open>What a server takes for a request\<close>

definition framed_body :: "(string \<times> string) list \<Rightarrow> string \<Rightarrow> bool" where
  "framed_body fs b \<longleftrightarrow>
     (if named ''transfer-encoding'' fs \<noteq> [] then \<exists>ds. chunked_body ds b
      else (case named ''content-length'' fs of [] \<Rightarrow> b = [] | v # _ \<Rightarrow> length b = digits_val (trim v)))"

definition complete_request :: "string \<Rightarrow> bool" where
  "complete_request t \<longleftrightarrow>
     (\<exists>n rl fs. find_header_end t = Some n \<and> read_head (take n t) = Some (rl, fs) \<and> framed_body fs (drop n t))"

definition upstream_bytes :: "proxy_event list \<Rightarrow> string" where
  "upstream_bytes ev = concat (map (\<lambda>e. case e of To_Upstream b \<Rightarrow> b | _ \<Rightarrow> []) ev)"


subsection \<open>Heads\<close>

lemma find_header_end_bounds: "find_header_end t = Some n \<Longrightarrow> 4 \<le> n \<and> n \<le> length t"
proof (induction t arbitrary: n)
  case (Cons c t)
  then show ?case by (cases "starts_with [CR, LF, CR, LF] (c # t)") (auto simp: starts_with_iff)
qed simp

lemma find_header_end_more: "find_header_end t = Some n \<Longrightarrow> find_header_end (t @ r) = Some n"
proof (induction t arbitrary: n)
  case (Cons c t)
  have "4 \<le> length (c # t)" using find_header_end_bounds [OF Cons.prems] by simp
  then have s: "starts_with [CR, LF, CR, LF] ((c # t) @ r) \<longleftrightarrow> starts_with [CR, LF, CR, LF] (c # t)"
    unfolding starts_with_def by (simp only: take_append) simp
  show ?case using Cons.prems Cons.IH s by (auto split: if_splits)
qed simp

lemma find_header_end_line:
  "LF \<notin> set l \<Longrightarrow> find_header_end (l @ CRLF @ r) =
     (if starts_with CRLF r then Some (length l + 4) else map_option (\<lambda>n. length l + 2 + n) (find_header_end r))"
proof (induction l)
  case Nil
  show ?case by (cases "find_header_end r") (auto simp: CRLF_def)
next
  case (Cons c l)
  have "\<not> starts_with [CR, LF, CR, LF] ((c # l) @ CRLF @ r)" using Cons.prems by (cases l) (auto simp: CRLF_def)
  then show ?case using Cons by (cases "find_header_end r") auto
qed

lemma field_line:
  assumes "field_ok f"
  shows "field_text f = (fst f @ CHR '':'' # snd f) @ CRLF" "LF \<notin> set (fst f @ CHR '':'' # snd f)"
    "\<not> starts_with CRLF (fst f @ CHR '':'' # r)"
proof -
  have ok: "is_http_token (fst f)" "\<not> invalid_header_value (snd f)" using assms by (simp_all add: field_ok_def)
  show "field_text f = (fst f @ CHR '':'' # snd f) @ CRLF" by (simp add: field_text_def)
  show "LF \<notin> set (fst f @ CHR '':'' # snd f)" using token_chars [OF ok(1)] valid_value_chars [OF ok(2)] by (auto simp: LF_def)
  show "\<not> starts_with CRLF (fst f @ CHR '':'' # r)" using token_chars [OF ok(1)] by (cases "fst f") (auto simp: CRLF_def CR_def)
qed

lemma find_fields_end:
  assumes "LF \<notin> set l" "\<forall>f \<in> set fs. field_ok f"
  shows "find_header_end (l @ CRLF @ concat (map field_text fs) @ CRLF @ b) = Some (length l + length (concat (map field_text fs)) + 4)"
  using assms
proof (induction fs arbitrary: l)
  case Nil
  then show ?case by (simp add: find_header_end_line starts_with_iff)
next
  case (Cons f fs)
  have f: "field_ok f" using Cons.prems(2) by simp
  let ?r = "(fst f @ CHR '':'' # snd f) @ CRLF @ concat (map field_text fs) @ CRLF @ b"
  have "find_header_end ?r = Some (length (fst f @ CHR '':'' # snd f) + length (concat (map field_text fs)) + 4)"
    by (rule Cons.IH) (use field_line(2) [OF f] Cons.prems(2) in auto)
  moreover have "\<not> starts_with CRLF ?r" using field_line(3) [OF f] by simp
  moreover have "find_header_end (l @ CRLF @ ?r) = (if starts_with CRLF ?r then Some (length l + 4) else map_option (\<lambda>n. length l + 2 + n) (find_header_end ?r))"
    by (rule find_header_end_line [OF Cons.prems(1)])
  ultimately show ?case by (simp add: field_line(1) [OF f])
qed

lemma find_head_end:
  assumes "LF \<notin> set rl" "\<forall>f \<in> set fs. field_ok f"
  shows "find_header_end (head_text rl fs @ b) = Some (length (head_text rl fs))"
  using find_fields_end [OF assms, of b] by (simp add: head_text_def)

text \<open>A server that gets the head \<open>h\<close> first takes nothing for a request that does not go on with a body \<open>h\<close> frames.\<close>

lemma complete_prefix:
  assumes "LF \<notin> set rl" "\<forall>f \<in> set fs. field_ok f" "sent @ rest = head_text rl fs @ b"
  shows "complete_request sent \<longleftrightarrow> (\<exists>b1. sent = head_text rl fs @ b1 \<and> framed_body fs b1)"
proof
  assume "complete_request sent"
  then obtain n rl' fs' where n: "find_header_end sent = Some n" "read_head (take n sent) = Some (rl', fs')" "framed_body fs' (drop n sent)"
    unfolding complete_request_def by blast
  have "find_header_end (sent @ rest) = Some n" using find_header_end_more [OF n(1)] .
  then have l: "n = length (head_text rl fs)" using find_head_end [OF assms(1,2), of b] assms(3) by simp
  have t: "take n sent = head_text rl fs" using find_header_end_bounds [OF n(1)] arg_cong [OF assms(3), of "take n"] l by simp
  then have "fs' = fs" using n(2) read_head_text [OF assms(1,2)] by simp
  then show "\<exists>b1. sent = head_text rl fs @ b1 \<and> framed_body fs b1" using t n(3) by (metis append_take_drop_id)
next
  assume "\<exists>b1. sent = head_text rl fs @ b1 \<and> framed_body fs b1"
  then obtain b1 where "sent = head_text rl fs @ b1" "framed_body fs b1" by blast
  then show "complete_request sent" unfolding complete_request_def
    using find_head_end [OF assms(1,2), of b1] read_head_text [OF assms(1,2)]
    by (intro exI [of _ "length (head_text rl fs)"] exI [of _ rl] exI [of _ fs]) simp
qed


subsection \<open>Bodies\<close>

text \<open>What the plan takes for the whole body is what the head says.\<close>

fun mode_body :: "request_mode \<Rightarrow> string \<Rightarrow> bool" where
  "mode_body (Fixed_Body n) b = (length b = n)"
| "mode_body Chunked_Body b = (\<exists>ds. chunked_body ds b)"
| "mode_body (Web_Socket accept) b = (b = [])"

lemma planned_body:
  assumes "planned_head client p rl fs v"
  shows "framed_body (fs @ proxy_fields client (trim v) @ mode_fields (plan_mode p)) b \<longleftrightarrow> mode_body (plan_mode p) b"
proof -
  note r = assms [unfolded planned_head_def]
  let ?fs = "fs @ proxy_fields client (trim v) @ mode_fields (plan_mode p)"
  have "named ''transfer-encoding'' ?fs = (if plan_mode p = Chunked_Body then ['' chunked''] else [])"
    "named ''content-length'' ?fs = named ''content-length'' fs"
    using named_dropped [of fs] r by (simp_all add: named_proxy_fields named_mode_fields del: plain_names)
  then show ?thesis using r
    by (cases "plan_mode p") (auto simp: framed_body_def length_agrees_def split: if_splits simp del: named_simps)
qed

lemma planned_prefix:
  assumes "planned_head client p rl fs v" "sent @ rest = plan_header p @ b"
  shows "complete_request sent \<longleftrightarrow> (\<exists>b1. sent = plan_header p @ b1 \<and> mode_body (plan_mode p) b1)"
proof -
  let ?fs = "fs @ proxy_fields client (trim v) @ mode_fields (plan_mode p)"
  note r = assms(1) [unfolded planned_head_def]
  have h: "LF \<notin> set rl" "plan_header p = head_text rl ?fs" using r by blast+
  have "\<not> invalid_header_value (trim v)" using named_member [of v "''host''" fs] r trim_valid field_ok_def by (metis list.set_intros(1))
  then have ok: "\<forall>f \<in> set ?fs. field_ok f" using r proxy_fields_ok [of "trim v" _ client "plan_mode p"] by auto
  show ?thesis using complete_prefix [OF h(1) ok assms(2) [unfolded h(2)]] planned_body [OF assms(1)] h(2) by simp
qed

lemma copy_limited_result:
  "copy_limited reads n = (res, w) \<Longrightarrow> length w \<le> n \<and> (case res of Inr (k, rest) \<Rightarrow> k = length w | Inl _ \<Rightarrow> length w < n)"
proof (induction reads n arbitrary: res w rule: copy_limited.induct)
  case (4 seg reads n)
  show ?case
  proof (cases "seg \<noteq> [] \<and> length seg \<le> Suc n")
    case True
    obtain res1 w1 where c: "copy_limited reads (Suc n - length seg) = (res1, w1)" by (cases "copy_limited reads (Suc n - length seg)")
    have "length w1 \<le> Suc n - length seg \<and> (case res1 of Inr (k, rest) \<Rightarrow> k = length w1 | Inl _ \<Rightarrow> length w1 < Suc n - length seg)"
      using 4(1) True c by simp
    then show ?thesis using 4(2) True c by (auto split: sum.splits prod.splits)
  next
    case False
    then show ?thesis using 4(2) by (auto split: if_splits)
  qed
qed auto

fun body_of :: "request_mode \<Rightarrow> request_body option" where
  "body_of (Fixed_Body n) = Some (Fixed n)"
| "body_of Chunked_Body = Some Chunked"
| "body_of (Web_Socket accept) = None"

lemma forward_fixed:
  assumes "forward_request reads header initial (Fixed n) = (res, out)" "length initial \<le> n"
  shows "\<exists>b. out = header @ b \<and> length b \<le> n \<and> ((\<exists>rest. res = Inr rest) \<longleftrightarrow> length b = n)"
proof (cases "n - length initial > 0")
  case True
  obtain res1 w where c: "copy_limited reads (n - length initial) = (res1, w)" by (cases "copy_limited reads (n - length initial)")
  show ?thesis using assms True c copy_limited_result [OF c]
    by (intro exI [of _ "initial @ w"]) (auto simp: forward_request_def split: sum.splits if_splits)
next
  case False
  then have "length initial = n" "res = Inr reads" "out = header @ initial" using assms by (simp_all add: forward_request_def)
  then show ?thesis by auto
qed

lemma forward_body:
  assumes "forward_request reads header initial body = (res, out)" "body_of mode = Some body"
    "\<forall>n. body = Fixed n \<longrightarrow> length initial \<le> n"
  shows "\<exists>b. out = header @ b \<and> (\<forall>b1 b2. b = b1 @ b2 \<longrightarrow> (mode_body mode b1 \<longleftrightarrow> b2 = [] \<and> (\<exists>rest. res = Inr rest)))"
proof (cases body)
  case (Fixed n)
  then have m: "mode = Fixed_Body n" using assms(2) by (cases mode) auto
  have "length initial \<le> n" using assms(3) Fixed by blast
  from forward_fixed [OF assms(1) [unfolded Fixed] this] obtain b where b: "out = header @ b" "length b \<le> n"
    "(\<exists>rest. res = Inr rest) \<longleftrightarrow> length b = n" by blast
  have "length b1 = n \<longleftrightarrow> b2 = [] \<and> length b = n" if "b = b1 @ b2" for b1 b2 using that b(2) by auto
  then show ?thesis unfolding m mode_body.simps b(3) using b(1) by blast
next
  case Chunked
  then have m: "mode = Chunked_Body" using assms(2) by (cases mode) auto
  obtain r1 b where c: "forward_chunked_body reads initial MAX_REQUEST_BODY_BYTES = (r1, b)"
    by (cases "forward_chunked_body reads initial MAX_REQUEST_BODY_BYTES")
  have out: "out = header @ b" and res: "(\<exists>rest. res = Inr rest) \<longleftrightarrow> (\<exists>rest. r1 = Inr rest)"
    using assms(1) Chunked c by (auto simp: forward_request_def split: sum.splits)
  have whole: "mode_body mode b1 \<longleftrightarrow> b2 = [] \<and> (\<exists>rest. r1 = Inr rest)" if b: "b = b1 @ b2" for b1 b2
  proof (cases r1)
    case (Inl e)
    then have "\<not> chunked_body ds b1" for ds using refused_incomplete [OF _ b] c by blast
    then show ?thesis unfolding m mode_body.simps using Inl by blast
  next
    case (Inr rest)
    then obtain ds t where ds: "b = canonical_body ds" "chunked_body ds t" using forward_sound c by blast
    from ds(2) obtain a where "chunked_data ds a" unfolding chunked_body_def by blast
    note sized = chunked_data_chunks [OF this]
    have "b2 = []" if "chunked_body ds' b1" for ds' using canonical_whole [OF that _ sized] ds(1) b by simp
    moreover have "chunked_body ds b1" if "b2 = []" using chunked_body_canonical [OF sized] ds(1) b that by simp
    ultimately show ?thesis unfolding m mode_body.simps using Inr by blast
  qed
  show ?thesis unfolding res by (intro exI [of _ b] conjI allI impI out whole)
qed


subsection \<open>The exchange\<close>

lemma upstream_bytes_simps [simp]:
  "upstream_bytes [] = []" "upstream_bytes (To_Upstream b # ev) = b @ upstream_bytes ev" "upstream_bytes (Reject s # ev) = upstream_bytes ev"
  "upstream_bytes (To_Client b # ev) = upstream_bytes ev" "upstream_bytes (Tunnel # ev) = upstream_bytes ev"
  "upstream_bytes (ev @ ev') = upstream_bytes ev @ upstream_bytes ev'"
  by (simp_all add: upstream_bytes_def)

lemma connect_upstream_bytes: "upstream_bytes (snd (connect_upstream ans)) = []"
  by (simp add: connect_upstream_def split: connect_answer.splits)

lemma relay_response_bytes: "upstream_bytes (snd (relay_response a)) = []"
  by (cases a) simp_all

text \<open>The bytes of a request are those of \<open>forward_request\<close>, cut off when the budget runs out.\<close>

lemma send_upstream_bytes:
  assumes "forward_request reads header initial body = (res, out)"
  shows "\<exists>cut. out = upstream_bytes (snd (send_upstream ans reads initial header body)) @ cut
     \<and> ((\<exists>u. fst (send_upstream ans reads initial header body) = Inr u) \<longrightarrow> cut = [] \<and> (\<exists>rest. res = Inr rest))"
proof (cases "body_expires ans")
  case (Some k)
  then show ?thesis using assms by (intro exI [of _ "drop k out"]) (simp add: send_upstream_def)
next
  case None
  then show ?thesis using assms by (intro exI [of _ "[]"]) (simp add: send_upstream_def split: sum.splits)
qed

lemma single_request_bytes:
  assumes "proxy_single_request ans reads initial header body c = (r, ev)" "upstream_bytes ev \<noteq> []"
  shows "upstream_bytes ev = upstream_bytes (snd (send_upstream ans reads initial header body))
     \<and> (\<forall>n. body = Fixed n \<longrightarrow> length initial \<le> n)"
proof -
  have allowed: "\<not> (case body of Fixed len \<Rightarrow> \<not> initial_body_bytes_allowed len (length initial) | Chunked \<Rightarrow> False)"
    using assms by (intro notI) (auto simp: proxy_single_request_def)
  obtain r1 ev1 where c1: "connect_upstream ans = (r1, ev1)" by (cases "connect_upstream ans")
  then have e1: "upstream_bytes ev1 = []" using connect_upstream_bytes [of ans] by simp
  obtain r2 ev2 where c2: "send_upstream ans reads initial header body = (r2, ev2)" by (cases "send_upstream ans reads initial header body")
  obtain r3 ev3 where c3: "relay_response (response ans) = (r3, ev3)" by (cases "relay_response (response ans)")
  then have e3: "upstream_bytes ev3 = []" using relay_response_bytes [of "response ans"] by simp
  show ?thesis using assms allowed c1 c2 c3 e1 e3
    by (auto simp: proxy_single_request_def initial_body_bytes_allowed_def Let_def split: sum.splits)
qed

lemma upgrade_bytes:
  "upstream_bytes (snd (proxy_websocket_upgrade ans header accept)) = [] \<or> upstream_bytes (snd (proxy_websocket_upgrade ans header accept)) = header"
proof -
  obtain r1 ev1 where c1: "connect_upstream ans = (r1, ev1)" by (cases "connect_upstream ans")
  then have e1: "upstream_bytes ev1 = []" using connect_upstream_bytes [of ans] by simp
  show ?thesis using c1 e1 by (auto simp: proxy_websocket_upgrade_def Let_def split: sum.splits option.splits)
qed

text \<open>Every exchange writes a part of one request.\<close>

lemma exchange_bytes:
  assumes "planned_head client p rl fs v" "proxy_request ans reads received e p = (r, ev)" "upstream_bytes ev \<noteq> []"
  shows "\<exists>b cut. upstream_bytes ev @ cut = plan_header p @ b
     \<and> (\<forall>b1 b2. b = b1 @ b2 \<longrightarrow> mode_body (plan_mode p) b1 \<longrightarrow> b2 = [])"
proof (cases "body_of (plan_mode p)")
  case None
  then obtain a where m: "plan_mode p = Web_Socket a" by (cases "plan_mode p") auto
  have "length received = e" using assms(2,3) m by (cases "length received = e") (auto simp: proxy_request_def)
  then have "upstream_bytes ev = plan_header p" using assms(2,3) m upgrade_bytes [of ans "plan_header p" a] by (simp add: proxy_request_def)
  then show ?thesis unfolding m by (intro exI [of _ "[]"]) simp
next
  case (Some body)
  have s: "proxy_single_request ans reads (drop e received) (plan_header p) body (plan_expect_continue p) = (r, ev)"
    using assms(2) Some by (cases "plan_mode p") (auto simp: proxy_request_def)
  note sb = single_request_bytes [OF s assms(3)]
  obtain res out where f: "forward_request reads (plan_header p) (drop e received) body = (res, out)"
    by (cases "forward_request reads (plan_header p) (drop e received) body")
  obtain cut where cut: "out = upstream_bytes ev @ cut" using send_upstream_bytes [OF f, of ans] sb by auto
  obtain b where b: "out = plan_header p @ b" "\<forall>b1 b2. b = b1 @ b2 \<longrightarrow> (mode_body (plan_mode p) b1 \<longleftrightarrow> b2 = [] \<and> (\<exists>rest. res = Inr rest))"
    using forward_body [OF f Some] sb by blast
  show ?thesis using cut b by (intro exI [of _ b] exI [of _ cut]) simp
qed


text \<open>How far the request of an exchange got.\<close>

lemma send_upstream_complete:
  assumes "planned_head client p rl fs v" "body_of (plan_mode p) = Some body" "\<forall>n. body = Fixed n \<longrightarrow> length initial \<le> n"
    "send_upstream ans reads initial (plan_header p) body = (r, ev)" "r \<noteq> Inl Body_Deadline"
  shows "complete_request (upstream_bytes ev) \<longleftrightarrow> r = Inr ()"
proof -
  obtain res out where f: "forward_request reads (plan_header p) initial body = (res, out)"
    by (cases "forward_request reads (plan_header p) initial body")
  have d: "body_expires ans = None" using assms(4,5) by (cases "body_expires ans") (auto simp: send_upstream_def split: prod.splits)
  have out: "upstream_bytes ev = out" "r = Inr () \<longleftrightarrow> (\<exists>rest. res = Inr rest)"
    using assms(4) d f by (auto simp: send_upstream_def split: sum.splits)
  obtain b where b: "out = plan_header p @ b" "\<forall>b1 b2. b = b1 @ b2 \<longrightarrow> (mode_body (plan_mode p) b1 \<longleftrightarrow> b2 = [] \<and> (\<exists>rest. res = Inr rest))"
    using forward_body [OF f assms(2,3)] by blast
  have "out @ [] = plan_header p @ b" using b(1) by simp
  from planned_prefix [OF assms(1) this] b show ?thesis unfolding out by auto
qed

lemma send_upstream_failure: "fst (send_upstream ans reads initial header body) \<noteq> Inl Relay_Aborted"
proof -
  have "chunk_failure e \<noteq> Relay_Aborted" for e by (cases e) (simp_all add: chunk_failure_def)
  then have "fst (forward_request reads header initial body) \<noteq> Inl Relay_Aborted"
    by (auto simp: forward_request_def Let_def split: request_body.splits sum.splits prod.splits if_splits)
  then show ?thesis by (auto simp: send_upstream_def split: option.splits sum.splits prod.splits)
qed

lemma single_request_steps:
  assumes "proxy_single_request ans reads initial header body c = (r, ev)"
  obtains (none) "upstream_bytes ev = []" "r \<noteq> Inr ()" "r \<noteq> Inl Relay_Aborted"
  | (sent) r2 ev2 where "\<forall>n. body = Fixed n \<longrightarrow> length initial \<le> n" "send_upstream ans reads initial header body = (r2, ev2)"
      "upstream_bytes ev = upstream_bytes ev2" "r2 = Inr () \<longleftrightarrow> r = Inr () \<or> r = Inl Relay_Aborted" "r2 = Inl Body_Deadline \<longrightarrow> r = Inl Body_Deadline"
proof (cases "(case body of Fixed len \<Rightarrow> \<not> initial_body_bytes_allowed len (length initial) | Chunked \<Rightarrow> False)")
  case True
  show thesis by (rule none) (use assms True in \<open>auto simp: proxy_single_request_def\<close>)
next
  case False
  obtain r1 ev1 where c1: "connect_upstream ans = (r1, ev1)" by (cases "connect_upstream ans")
  then have e1: "upstream_bytes ev1 = []" using connect_upstream_bytes [of ans] by simp
  obtain r2 ev2 where c2: "send_upstream ans reads initial header body = (r2, ev2)" by (cases "send_upstream ans reads initial header body")
  obtain r3 ev3 where c3: "relay_response (response ans) = (r3, ev3)" by (cases "relay_response (response ans)")
  then have e3: "upstream_bytes ev3 = []" "r3 = Inr () \<or> r3 = Inl Relay_Aborted" using relay_response_bytes [of "response ans"]
    by (simp, cases "response ans") auto
  have n2: "r2 \<noteq> Inl Relay_Aborted" using send_upstream_failure c2 by (metis fst_conv)
  show thesis
  proof (cases r1)
    case (Inl e)
    show thesis by (rule none) (use assms False c1 Inl e1 in \<open>auto simp: proxy_single_request_def connect_upstream_def split: connect_answer.splits\<close>)
  next
    case (Inr u)
    show thesis
    proof (rule sent [OF _ c2])
      show "\<forall>n. body = Fixed n \<longrightarrow> length initial \<le> n" using False by (auto simp: initial_body_bytes_allowed_def)
    qed (use assms False c1 c2 c3 e1 e3 n2 Inr in \<open>auto simp: proxy_single_request_def Let_def split: sum.splits\<close>)
  qed
qed


subsection \<open>Examples\<close>

definition example_answers :: upstream_answers where
  "example_answers = \<lparr>connects = Connected, body_expires = None, response = Relay_Done ''HTTP/1.1 204'', upgrade_reads = [], upgrade_expires = False\<rparr>"

definition example_text :: string where
  "example_text = ''5;x=1'' @ CRLF @ ''hello'' @ CRLF @ ''0'' @ CRLF @ ''A: b'' @ CRLF @ CRLF"

definition example_events :: "proxy_event list" where
  "example_events = [To_Upstream (plan_header example_plan @ canonical_body [''hello'']), To_Client ''HTTP/1.1 204'']"

lemma example_sent:
  "send_upstream example_answers [Inr example_text] [] (plan_header example_plan) Chunked
     = (Inr (), [To_Upstream (plan_header example_plan @ canonical_body [''hello''])])"
proof -
  have "forward_chunked_body [Inr example_text] [] MAX_REQUEST_BODY_BYTES = (Inr [], canonical_body [''hello''])"
    using forward_complete [of "[example_text]" "[''hello'']" "[]" MAX_REQUEST_BODY_BYTES "[]"] example_body
    by (simp add: example_text_def data_length_def MAX_REQUEST_BODY_BYTES_def)
  then show ?thesis by (simp add: send_upstream_def forward_request_def example_answers_def)
qed

lemma example_exchange:
  "proxy_request example_answers [Inr example_text] example_head (length example_head) example_plan = (Inr (), example_events)"
  using example_sent
  by (simp add: proxy_request_def example_mode proxy_single_request_def connect_upstream_def Let_def example_events_def)
    (simp add: example_answers_def example_plan_def)

lemma example_complete: "complete_request (plan_header example_plan @ canonical_body [''hello''])"
proof -
  obtain rl fs v where "planned_head example_client example_plan rl fs v" using plan_reads [OF example_planned] by blast
  from send_upstream_complete [OF this _ _ example_sent] show ?thesis by (simp add: example_mode)
qed


subsection \<open>Requests\<close>

text \<open>
  C3. Of everything the proxy writes to an upstream in an exchange, cut off anywhere, at most the whole is a complete
  request: the upstream never sees a second request, nor bytes after the first, whatever the client sent.
\<close>

theorem one_request_per_exchange:
  assumes "request_plan base64_decode derive_accept_key header client = Inr p"
    "proxy_request ans reads received header_end p = (r, ev)"
    "upstream_bytes ev = sent @ rest" "complete_request sent"
  shows "rest = []"
proof -
  obtain rl fs v where h: "planned_head client p rl fs v" using plan_reads [OF assms(1)] by blast
  have "sent \<noteq> []" using assms(4) find_header_end_bounds by (auto simp: complete_request_def)
  then have "upstream_bytes ev \<noteq> []" using assms(3) by simp
  from exchange_bytes [OF h assms(2) this] obtain b cut where b: "upstream_bytes ev @ cut = plan_header p @ b"
    "\<forall>b1 b2. b = b1 @ b2 \<longrightarrow> mode_body (plan_mode p) b1 \<longrightarrow> b2 = []" by blast
  have e: "sent @ (rest @ cut) = plan_header p @ b" using b(1) assms(3) by simp
  obtain b1 where b1: "sent = plan_header p @ b1" "mode_body (plan_mode p) b1" using planned_prefix [OF h e] assms(4) by blast
  then have "b = b1 @ (rest @ cut)" using e by simp
  then have "rest @ cut = []" using b(2) b1(2) by blast
  then show ?thesis by simp
qed

theorem one_request_per_exchange_witness:
  "\<exists>sent rest. upstream_bytes example_events = sent @ rest \<and> complete_request sent \<and> rest = []"
proof -
  have "upstream_bytes example_events = (plan_header example_plan @ canonical_body [''hello'']) @ []" by (simp add: example_events_def)
  then show ?thesis using example_complete one_request_per_exchange [OF example_planned example_exchange] by blast
qed

text \<open>
  C19. An exchange without an upgrade whose body budget does not run out completes its request exactly when the body of the
  client was read to its end: a body that is malformed, too large, cut short or followed by more never completes one.
\<close>

theorem request_complete_iff_body_accepted:
  assumes "request_plan base64_decode derive_accept_key header client = Inr p" "\<forall>accept. plan_mode p \<noteq> Web_Socket accept"
    "proxy_request ans reads received header_end p = (r, ev)" "r \<noteq> Inl Body_Deadline"
  shows "complete_request (upstream_bytes ev) \<longleftrightarrow> r = Inr () \<or> r = Inl Relay_Aborted"
proof -
  obtain rl fs v where h: "planned_head client p rl fs v" using plan_reads [OF assms(1)] by blast
  obtain body where body: "body_of (plan_mode p) = Some body" using assms(2) by (cases "plan_mode p") auto
  have s: "proxy_single_request ans reads (drop header_end received) (plan_header p) body (plan_expect_continue p) = (r, ev)"
    using assms(3) body by (cases "plan_mode p") (auto simp: proxy_request_def)
  then show ?thesis
  proof (cases rule: single_request_steps)
    case none
    then show ?thesis by (simp add: complete_request_def)
  next
    case (sent r2 ev2)
    then show ?thesis using send_upstream_complete [OF h body sent(1,2)] assms(4) by auto
  qed
qed

theorem request_complete_iff_body_accepted_witness: "complete_request (upstream_bytes example_events)"
  using request_complete_iff_body_accepted [OF example_planned _ example_exchange] by (simp add: example_mode)


subsection \<open>The bytes of a body of known length\<close>

text \<open>What the client sends: the bytes of its reads up to the first that fails or is empty.\<close>

fun stream :: "(string + string) list \<Rightarrow> string" where
  "stream (Inr seg # reads) = (if seg = [] then [] else seg @ stream reads)"
| "stream _ = []"

lemma copy_limited_bytes: "copy_limited reads n = (res, w) \<Longrightarrow> w = take n (stream reads)"
proof (induction reads n arbitrary: res w rule: copy_limited.induct)
  case (4 seg reads n)
  show ?case
  proof (cases "seg \<noteq> [] \<and> length seg \<le> Suc n")
    case True
    obtain res1 w1 where c: "copy_limited reads (Suc n - length seg) = (res1, w1)" by (cases "copy_limited reads (Suc n - length seg)")
    have "w1 = take (Suc n - length seg) (stream reads)" using 4(1) True c by simp
    then show ?thesis using 4(2) True c by (auto split: sum.splits prod.splits)
  next
    case False
    then show ?thesis using 4(2) by (auto split: if_splits)
  qed
qed auto

text \<open>
  C34. When an exchange with a body of known length succeeds, the upstream gets the head and exactly that many bytes of the
  client: those that came with the head and the next ones of the connection.
\<close>

theorem fixed_body_forwarded:
  assumes "plan_mode p = Fixed_Body n" "proxy_request ans reads received header_end p = (Inr (), ev)"
  shows "upstream_bytes ev = plan_header p @ take n (drop header_end received @ stream reads)
    \<and> length (drop header_end received) \<le> n \<and> n \<le> length (drop header_end received @ stream reads)"
proof -
  let ?i = "drop header_end received"
  have s: "proxy_single_request ans reads ?i (plan_header p) (Fixed n) (plan_expect_continue p) = (Inr (), ev)"
    using assms by (simp add: proxy_request_def)
  then show ?thesis
  proof (cases rule: single_request_steps)
    case (sent r2 ev2)
    have i: "length ?i \<le> n" using sent(1) by blast
    obtain res out where f: "forward_request reads (plan_header p) ?i (Fixed n) = (res, out)" by (cases "forward_request reads (plan_header p) ?i (Fixed n)")
    have o: "upstream_bytes ev = out" "\<exists>rest. res = Inr rest"
      using sent(2-4) f by (auto simp: send_upstream_def split: option.splits sum.splits)
    obtain res1 w where c: "copy_limited reads (n - length ?i) = (res1, w)" by (cases "copy_limited reads (n - length ?i)")
    have w: "out = plan_header p @ ?i @ w \<and> length w = n - length ?i"
      using f c o(2) copy_limited_result [OF c] by (cases "n - length ?i") (auto simp: forward_request_def split: sum.splits if_splits)
    have "w = take (n - length ?i) (stream reads)" by (rule copy_limited_bytes [OF c])
    then show ?thesis using o(1) w i by auto
  qed simp
qed

theorem fixed_body_forwarded_witness:
  "proxy_request example_answers [Inr ''cde''] ''HEADab'' 4 \<lparr>plan_host = ''h'', plan_header = ''H'', plan_mode = Fixed_Body 3, plan_expect_continue = False\<rparr>
     = (Inr (), [To_Upstream ''Habc'', To_Client ''HTTP/1.1 204''])
   \<and> upstream_bytes [To_Upstream ''Habc'', To_Client ''HTTP/1.1 204''] = ''H'' @ take 3 (drop 4 ''HEADab'' @ stream [Inr ''cde''])"
proof -
  let ?p = "\<lparr>plan_host = ''h'', plan_header = ''H'', plan_mode = Fixed_Body 3, plan_expect_continue = False\<rparr>"
  have e: "proxy_request example_answers [Inr ''cde''] ''HEADab'' 4 ?p = (Inr (), [To_Upstream ''Habc'', To_Client ''HTTP/1.1 204''])"
    by code_simp
  have "plan_mode ?p = Fixed_Body 3" "plan_header ?p = ''H''" by simp_all
  then show ?thesis using fixed_body_forwarded [OF _ e, of 3] e by simp
qed


subsection \<open>Upgrades\<close>

lemma split_crlf_append: "split_crlf (y @ CRLF @ z) = split_crlf y @ split_crlf z"
proof (induction y rule: split_crlf.induct)
  case (3 c d r)
  have "split_crlf (d # r) \<noteq> []" by (cases r) (auto split: list.splits)
  then show ?case using 3 by (auto simp: CRLF_def split: list.splits)
qed (auto simp: CRLF_def)

lemma find_header_end_text: "find_header_end t = Some n \<Longrightarrow> \<exists>y. take n t = y @ CRLF @ CRLF"
proof (induction t arbitrary: n)
  case (Cons c t)
  show ?case
  proof (cases "starts_with [CR, LF, CR, LF] (c # t)")
    case True
    then show ?thesis using Cons.prems by (intro exI [of _ "[]"]) (auto simp: starts_with_iff CRLF_def)
  next
    case False
    then obtain m where m: "find_header_end t = Some m" "n = Suc m" using Cons.prems by auto
    then obtain y where "take m t = y @ CRLF @ CRLF" using Cons.IH by blast
    then show ?thesis using m(2) by (intro exI [of _ "c # y"]) simp
  qed
qed simp

text \<open>The values of the fields of a given name.\<close>

definition valued :: "string \<Rightarrow> (string \<times> string) list \<Rightarrow> string list" where
  "valued k fs = map (\<lambda>f. trim (snd f)) (filter (\<lambda>f. eq_ignore_case (fst f) k) fs)"

lemma valued_simps [simp]:
  "valued k [] = []" "valued k (f # fs) = (if eq_ignore_case (fst f) k then [trim (snd f)] else []) @ valued k fs"
  by (simp_all add: valued_def)

definition taken :: "string list \<Rightarrow> string option \<Rightarrow> string option \<Rightarrow> bool" where
  "taken vs old new \<longleftrightarrow> (vs = [] \<and> new = old) \<or> (\<exists>v. vs = [v] \<and> old = None \<and> new = Some v)"

definition response_taken :: "(string \<times> string) list \<Rightarrow> response_state \<Rightarrow> response_state \<Rightarrow> bool" where
  "response_taken fs st st' \<longleftrightarrow> taken (valued ''connection'' fs) (r_connection st) (r_connection st')
     \<and> taken (valued ''upgrade'' fs) (r_upgrade st) (r_upgrade st') \<and> taken (valued ''sec-websocket-accept'' fs) (r_accept st) (r_accept st')
     \<and> valued ''content-length'' fs = [] \<and> valued ''transfer-encoding'' fs = []"

lemma accept_name: "to_lower ''sec-websocket-accept'' = ''sec-websocket-accept''"
  by code_simp

lemma response_line_taken:
  assumes "response_line l st = Inr st1" "response_taken fs st1 st'"
  shows "\<exists>f. split_once (CHR '':'') l = Some f \<and> response_taken (f # fs) st st'"
proof -
  obtain name v where s: "split_once (CHR '':'') l = Some (name, v)"
    using assms(1) by (auto simp: response_line_def split: option.splits)
  have no: "\<not> eq_ignore_case name ''content-length''" "\<not> eq_ignore_case name ''transfer-encoding''"
    using assms(1) s by (auto simp: response_line_def split: if_splits)
  have one: "\<not> (eq_ignore_case name ''connection'' \<and> eq_ignore_case name ''upgrade'')"
    "\<not> (eq_ignore_case name ''connection'' \<and> eq_ignore_case name ''sec-websocket-accept'')"
    "\<not> (eq_ignore_case name ''upgrade'' \<and> eq_ignore_case name ''sec-websocket-accept'')"
    by (auto simp: eq_ignore_case_def lower_names accept_name)
  show ?thesis using assms s no one
    by (intro exI [of _ "(name, v)"]) (auto simp: response_line_def response_taken_def taken_def split: if_splits)
qed

lemma response_lines_taken:
  assumes "response_lines ls st = Inr st'" "[] \<in> set ls"
  shows "\<exists>fs. read_fields ls = Some fs \<and> response_taken fs st st'"
  using assms
proof (induction ls arbitrary: st)
  case (Cons l ls)
  show ?case
  proof (cases "l = []")
    case True
    then show ?thesis using Cons.prems by (simp add: response_taken_def taken_def)
  next
    case False
    then obtain st1 where s: "response_line l st = Inr st1" "response_lines ls st1 = Inr st'" using Cons.prems(1) by (auto simp: res_simps)
    then obtain fs where fs: "read_fields ls = Some fs" "response_taken fs st1 st'" using Cons.IH Cons.prems(2) False by auto
    then show ?thesis using response_line_taken [OF s(1) fs(2)] False by auto
  qed
qed simp

lemma token_list_found: "token_list_has found ts e = Inr True \<Longrightarrow> found \<or> (\<exists>t \<in> set ts. eq_ignore_case (trim t) e)"
  by (induction ts arbitrary: found) (auto simp: Let_def split: if_splits)

definition upgrade_accepted :: "string \<Rightarrow> string \<Rightarrow> bool" where
  "upgrade_accepted accept head \<longleftrightarrow>
     (\<exists>status fs c u. read_head head = Some (status, fs) \<and> status_line_ok status
        \<and> valued ''connection'' fs = [c] \<and> (\<exists>t \<in> set (split_char (CHR '','') c). eq_ignore_case (trim t) ''upgrade'')
        \<and> valued ''upgrade'' fs = [u] \<and> eq_ignore_case u ''websocket'' \<and> valued ''sec-websocket-accept'' fs = [accept]
        \<and> valued ''content-length'' fs = [] \<and> valued ''transfer-encoding'' fs = [])"

lemma validate_websocket_response_sound:
  assumes "validate_websocket_response (take n resp) accept = Inr ()" "find_header_end resp = Some n"
  shows "upgrade_accepted accept (take n resp)"
proof -
  obtain y where y: "take n resp = y @ CRLF @ CRLF" using find_header_end_text [OF assms(2)] by blast
  have "split_crlf CRLF = [[], []]" by code_simp
  then have s: "split_crlf (take n resp) = split_crlf y @ [[], []]" using y split_crlf_append [of y CRLF] by simp
  obtain status ls st where h: "split_crlf (take n resp) = status # ls" "status_line_ok status"
    "response_lines ls \<lparr>r_connection = None, r_upgrade = None, r_accept = None\<rparr> = Inr st" "accept_response accept st = Inr ()"
    using assms(1) by (auto simp: validate_websocket_response_def res_simps split: if_splits list.splits)
  have "[] \<in> set ls" using s h(1) by (cases "split_crlf y") auto
  from response_lines_taken [OF h(3) this] obtain fs where fs: "read_fields ls = Some fs"
    "response_taken fs \<lparr>r_connection = None, r_upgrade = None, r_accept = None\<rparr> st" by blast
  obtain c u where a: "r_connection st = Some c" "header_has_token c ''upgrade'' = Inr True" "r_upgrade st = Some u" "eq_ignore_case u ''websocket''"
    "r_accept st = Some accept"
    using h(4) by (auto simp: accept_response_def split: option.splits sum.splits if_splits)
  have "read_head (take n resp) = Some (status, fs)" using h(1) fs(1) by (simp add: read_head_def)
  moreover have "\<exists>t \<in> set (split_char (CHR '','') c). eq_ignore_case (trim t) ''upgrade''"
    using a(2) token_list_found unfolding header_has_token_def by blast
  ultimately show ?thesis using fs(2) a h(2)
    by (auto simp: upgrade_accepted_def response_taken_def taken_def)
qed

definition example_response :: string where
  "example_response = ''HTTP/1.1 101 Ok'' @ CRLF @ ''Connection: Upgrade'' @ CRLF @ ''Upgrade: websocket'' @ CRLF
     @ ''Sec-WebSocket-Accept: k'' @ CRLF @ CRLF"

lemma example_upgrade:
  "proxy_websocket_upgrade (example_answers\<lparr>upgrade_reads := [Inr example_response]\<rparr>) ''H'' ''k''
     = (Inr (), [To_Upstream ''H'', To_Client example_response, Tunnel])"
proof -
  have v: "validate_websocket_response example_response ''k'' = Inr ()" by code_simp
  have f: "find_header_end example_response = Some (length example_response)" by code_simp
  have n: "example_response \<noteq> []" "length example_response \<le> MAX_UPSTREAM_UPGRADE_HEADER_BYTES"
    by (simp_all add: example_response_def MAX_UPSTREAM_UPGRADE_HEADER_BYTES_def)
  then have "read_response_head [] [Inr example_response] = Inr example_response" using f by simp
  then show ?thesis using v f by (simp add: proxy_websocket_upgrade_def connect_upstream_def example_answers_def)
qed

text \<open>
  C20. The connection of a client becomes a tunnel only for a planned WebSocket request that came with nothing after its head,
  and only once the upstream has accepted the upgrade: with status 101, one \<open>Connection\<close> field naming the upgrade, one
  \<open>Upgrade\<close> to \<open>websocket\<close>, the accept key derived from the client's key, and no framing of a body; that response is what
  the client has got.
\<close>

theorem tunnel_only_after_handshake:
  assumes "proxy_request ans reads received header_end p = (r, ev)" "Tunnel \<in> set ev"
  shows "\<exists>accept resp n. plan_mode p = Web_Socket accept \<and> length received = header_end \<and> r = Inr ()
    \<and> ev = [To_Upstream (plan_header p), To_Client resp, Tunnel]
    \<and> find_header_end resp = Some n \<and> upgrade_accepted accept (take n resp)"
proof -
  have no: "Tunnel \<notin> set (snd (proxy_single_request ans reads i h body c))" for i h body c
  proof -
    have "Tunnel \<notin> set (snd (connect_upstream ans))" by (simp add: connect_upstream_def split: connect_answer.splits)
    moreover have "Tunnel \<notin> set (snd (send_upstream ans reads i h body))" by (auto simp: send_upstream_def split: option.splits sum.splits prod.splits)
    moreover have "Tunnel \<notin> set (snd (relay_response (response ans)))" by (cases "response ans") auto
    ultimately show ?thesis by (auto simp: proxy_single_request_def Let_def split: sum.splits prod.splits)
  qed
  obtain accept where m: "plan_mode p = Web_Socket accept" using assms no by (cases "plan_mode p") (auto simp: proxy_request_def, (metis snd_conv)+)
  have l: "length received = header_end" using assms m by (cases "length received = header_end") (auto simp: proxy_request_def)
  have u: "proxy_websocket_upgrade ans (plan_header p) accept = (r, ev)" using assms(1) m l by (simp add: proxy_request_def)
  have c: "connects ans = Connected" using u assms(2)
    by (cases "connects ans") (auto simp: proxy_websocket_upgrade_def connect_upstream_def)
  obtain resp n where x: "read_response_head [] (upgrade_reads ans) = Inr resp" "find_header_end resp = Some n"
    "validate_websocket_response (take n resp) accept = Inr ()" "r = Inr ()" "ev = [To_Upstream (plan_header p), To_Client resp, Tunnel]"
    using u assms(2) c by (auto simp: proxy_websocket_upgrade_def connect_upstream_def Let_def split: if_splits sum.splits option.splits)
  then show ?thesis using m l validate_websocket_response_sound by blast
qed

theorem tunnel_only_after_handshake_witness:
  "\<exists>accept resp n. Web_Socket ''k'' = Web_Socket accept \<and> find_header_end resp = Some n \<and> upgrade_accepted accept (take n resp)
    \<and> [To_Upstream ''H'', To_Client example_response, Tunnel] = [To_Upstream ''H'', To_Client resp, Tunnel]"
proof -
  let ?p = "\<lparr>plan_host = ''h'', plan_header = ''H'', plan_mode = Web_Socket ''k'', plan_expect_continue = False\<rparr>"
  have "proxy_request (example_answers\<lparr>upgrade_reads := [Inr example_response]\<rparr>) [] ''HEAD'' 4 ?p
      = (Inr (), [To_Upstream ''H'', To_Client example_response, Tunnel])"
    using example_upgrade by (simp add: proxy_request_def)
  from tunnel_only_after_handshake [OF this] show ?thesis by auto
qed

end
