(* ===== verification/Http_Routes.thy ===== *)
theory Http_Routes
  imports Prelude
begin

text \<open>
  The routes of the HTTP proxy, \<open>tools/http-proxy/src/snapshot.rs\<close>: the snapshots of the control connection, their leases, and the
  authorizations that the exchanges hold while they last.

  A moment of the monotonic clock is a number of milliseconds; \<open>instant_limit\<close> is the last moment the platform can represent. An
  \<open>Arc\<close> is the number of its allocation: the code compares only pointers that are held on both sides, so they are never reused.
  A \<open>HashMap\<close> is an association list, and the state behind the mutex is the record \<open>snapshot_store\<close>. Certificates are read by
  another package, the argument \<open>certify\<close>.

  \<open>route_run\<close> runs the operations in any order on a clock that only moves forward. Beside the store it keeps, for every
  authorization that was granted, whether the route it was granted for has been served without a gap since: at every later
  operation the lease still ran, and the snapshot then held carried the host name with the same authority. That history does not
  mention incarnations. The invariant ties the two together, and the theorem is that an authorization is honoured exactly as
  long as there was no gap and the lease runs.
\<close>

subsection \<open>Snapshots\<close>

datatype route_error = Invalid_Stale_After | Lease_Overflow | Valid_Until_Too_Far | Lease_Already_Expired | Deadline_Overflow
  | Invalid_Wildcard | Missing_Certificate | Missing_Key | Bad_Certificate | Expired_Before_Installation

record route =
  binding_id :: string
  hostname :: string
  domain_pool_id :: string
  routed_ip :: string
  target_port :: nat
  owner_id :: string
  container_id :: string
  container_name :: string
  instance_name :: string
  route_status :: string

definition same_authority :: "route \<Rightarrow> route \<Rightarrow> bool" where
  "same_authority a b \<longleftrightarrow> binding_id a = binding_id b \<and> hostname a = hostname b \<and> domain_pool_id a = domain_pool_id b
     \<and> owner_id a = owner_id b \<and> container_id a = container_id b \<and> instance_name a = instance_name b
     \<and> routed_ip a = routed_ip b \<and> target_port a = target_port b"

record domain_pool =
  wildcard_domain :: string
  certificate_pem :: "string option"
  private_key_pem :: "string option"

record proxy_snapshot =
  snapshot_generation :: nat
  stale_after_ms :: nat
  valid_until_ms :: nat
  snapshot_routes :: "route list"
  domain_pools :: "domain_pool list"

record authorized_route =
  served_route :: route
  incarnation :: nat

record routing_snapshot =
  generation :: nat
  received_at :: nat
  deadline :: nat
  routes :: "(string \<times> authorized_route) list"
  certs :: "(string \<times> string) list"

definition MAX_SNAPSHOT_STALE_AFTER_MS :: nat where
  "MAX_SNAPSHOT_STALE_AFTER_MS = 300000"

definition MAX_SNAPSHOT_CLOCK_SKEW_MS :: nat where
  "MAX_SNAPSHOT_CLOCK_SKEW_MS = 30000"

definition absolute_snapshot_remaining :: "nat \<Rightarrow> nat \<Rightarrow> nat \<Rightarrow> route_error + nat" where
  "absolute_snapshot_remaining valid_until stale_after wall_now =
     (if wall_now + stale_after \<ge> 2 ^ 64 \<or> wall_now + stale_after + MAX_SNAPSHOT_CLOCK_SKEW_MS \<ge> 2 ^ 64 then Inl Lease_Overflow
      else if valid_until > wall_now + stale_after + MAX_SNAPSHOT_CLOCK_SKEW_MS then Inl Valid_Until_Too_Far
      else if valid_until \<le> wall_now then Inl Lease_Already_Expired
      else Inr (valid_until - wall_now))"

definition label_ok :: "string \<Rightarrow> bool" where
  "label_ok l \<longleftrightarrow> l \<noteq> [] \<and> length l \<le> 63 \<and> hd l \<noteq> CHR ''-'' \<and> last l \<noteq> CHR ''-''
     \<and> list_all (\<lambda>c. is_digit c \<or> is_upper c \<or> is_lower c \<or> c = CHR ''-'') l"

definition is_valid_wildcard_domain :: "string \<Rightarrow> bool" where
  "is_valid_wildcard_domain v \<longleftrightarrow> starts_with ''*.'' v \<and>
     (let suffix = drop 2 v in suffix \<noteq> [] \<and> length suffix \<le> 253 \<and> list_all label_ok (split_char (CHR ''.'') suffix))"

definition from_pool :: "(string \<Rightarrow> string \<Rightarrow> string option) \<Rightarrow> domain_pool \<Rightarrow> route_error + (string \<times> string)" where
  "from_pool certify pool =
     (if \<not> is_valid_wildcard_domain (wildcard_domain pool) then Inl Invalid_Wildcard
      else (case certificate_pem pool of
          None \<Rightarrow> Inl Missing_Certificate
        | Some cert \<Rightarrow>
            (case private_key_pem pool of
               None \<Rightarrow> Inl Missing_Key
             | Some key \<Rightarrow>
                 (case certify cert key of
                    None \<Rightarrow> Inl Bad_Certificate
                  | Some certified \<Rightarrow> Inr (to_lower (wildcard_domain pool), certified)))))"

text \<open>Every route gets a new incarnation; of two routes for one host name the later one stays.\<close>

fun collect_routes :: "nat \<Rightarrow> route list \<Rightarrow> (string \<times> authorized_route) list \<Rightarrow> (string \<times> authorized_route) list" where
  "collect_routes next [] m = m"
| "collect_routes next (r # rs) m =
     collect_routes (next + 1) rs (AList.update (hostname r) \<lparr>served_route = r, incarnation = next\<rparr> m)"

definition from_received ::
  "(string \<Rightarrow> string \<Rightarrow> string option) \<Rightarrow> nat \<Rightarrow> nat \<Rightarrow> nat \<Rightarrow> nat \<Rightarrow> proxy_snapshot \<Rightarrow> route_error + routing_snapshot" where
  "from_received certify instant_limit next received wall_now snap =
     (if stale_after_ms snap = 0 \<or> stale_after_ms snap > MAX_SNAPSHOT_STALE_AFTER_MS then Inl Invalid_Stale_After
      else bind_res (absolute_snapshot_remaining (valid_until_ms snap) (stale_after_ms snap) wall_now) (\<lambda>remaining.
        if received + remaining > instant_limit then Inl Deadline_Overflow
        else bind_res (map_res (from_pool certify) (domain_pools snap)) (\<lambda>cs.
          Inr \<lparr>generation = snapshot_generation snap, received_at = received, deadline = received + remaining,
               routes = collect_routes next (snapshot_routes snap) [], certs = cs\<rparr>)))"

definition inherit_incarnations :: "routing_snapshot \<Rightarrow> routing_snapshot \<Rightarrow> routing_snapshot" where
  "inherit_incarnations previous s =
     s\<lparr>routes := map (\<lambda>(h, x). (h,
         case map_of (routes previous) h of
           None \<Rightarrow> x
         | Some old \<Rightarrow> if same_authority (served_route old) (served_route x) then x\<lparr>incarnation := incarnation old\<rparr> else x)) (routes s)\<rparr>"

definition is_fresh :: "routing_snapshot \<Rightarrow> nat \<Rightarrow> bool" where
  "is_fresh s now \<longleftrightarrow> now < deadline s"


subsection \<open>The store\<close>

record snapshot_store =
  current :: "routing_snapshot option"
  generation_high_water :: "nat option"
  control_epoch :: nat
  revision :: nat
  allocations :: nat

record snapshot_lease =
  lease_generation :: nat
  lease_deadline :: nat
  lease_epoch :: nat

record route_authorization =
  authorized :: route
  authorized_incarnation :: nat

definition new_store :: snapshot_store where
  "new_store = \<lparr>current = None, generation_high_water = None, control_epoch = 0, revision = 0, allocations = 1\<rparr>"

definition signal_change :: "snapshot_store \<Rightarrow> snapshot_store" where
  "signal_change st = st\<lparr>revision := revision st + 1\<rparr>"

text \<open>The check at the start of every access: a snapshot whose lease has lapsed is dropped.\<close>

definition lapsed :: "nat \<Rightarrow> snapshot_store \<Rightarrow> bool" where
  "lapsed now st \<longleftrightarrow> (case current st of None \<Rightarrow> False | Some s \<Rightarrow> \<not> is_fresh s now)"

definition drop_lapsed :: "nat \<Rightarrow> snapshot_store \<Rightarrow> snapshot_store" where
  "drop_lapsed now st = (if lapsed now st then st\<lparr>current := None\<rparr> else st)"

definition signal_if :: "bool \<Rightarrow> snapshot_store \<Rightarrow> snapshot_store" where
  "signal_if b st = (if b then signal_change st else st)"

definition install_snapshot ::
  "(string \<Rightarrow> string \<Rightarrow> string option) \<Rightarrow> nat \<Rightarrow> nat \<Rightarrow> nat \<Rightarrow> nat \<Rightarrow> proxy_snapshot \<Rightarrow> snapshot_store
     \<Rightarrow> (route_error + snapshot_lease option) \<times> snapshot_store" where
  "install_snapshot certify instant_limit received installed wall_now snap st =
     (case from_received certify instant_limit (allocations st) received wall_now snap of
        Inl e \<Rightarrow> (Inl e, st)
      | Inr routing \<Rightarrow>
          if \<not> is_fresh routing installed then (Inl Expired_Before_Installation, st)
          else (let expired = lapsed received st; st1 = drop_lapsed received st
                in if (case generation_high_water st1 of None \<Rightarrow> False | Some g \<Rightarrow> g \<ge> snapshot_generation snap)
                   then (Inr None, signal_if expired st1)
                   else (let routing = (case current st1 of None \<Rightarrow> routing | Some c \<Rightarrow> inherit_incarnations c routing);
                             lease = \<lparr>lease_generation = snapshot_generation snap, lease_deadline = deadline routing, lease_epoch = control_epoch st1\<rparr>
                         in (Inr (Some lease),
                             signal_change (st1\<lparr>current := Some routing, generation_high_water := Some (snapshot_generation snap),
                               allocations := allocations st1 + length (snapshot_routes snap)\<rparr>)))))"

definition load_snapshot :: "nat \<Rightarrow> snapshot_store \<Rightarrow> routing_snapshot option \<times> snapshot_store" where
  "load_snapshot now st = (let st1 = drop_lapsed now st in (current st1, signal_if (lapsed now st) st1))"

definition expire_lease :: "snapshot_lease \<Rightarrow> nat \<Rightarrow> snapshot_store \<Rightarrow> bool \<times> snapshot_store" where
  "expire_lease lease now st =
     (let should = (case current st of
          None \<Rightarrow> False
        | Some s \<Rightarrow> control_epoch st = lease_epoch lease \<and> generation s = lease_generation lease \<and> deadline s = lease_deadline lease
            \<and> \<not> is_fresh s now)
      in (should, if should then signal_change (st\<lparr>current := None\<rparr>) else st))"

definition begin_control_epoch :: "snapshot_store \<Rightarrow> snapshot_store" where
  "begin_control_epoch st =
     signal_change (st\<lparr>generation_high_water := None, control_epoch := allocations st, allocations := allocations st + 1\<rparr>)"

definition clear_epoch :: "snapshot_store \<Rightarrow> snapshot_store" where
  "clear_epoch st =
     signal_change (st\<lparr>current := None, generation_high_water := None, control_epoch := allocations st, allocations := allocations st + 1\<rparr>)"

definition hold_after_disconnect :: "nat \<Rightarrow> nat \<Rightarrow> nat \<Rightarrow> snapshot_store \<Rightarrow> snapshot_store" where
  "hold_after_disconnect instant_limit hold now st =
     (if hold = 0 then clear_epoch st
      else (case current st of
          None \<Rightarrow> st
        | Some s \<Rightarrow>
            if now + hold \<le> instant_limit \<and> now + hold < deadline s
            then signal_change (st\<lparr>current := Some (s\<lparr>deadline := now + hold\<rparr>)\<rparr>)
            else st))"

definition authorize_route :: "string \<Rightarrow> nat \<Rightarrow> snapshot_store \<Rightarrow> route_authorization option \<times> snapshot_store" where
  "authorize_route host now st =
     (let st1 = drop_lapsed now st;
          auth = (case current st1 of
              None \<Rightarrow> None
            | Some s \<Rightarrow> map_option (\<lambda>x. \<lparr>authorized = served_route x, authorized_incarnation = incarnation x\<rparr>) (map_of (routes s) host))
      in (auth, signal_if (lapsed now st) st1))"

definition authorization_deadline :: "route_authorization \<Rightarrow> nat \<Rightarrow> snapshot_store \<Rightarrow> nat option \<times> snapshot_store" where
  "authorization_deadline expected now st =
     (let st1 = drop_lapsed now st;
          until = (case current st1 of
              None \<Rightarrow> None
            | Some s \<Rightarrow>
                (case map_of (routes s) (hostname (authorized expected)) of
                   None \<Rightarrow> None
                 | Some x \<Rightarrow> if incarnation x = authorized_incarnation expected then Some (deadline s) else None))
      in (until, signal_if (lapsed now st) st1))"

definition authorization_is_current :: "route_authorization \<Rightarrow> nat \<Rightarrow> snapshot_store \<Rightarrow> bool \<times> snapshot_store" where
  "authorization_is_current expected now st =
     (let (until, st1) = authorization_deadline expected now st in (until \<noteq> None, st1))"

definition hostname_matches_wildcard :: "string \<Rightarrow> string \<Rightarrow> bool" where
  "hostname_matches_wildcard host wildcard =
     (let w = to_lower (rev (dropWhile (\<lambda>c. c = CHR ''.'') (rev wildcard)));
          suffix = (if starts_with ''*'' w then drop 1 w else w)
      in ends_with suffix host \<and> (let prefix = take (length host - length suffix) host in prefix \<noteq> [] \<and> CHR ''.'' \<notin> set prefix))"

definition resolve_cert :: "string option \<Rightarrow> nat \<Rightarrow> snapshot_store \<Rightarrow> string option \<times> snapshot_store" where
  "resolve_cert server_name now st =
     (case server_name of
        None \<Rightarrow> (None, st)
      | Some name \<Rightarrow>
          (let sni = to_lower (rev (dropWhile (\<lambda>c. c = CHR ''.'') (rev name))); (loaded, st1) = load_snapshot now st
           in (case loaded of
                 None \<Rightarrow> None
               | Some s \<Rightarrow> map_option snd (find (\<lambda>c. hostname_matches_wildcard sni (fst c)) (certs s)), st1)))"


subsection \<open>Runs\<close>

datatype route_op = Install nat nat nat proxy_snapshot | Load nat | Expire snapshot_lease nat | Begin_Epoch nat | Clear nat
  | Disconnected nat nat | Authorize string nat | Check route_authorization nat

record route_run =
  route_store :: snapshot_store
  route_clock :: nat
  granted :: "(route_authorization \<times> bool) list"

text \<open>The state after an operation at the moments the clock gives it.\<close>

fun apply_route_op ::
  "(string \<Rightarrow> string \<Rightarrow> string option) \<Rightarrow> nat \<Rightarrow> nat \<Rightarrow> route_op \<Rightarrow> snapshot_store \<Rightarrow> snapshot_store" where
  "apply_route_op certify instant_limit now (Install wait check wall_now snap) st =
     snd (install_snapshot certify instant_limit now (now + check) wall_now snap st)"
| "apply_route_op certify instant_limit now (Load wait) st = snd (load_snapshot now st)"
| "apply_route_op certify instant_limit now (Expire lease wait) st = snd (expire_lease lease now st)"
| "apply_route_op certify instant_limit now (Begin_Epoch wait) st = begin_control_epoch st"
| "apply_route_op certify instant_limit now (Clear wait) st = clear_epoch st"
| "apply_route_op certify instant_limit now (Disconnected hold wait) st = hold_after_disconnect instant_limit hold now st"
| "apply_route_op certify instant_limit now (Authorize host wait) st = snd (authorize_route host now st)"
| "apply_route_op certify instant_limit now (Check auth wait) st = snd (authorization_deadline auth now st)"

fun op_wait :: "route_op \<Rightarrow> nat" where
  "op_wait (Install wait check wall_now snap) = wait"
| "op_wait (Load wait) = wait"
| "op_wait (Expire lease wait) = wait"
| "op_wait (Begin_Epoch wait) = wait"
| "op_wait (Clear wait) = wait"
| "op_wait (Disconnected hold wait) = wait"
| "op_wait (Authorize host wait) = wait"
| "op_wait (Check auth wait) = wait"

fun op_check :: "route_op \<Rightarrow> nat" where
  "op_check (Install wait check wall_now snap) = check"
| "op_check _ = 0"

fun op_grants :: "nat \<Rightarrow> route_op \<Rightarrow> snapshot_store \<Rightarrow> route_authorization option" where
  "op_grants now (Authorize host wait) st = fst (authorize_route host now st)"
| "op_grants now _ st = None"

definition carries :: "route_authorization \<Rightarrow> routing_snapshot \<Rightarrow> bool" where
  "carries auth s \<longleftrightarrow>
     (case map_of (routes s) (hostname (authorized auth)) of
        None \<Rightarrow> False
      | Some x \<Rightarrow> same_authority (authorized auth) (served_route x))"

text \<open>No gap at an operation: the lease still ran, and the snapshot held afterwards carries the route.\<close>

definition no_gap :: "route_authorization \<Rightarrow> nat \<Rightarrow> snapshot_store \<Rightarrow> snapshot_store \<Rightarrow> bool" where
  "no_gap auth now st st' \<longleftrightarrow>
     (case current st of None \<Rightarrow> False | Some s \<Rightarrow> is_fresh s now)
     \<and> (case current st' of None \<Rightarrow> False | Some s' \<Rightarrow> carries auth s')"

definition route_step :: "(string \<Rightarrow> string \<Rightarrow> string option) \<Rightarrow> nat \<Rightarrow> route_run \<Rightarrow> route_op \<Rightarrow> route_run" where
  "route_step certify instant_limit run op1 =
     (let now = route_clock run + op_wait op1;
          st = route_store run;
          st' = apply_route_op certify instant_limit now op1 st
      in \<lparr>route_store = st', route_clock = now + op_check op1,
          granted = map (\<lambda>(a, unbroken). (a, unbroken \<and> no_gap a now st st')) (granted run)
            @ (case op_grants now op1 st of None \<Rightarrow> [] | Some a \<Rightarrow> [(a, True)])\<rparr>)"

definition route_start :: "nat \<Rightarrow> route_run" where
  "route_start now = \<lparr>route_store = new_store, route_clock = now, granted = []\<rparr>"

definition route_trace :: "(string \<Rightarrow> string \<Rightarrow> string option) \<Rightarrow> nat \<Rightarrow> nat \<Rightarrow> route_op list \<Rightarrow> route_run" where
  "route_trace certify instant_limit start ops = foldl (route_step certify instant_limit) (route_start start) ops"


subsection \<open>Incarnations\<close>

lemma same_authority_refl [simp]: "same_authority a a"
  by (simp add: same_authority_def)

lemma same_authority_sym: "same_authority a b \<Longrightarrow> same_authority b a"
  by (auto simp: same_authority_def)

lemma same_authority_trans: "same_authority a b \<Longrightarrow> same_authority b c \<Longrightarrow> same_authority a c"
  by (auto simp: same_authority_def)

lemma map_of_map_key: "map_of (map (\<lambda>(k, v). (k, f k v)) xs) k = map_option (f k) (map_of xs k)"
  by (induction xs) auto

text \<open>The routes of a snapshot under their host names, with incarnations up to a bound.\<close>

definition routes_ok :: "nat \<Rightarrow> (string \<times> authorized_route) list \<Rightarrow> bool" where
  "routes_ok bound m \<longleftrightarrow> (\<forall>h x. map_of m h = Some x \<longrightarrow> hostname (served_route x) = h \<and> incarnation x < bound)"

lemma collect_routes_lookup:
  assumes "map_of (collect_routes n rs m) h = Some x"
  shows "map_of m h = Some x \<or> (hostname (served_route x) = h \<and> n \<le> incarnation x \<and> incarnation x < n + length rs)"
  using assms
proof (induction rs arbitrary: n m)
  case (Cons r rs)
  from Cons.IH [OF Cons.prems [unfolded collect_routes.simps]] show ?case
    by (auto simp: update_conv split: if_splits)
qed simp

lemma inherit_lookup:
  "map_of (routes (inherit_incarnations previous s)) h = map_option (\<lambda>x.
     case map_of (routes previous) h of
       None \<Rightarrow> x
     | Some old \<Rightarrow> if same_authority (served_route old) (served_route x) then x\<lparr>incarnation := incarnation old\<rparr> else x) (map_of (routes s) h)"
  by (simp add: inherit_incarnations_def map_of_map_key)

lemma carries_iff:
  "carries a s \<longleftrightarrow> (\<exists>x. map_of (routes s) (hostname (authorized a)) = Some x \<and> same_authority (authorized a) (served_route x))"
  by (simp add: carries_def split: option.splits)

lemma inherit_carries: "carries a (inherit_incarnations previous s) \<longleftrightarrow> carries a s"
  by (auto simp: carries_def inherit_lookup split: option.splits)


subsection \<open>The invariant\<close>

text \<open>The snapshot held serves the incarnation of an authorization.\<close>

definition serves_route :: "route_authorization \<Rightarrow> routing_snapshot \<Rightarrow> bool" where
  "serves_route a s \<longleftrightarrow> (\<exists>x. map_of (routes s) (hostname (authorized a)) = Some x \<and> incarnation x = authorized_incarnation a)"

definition grant_ok :: "nat \<Rightarrow> snapshot_store \<Rightarrow> route_authorization \<times> bool \<Rightarrow> bool" where
  "grant_ok now st g \<longleftrightarrow> authorized_incarnation (fst g) < allocations st
     \<and> (if snd g then \<exists>s. current st = Some s \<and> serves_route (fst g) s \<and> carries (fst g) s
        else \<forall>s. current st = Some s \<longrightarrow> serves_route (fst g) s \<longrightarrow> deadline s \<le> now)"

definition store_ok :: "snapshot_store \<Rightarrow> bool" where
  "store_ok st \<longleftrightarrow> (\<forall>s. current st = Some s \<longrightarrow> routes_ok (allocations st) (routes s))"

definition route_inv :: "route_run \<Rightarrow> bool" where
  "route_inv run \<longleftrightarrow> store_ok (route_store run) \<and> (\<forall>g \<in> set (granted run). grant_ok (route_clock run) (route_store run) g)"

text \<open>
  The effect of an operation on the snapshot held: it stays, at most with a shorter lease; or it goes; or, its lease still running
  or none held, another takes its place, which inherits.
\<close>

definition snapshot_kept :: "snapshot_store \<Rightarrow> snapshot_store \<Rightarrow> bool" where
  "snapshot_kept st st' \<longleftrightarrow> allocations st \<le> allocations st' \<and>
     (case (current st, current st') of
        (None, None) \<Rightarrow> True
      | (Some s, Some s') \<Rightarrow> routes s' = routes s \<and> deadline s' \<le> deadline s
      | _ \<Rightarrow> False)"

definition dropped :: "snapshot_store \<Rightarrow> snapshot_store \<Rightarrow> bool" where
  "dropped st st' \<longleftrightarrow> allocations st \<le> allocations st' \<and> current st' = None"

definition new_incarnation :: "nat \<Rightarrow> snapshot_store \<Rightarrow> snapshot_store \<Rightarrow> string \<Rightarrow> authorized_route \<Rightarrow> bool" where
  "new_incarnation now st st' h x \<longleftrightarrow> allocations st \<le> incarnation x \<and> incarnation x < allocations st'
     \<and> (\<forall>s old. current st = Some s \<longrightarrow> is_fresh s now \<longrightarrow> map_of (routes s) h = Some old
          \<longrightarrow> \<not> same_authority (served_route old) (served_route x))"

definition old_incarnation :: "nat \<Rightarrow> snapshot_store \<Rightarrow> string \<Rightarrow> authorized_route \<Rightarrow> bool" where
  "old_incarnation now st h x \<longleftrightarrow> (\<exists>s old. current st = Some s \<and> is_fresh s now \<and> map_of (routes s) h = Some old
     \<and> same_authority (served_route old) (served_route x) \<and> incarnation x = incarnation old)"

definition replaced :: "nat \<Rightarrow> snapshot_store \<Rightarrow> snapshot_store \<Rightarrow> bool" where
  "replaced now st st' \<longleftrightarrow> allocations st \<le> allocations st' \<and> (\<exists>s'. current st' = Some s' \<and>
     (\<forall>h x. map_of (routes s') h = Some x \<longrightarrow> hostname (served_route x) = h \<and> (new_incarnation now st st' h x \<or> old_incarnation now st h x)))"

lemma replaced_lookup:
  assumes "replaced now st st'" "current st' = Some s'" "map_of (routes s') h = Some x"
  shows "hostname (served_route x) = h" "new_incarnation now st st' h x \<or> old_incarnation now st h x"
  using assms by (auto simp: replaced_def)

lemma lapse_kept: "\<not> lapsed now st \<Longrightarrow> snapshot_kept st (signal_if b (drop_lapsed now st))"
  by (auto simp: snapshot_kept_def signal_if_def signal_change_def drop_lapsed_def split: option.splits)

lemma lapse_dropped: "lapsed now st \<Longrightarrow> dropped st (signal_if b (drop_lapsed now st))"
  by (auto simp: dropped_def signal_if_def signal_change_def drop_lapsed_def)

lemma lapse_effect: "snapshot_kept st (signal_if b (drop_lapsed now st)) \<or> dropped st (signal_if b (drop_lapsed now st))"
  using lapse_kept lapse_dropped by blast

lemma snapshot_kept_refl [simp]: "snapshot_kept st st"
  by (simp add: snapshot_kept_def split: option.splits)

lemma install_effect:
  assumes "store_ok st"
  shows "snapshot_kept st (snd (install_snapshot certify limit now installed wall snap st))
     \<or> dropped st (snd (install_snapshot certify limit now installed wall snap st))
     \<or> replaced now st (snd (install_snapshot certify limit now installed wall snap st))"
proof (cases "from_received certify limit (allocations st) now wall snap")
  case (Inl e)
  then show ?thesis by (simp add: install_snapshot_def)
next
  case (Inr routing)
  let ?st1 = "drop_lapsed now st"
  let ?old = "case generation_high_water ?st1 of None \<Rightarrow> False | Some g \<Rightarrow> g \<ge> snapshot_generation snap"
  show ?thesis
  proof (cases "\<not> is_fresh routing installed \<or> ?old")
    case True
    then show ?thesis using Inr lapse_effect [of st _ now] by (auto simp: install_snapshot_def Let_def)
  next
    case False
    define r where "r = (case current ?st1 of None \<Rightarrow> routing | Some c \<Rightarrow> inherit_incarnations c routing)"
    define st' where "st' = snd (install_snapshot certify limit now installed wall snap st)"
    have st': "current st' = Some r" "allocations st' = allocations st + length (snapshot_routes snap)"
      using False Inr by (auto simp: st'_def install_snapshot_def Let_def r_def signal_change_def drop_lapsed_def)
    have routing: "routes routing = collect_routes (allocations st) (snapshot_routes snap) []"
      using Inr by (auto simp: from_received_def res_simps split: if_splits)
    have new: "hostname (served_route x) = h \<and> allocations st \<le> incarnation x \<and> incarnation x < allocations st'"
      if "map_of (routes routing) h = Some x" for h x using that collect_routes_lookup routing st'(2) by fastforce
    have c1: "current ?st1 = Some s \<longleftrightarrow> current st = Some s \<and> is_fresh s now" for s
      by (auto simp: drop_lapsed_def lapsed_def split: option.splits)
    have "replaced now st st'" unfolding replaced_def
    proof (intro conjI exI [of _ r] allI impI st')
      show "allocations st \<le> allocations st'" using st'(2) by simp
      fix h x assume x: "map_of (routes r) h = Some x"
      show "hostname (served_route x) = h"
        using x new by (cases "current ?st1") (auto simp: r_def inherit_lookup split: option.splits if_splits)
      show "new_incarnation now st st' h x \<or> old_incarnation now st h x"
      proof (cases "current ?st1")
        case None
        then show ?thesis using x new c1 by (auto simp: r_def new_incarnation_def)
      next
        case (Some s)
        then have s: "current st = Some s" "is_fresh s now" using c1 by simp_all
        obtain z where z: "map_of (routes routing) h = Some z" "x = (case map_of (routes s) h of None \<Rightarrow> z
            | Some old \<Rightarrow> if same_authority (served_route old) (served_route z) then z\<lparr>incarnation := incarnation old\<rparr> else z)"
          using x Some by (auto simp: r_def inherit_lookup)
        show ?thesis
        proof (cases "\<exists>old. map_of (routes s) h = Some old \<and> same_authority (served_route old) (served_route z)")
          case True
          then show ?thesis using s z(2) by (auto simp: old_incarnation_def)
        next
          case False
          then have "x = z" using z(2) by (auto split: option.splits)
          then show ?thesis using False new [OF z(1)] s by (auto simp: new_incarnation_def)
        qed
      qed
    qed
    then show ?thesis unfolding st'_def by blast
  qed
qed

fun is_install :: "route_op \<Rightarrow> bool" where
  "is_install (Install wait check wall_now snap) = True"
| "is_install _ = False"

lemma quiet_effect:
  assumes "\<not> is_install x"
  shows "snapshot_kept st (apply_route_op certify limit now x st) \<or> dropped st (apply_route_op certify limit now x st)"
proof (cases x)
  case (Install wait check wall snap)
  then show ?thesis using assms by simp
next
  case (Expire lease wait)
  then show ?thesis by (auto simp: expire_lease_def Let_def dropped_def signal_change_def)
next
  case (Disconnected hold wait)
  then show ?thesis
    by (auto simp: hold_after_disconnect_def clear_epoch_def dropped_def signal_change_def snapshot_kept_def split: option.splits)
next
  case (Authorize host wait)
  then show ?thesis using lapse_effect [of st _ now] by (auto simp: authorize_route_def Let_def)
next
  case (Check a wait)
  then show ?thesis using lapse_effect [of st _ now] by (auto simp: authorization_deadline_def Let_def)
next
  case (Load wait)
  then show ?thesis using lapse_effect [of st _ now] by (auto simp: load_snapshot_def Let_def)
next
  case (Begin_Epoch wait)
  then show ?thesis by (auto simp: begin_control_epoch_def snapshot_kept_def signal_change_def split: option.splits)
next
  case (Clear wait)
  then show ?thesis by (auto simp: clear_epoch_def dropped_def signal_change_def)
qed

lemma op_effect:
  assumes "store_ok st"
  shows "snapshot_kept st (apply_route_op certify limit now x st) \<or> dropped st (apply_route_op certify limit now x st)
     \<or> replaced now st (apply_route_op certify limit now x st)"
proof (cases "is_install x")
  case True
  then obtain wait check wall snap where "x = Install wait check wall snap" by (cases x) auto
  then show ?thesis using install_effect [OF assms] by simp
next
  case False
  then show ?thesis using quiet_effect by blast
qed

lemma effect_store_ok:
  assumes "store_ok st" "snapshot_kept st st' \<or> dropped st st' \<or> replaced now st st'"
  shows "store_ok st'"
  using assms(2)
proof (elim disjE)
  assume k: "snapshot_kept st st'"
  then show ?thesis using assms(1) unfolding snapshot_kept_def store_ok_def routes_ok_def
    by (auto split: option.splits) (metis order_less_le_trans)
next
  assume "dropped st st'"
  then show ?thesis by (simp add: dropped_def store_ok_def)
next
  assume r: "replaced now st st'"
  then obtain s' where s': "current st' = Some s'" by (auto simp: replaced_def)
  have "hostname (served_route x) = h \<and> incarnation x < allocations st'" if x: "map_of (routes s') h = Some x" for h x
  proof -
    have le: "allocations st \<le> allocations st'" using r by (simp add: replaced_def)
    have "incarnation x < allocations st" if "old_incarnation now st h x"
      using assms(1) that by (auto simp: old_incarnation_def store_ok_def routes_ok_def)
    then show ?thesis using replaced_lookup [OF r s' x] le by (auto simp: new_incarnation_def)
  qed
  then show ?thesis using s' by (simp add: store_ok_def routes_ok_def)
qed

lemma snapshot_kept_grant:
  assumes "grant_ok clock st (a, unbroken)" "snapshot_kept st st'" "clock \<le> now" "now \<le> later"
  shows "grant_ok later st' (a, unbroken \<and> no_gap a now st st')"
proof (cases "current st")
  case None
  then show ?thesis using assms by (auto simp: grant_ok_def snapshot_kept_def no_gap_def split: option.splits)
next
  case (Some s)
  then obtain s' where s': "current st' = Some s'" "routes s' = routes s" "deadline s' \<le> deadline s" "allocations st \<le> allocations st'"
    using assms(2) by (auto simp: snapshot_kept_def split: option.splits)
  then show ?thesis using assms(1,3,4) Some
    by (auto simp: grant_ok_def no_gap_def serves_route_def carries_def is_fresh_def split: if_splits)
qed

lemma dropped_grant:
  assumes "grant_ok clock st (a, unbroken)" "dropped st st'"
  shows "grant_ok later st' (a, unbroken \<and> no_gap a now st st')"
  using assms by (auto simp: grant_ok_def dropped_def no_gap_def)

lemma replaced_grant:
  assumes "grant_ok clock st (a, unbroken)" "replaced now st st'" "clock \<le> now" "now \<le> later"
  shows "grant_ok later st' (a, unbroken \<and> no_gap a now st st')"
proof -
  obtain s' where s': "current st' = Some s'" using assms(2) by (auto simp: replaced_def)
  let ?h = "hostname (authorized a)"
  have lt: "authorized_incarnation a < allocations st" using assms(1) by (simp add: grant_ok_def)
  have le: "allocations st \<le> allocations st'" using assms(2) by (simp add: replaced_def)
  note split = replaced_lookup(2) [OF assms(2) s', of ?h]
  show ?thesis
  proof (cases "unbroken \<and> no_gap a now st st'")
    case True
    then obtain s where s: "current st = Some s" "is_fresh s now" "serves_route a s" "carries a s" "carries a s'"
      using assms(1) s' by (auto simp: grant_ok_def no_gap_def)
    obtain old where old: "map_of (routes s) ?h = Some old" "incarnation old = authorized_incarnation a" "same_authority (authorized a) (served_route old)"
      using s(3,4) by (auto simp: serves_route_def carries_iff)
    obtain x where x: "map_of (routes s') ?h = Some x" "same_authority (authorized a) (served_route x)" using s(5) by (auto simp: carries_iff)
    have "same_authority (served_route old) (served_route x)" using same_authority_trans same_authority_sym old(3) x(2) by blast
    then have "incarnation x = authorized_incarnation a" using split [OF x(1)] s(1,2) old(1,2) by (auto simp: new_incarnation_def old_incarnation_def)
    then show ?thesis using True s' x(1) s(5) lt le by (auto simp: grant_ok_def serves_route_def)
  next
    case False
    have "\<not> serves_route a s'"
    proof
      assume "serves_route a s'"
      then obtain x where x: "map_of (routes s') ?h = Some x" "incarnation x = authorized_incarnation a" by (auto simp: serves_route_def)
      then obtain s old where o: "current st = Some s" "is_fresh s now" "map_of (routes s) ?h = Some old"
        "same_authority (served_route old) (served_route x)" "incarnation old = authorized_incarnation a"
        using split [OF x(1)] lt by (auto simp: new_incarnation_def old_incarnation_def)
      have sv: "serves_route a s" using o(3,5) by (auto simp: serves_route_def)
      show False
      proof (cases unbroken)
        case True
        then have "carries a s" using assms(1) o(1) by (auto simp: grant_ok_def)
        then have "carries a s'" using o(3,4) x(1) same_authority_trans by (auto simp: carries_iff)
        then show False using False True o(1,2) s' by (simp add: no_gap_def)
      next
        case broken: False
        then have "deadline s \<le> clock" using assms(1) o(1) sv by (simp add: grant_ok_def)
        then show False using o(2) assms(3) by (simp add: is_fresh_def)
      qed
    qed
    then show ?thesis using False s' lt le by (simp add: grant_ok_def)
  qed
qed

lemma new_grant:
  assumes "store_ok st" "op_grants now x st = Some a"
  shows "grant_ok later (apply_route_op certify limit now x st) (a, True)"
proof -
  obtain host wait where x: "x = Authorize host wait" using assms(2) by (cases x) auto
  have g: "fst (authorize_route host now st) = Some a" using assms(2) x by simp
  then obtain s y where s: "current (drop_lapsed now st) = Some s" "map_of (routes s) host = Some y"
    "a = \<lparr>authorized = served_route y, authorized_incarnation = incarnation y\<rparr>"
    by (auto simp: authorize_route_def Let_def split: option.splits)
  have c: "current st = Some s" using s(1) by (auto simp: drop_lapsed_def split: if_splits)
  have k: "hostname (served_route y) = host" "incarnation y < allocations st"
    using assms(1) c s(2) by (auto simp: store_ok_def routes_ok_def)
  have st': "current (apply_route_op certify limit now x st) = Some s" "allocations (apply_route_op certify limit now x st) = allocations st"
    using x s(1) by (auto simp: authorize_route_def Let_def signal_if_def signal_change_def drop_lapsed_def split: if_splits)
  show ?thesis using st' s k by (auto simp: grant_ok_def serves_route_def carries_iff)
qed

lemma route_step_inv: "route_inv run \<Longrightarrow> route_inv (route_step certify limit run x)"
proof -
  assume i: "route_inv run"
  let ?st = "route_store run" and ?now = "route_clock run + op_wait x"
  let ?st' = "apply_route_op certify limit ?now x ?st" and ?later = "route_clock run + op_wait x + op_check x"
  have ok: "store_ok ?st" using i by (simp add: route_inv_def)
  note e = op_effect [OF ok, of certify limit ?now x]
  have "store_ok ?st'" using effect_store_ok [OF ok e] .
  moreover have "grant_ok ?later ?st' (a, b \<and> no_gap a ?now ?st ?st')" if "(a, b) \<in> set (granted run)" for a b
  proof -
    have "grant_ok (route_clock run) ?st (a, b)" using i that by (auto simp: route_inv_def)
    then show ?thesis using e snapshot_kept_grant [of "route_clock run" ?st a b ?st' ?now ?later] dropped_grant [of "route_clock run" ?st a b ?st' ?later ?now]
        replaced_grant [of "route_clock run" ?st a b ?now ?st' ?later] by simp blast
  qed
  ultimately show ?thesis using new_grant [OF ok, of ?now x _ ?later certify limit]
    by (auto simp: route_inv_def route_step_def Let_def split: option.splits)
qed

interpretation route_run: preserved "route_step certify limit" route_inv for certify limit
  by unfold_locales (rule route_step_inv)

lemma route_start_inv: "route_inv (route_start now)"
  by (simp add: route_inv_def route_start_def store_ok_def new_store_def)

lemma route_trace_inv: "route_inv (route_trace certify limit start ops)"
  unfolding route_trace_def by (rule route_run.run_inv [OF route_start_inv])


subsection \<open>Authorizations\<close>

definition example_route :: "string \<Rightarrow> route" where
  "example_route h = \<lparr>binding_id = ''b'', hostname = h, domain_pool_id = ''p'', routed_ip = ''10.0.0.2'', target_port = 80, owner_id = ''o'',
     container_id = ''c'', container_name = ''n'', instance_name = ''i'', route_status = ''running''\<rparr>"

definition example_snapshot :: "nat \<Rightarrow> string list \<Rightarrow> proxy_snapshot" where
  "example_snapshot g hosts = \<lparr>snapshot_generation = g, stale_after_ms = 100, valid_until_ms = 90,
     snapshot_routes = map example_route hosts, domain_pools = []\<rparr>"

definition example_ops :: "route_op list" where
  "example_ops = [Install 0 0 0 (example_snapshot 1 [''a'']), Authorize ''a'' 1, Install 1 0 0 (example_snapshot 2 [''b'', ''a''])]"

definition example_grant :: route_authorization where
  "example_grant = \<lparr>authorized = example_route ''a'', authorized_incarnation = 1\<rparr>"

lemma example_remaining: "absolute_snapshot_remaining 90 100 0 = Inr 90"
  by (simp add: absolute_snapshot_remaining_def MAX_SNAPSHOT_CLOCK_SKEW_MS_def)

lemma example_received: "from_received (\<lambda>c k. None) 1000 n t 0 (example_snapshot g hosts)
   = (if t + 90 > 1000 then Inl Deadline_Overflow else Inr \<lparr>generation = g, received_at = t, deadline = t + 90, routes = collect_routes n (map example_route hosts) [], certs = []\<rparr>)"
  using example_remaining by (simp add: from_received_def example_snapshot_def MAX_SNAPSHOT_STALE_AFTER_MS_def)

lemmas run_defs = route_trace_def route_start_def new_store_def route_step_def install_snapshot_def lapsed_def drop_lapsed_def
  is_fresh_def signal_change_def signal_if_def authorize_route_def no_gap_def carries_def Let_def

lemma example_run:
  "granted (route_trace (\<lambda>c k. None) 1000 0 example_ops) = [(example_grant, True)]"
  "route_clock (route_trace (\<lambda>c k. None) 1000 0 example_ops) = 2"
  "map_option deadline (current (route_store (route_trace (\<lambda>c k. None) 1000 0 example_ops))) = Some 92"
  by (simp_all add: example_ops_def run_defs example_received inherit_incarnations_def example_grant_def same_authority_def)
     (simp_all add: example_route_def example_snapshot_def)

text \<open>
  C4. An authorization granted in a run is honoured at a later moment exactly when its route has been served without a gap since
  and the lease of the snapshot now held still runs, and then until the end of that lease: changes to other routes never end
  it, and a route that was dropped, changed or left to lapse is not revived by one that looks the same.
\<close>

theorem authorization_honoured_iff_unbroken:
  assumes "(a, unbroken) \<in> set (granted (route_trace certify instant_limit start ops))"
    "route_clock (route_trace certify instant_limit start ops) \<le> now"
  shows "fst (authorization_deadline a now (route_store (route_trace certify instant_limit start ops)))
    = (case current (route_store (route_trace certify instant_limit start ops)) of
         None \<Rightarrow> None
       | Some s \<Rightarrow> if unbroken \<and> now < deadline s then Some (deadline s) else None)"
proof -
  define run where "run = route_trace certify instant_limit start ops"
  have g: "grant_ok (route_clock run) (route_store run) (a, unbroken)"
    using route_trace_inv [of certify instant_limit start ops] assms(1) by (auto simp: route_inv_def run_def)
  show ?thesis
  proof (cases "current (route_store run)")
    case None
    then show ?thesis unfolding run_def [symmetric] by (simp add: authorization_deadline_def drop_lapsed_def lapsed_def)
  next
    case (Some s)
    show ?thesis
    proof (cases "is_fresh s now")
      case False
      then show ?thesis unfolding run_def [symmetric] using Some
        by (simp add: authorization_deadline_def drop_lapsed_def lapsed_def is_fresh_def)
    next
      case True
      then have d: "fst (authorization_deadline a now (route_store run)) = (if serves_route a s then Some (deadline s) else None)"
        using Some by (auto simp: authorization_deadline_def drop_lapsed_def lapsed_def serves_route_def split: option.splits)
      have "serves_route a s \<longleftrightarrow> unbroken" using g Some True assms(2) unfolding run_def [symmetric]
        by (auto simp: grant_ok_def is_fresh_def split: if_splits)
      then show ?thesis using d Some True unfolding run_def [symmetric] by (simp add: is_fresh_def)
    qed
  qed
qed

theorem authorization_honoured_iff_unbroken_witness:
  "fst (authorization_deadline example_grant 50 (route_store (route_trace (\<lambda>c k. None) 1000 0 example_ops))) = Some 92"
proof -
  have "(example_grant, True) \<in> set (granted (route_trace (\<lambda>c k. None) 1000 0 example_ops))"
    "route_clock (route_trace (\<lambda>c k. None) 1000 0 example_ops) \<le> 50" using example_run by simp_all
  from authorization_honoured_iff_unbroken [OF this] example_run(3) show ?thesis by auto
qed


subsection \<open>Leases\<close>

definition MAX_LEASE_MS :: nat where
  "MAX_LEASE_MS = MAX_SNAPSHOT_STALE_AFTER_MS + MAX_SNAPSHOT_CLOCK_SKEW_MS"

definition lease_ends_by :: "nat \<Rightarrow> snapshot_store \<Rightarrow> bool" where
  "lease_ends_by t st \<longleftrightarrow> (\<forall>s. current st = Some s \<longrightarrow> deadline s \<le> t)"

lemma quiet_lease: "snapshot_kept st st' \<or> dropped st st' \<Longrightarrow> lease_ends_by t st \<Longrightarrow> lease_ends_by t st'"
  by (auto simp: lease_ends_by_def snapshot_kept_def dropped_def split: option.splits)

lemma remaining_bound: "absolute_snapshot_remaining v stale wall = Inr r \<Longrightarrow> r \<le> stale + MAX_SNAPSHOT_CLOCK_SKEW_MS"
  by (auto simp: absolute_snapshot_remaining_def split: if_splits)

lemma from_received_deadline:
  assumes "from_received certify limit n received wall snap = Inr s"
  shows "deadline s \<le> received + MAX_LEASE_MS"
proof -
  obtain r where r: "absolute_snapshot_remaining (valid_until_ms snap) (stale_after_ms snap) wall = Inr r"
    "stale_after_ms snap \<le> MAX_SNAPSHOT_STALE_AFTER_MS" "deadline s = received + r"
    using assms by (auto simp: from_received_def res_simps split: if_splits)
  show ?thesis using remaining_bound [OF r(1)] r(2,3) by (simp add: MAX_LEASE_MS_def)
qed

lemma inherit_deadline [simp]: "deadline (inherit_incarnations c s) = deadline s"
  by (simp add: inherit_incarnations_def)

lemma install_lease:
  assumes "lease_ends_by (now + MAX_LEASE_MS) st"
  shows "lease_ends_by (now + MAX_LEASE_MS) (snd (install_snapshot certify limit now installed wall snap st))"
proof (cases "from_received certify limit (allocations st) now wall snap")
  case (Inl e)
  then show ?thesis using assms by (simp add: install_snapshot_def)
next
  case (Inr s)
  have "lease_ends_by (now + MAX_LEASE_MS) (signal_if b (drop_lapsed now st))" for b
    using quiet_lease [OF lapse_effect assms] .
  then show ?thesis using Inr from_received_deadline [OF Inr] assms
    by (auto simp: install_snapshot_def Let_def lease_ends_by_def signal_change_def split: option.splits)
qed

definition route_lease_inv :: "route_run \<Rightarrow> bool" where
  "route_lease_inv run \<longleftrightarrow> lease_ends_by (route_clock run + MAX_LEASE_MS) (route_store run)"

lemma lease_ends_later: "lease_ends_by t st \<Longrightarrow> t \<le> t' \<Longrightarrow> lease_ends_by t' st"
  by (auto simp: lease_ends_by_def)

lemma lease_step_inv: "route_lease_inv run \<Longrightarrow> route_lease_inv (route_step certify limit run x)"
proof -
  assume i: "route_lease_inv run"
  let ?now = "route_clock run + op_wait x"
  have now: "lease_ends_by (?now + MAX_LEASE_MS) (route_store run)" using i lease_ends_later by (auto simp: route_lease_inv_def)
  have "lease_ends_by (?now + MAX_LEASE_MS) (apply_route_op certify limit ?now x (route_store run))"
  proof (cases "is_install x")
    case True
    then obtain wait check wall snap where "x = Install wait check wall snap" by (cases x) auto
    then show ?thesis using install_lease now by simp
  next
    case False
    then show ?thesis using quiet_effect quiet_lease now by blast
  qed
  then show ?thesis using lease_ends_later by (auto simp: route_lease_inv_def route_step_def Let_def)
qed

interpretation lease_run: preserved "route_step certify limit" route_lease_inv for certify limit
  by unfold_locales (rule lease_step_inv)

lemma lease_trace_inv: "route_lease_inv (route_trace certify limit start ops)"
  unfolding route_trace_def
  by (rule lease_run.run_inv) (simp add: route_lease_inv_def lease_ends_by_def route_start_def new_store_def)

lemma quiet_run_lease:
  assumes "\<not> list_ex is_install ops" "lease_ends_by t (route_store run)"
  shows "lease_ends_by t (route_store (foldl (route_step certify limit) run ops))"
  using assms
proof (induction ops arbitrary: run)
  case (Cons x ops)
  have "lease_ends_by t (route_store (route_step certify limit run x))"
    using Cons.prems quiet_lease [OF quiet_effect, of x t "route_store run"] by (simp add: route_step_def Let_def)
  then show ?case using Cons by simp
qed simp

text \<open>
  C22. A proxy that gets no snapshot for the longest lease, five and a half minutes, routes nothing any more, whatever
  happens otherwise: disconnections, reconnections, holds and requests never prolong a lease.
\<close>

theorem routes_end_without_snapshots:
  assumes "\<not> list_ex is_install later"
    "route_clock (route_trace certify instant_limit start ops) + MAX_LEASE_MS \<le> now"
  shows "fst (authorize_route host now (route_store (route_trace certify instant_limit start (ops @ later)))) = None"
proof -
  have "lease_ends_by (route_clock (route_trace certify instant_limit start ops) + MAX_LEASE_MS)
      (route_store (foldl (route_step certify instant_limit) (route_trace certify instant_limit start ops) later))"
    using quiet_run_lease [OF assms(1)] lease_trace_inv by (simp add: route_lease_inv_def)
  then have "lease_ends_by now (route_store (route_trace certify instant_limit start (ops @ later)))"
    using lease_ends_later [OF _ assms(2)] by (simp add: route_trace_def)
  then show ?thesis
    by (auto simp: authorize_route_def drop_lapsed_def lapsed_def lease_ends_by_def is_fresh_def Let_def split: option.splits)
qed

theorem routes_end_without_snapshots_witness:
  "fst (authorize_route ''a'' 330002 (route_store (route_trace (\<lambda>c k. None) 1000 0 (example_ops @ [Disconnected 60 1, Begin_Epoch 2])))) = None"
  by (rule routes_end_without_snapshots)
    (simp_all add: example_run MAX_LEASE_MS_def MAX_SNAPSHOT_STALE_AFTER_MS_def MAX_SNAPSHOT_CLOCK_SKEW_MS_def)


subsection \<open>Certificates\<close>

lemma split_trailing: "split_char c (p @ [c]) = split_char c p @ [[]]"
  by (induction p) (auto split: list.splits)

lemma wildcard_suffix:
  assumes "is_valid_wildcard_domain w"
  shows "to_lower (rev (dropWhile (\<lambda>c. c = CHR ''.'') (rev w))) = ''*'' @ to_lower (drop 1 w)"
proof -
  obtain d where w: "w = ''*.'' @ d" "d \<noteq> []" "list_all label_ok (split_char (CHR ''.'') d)"
    using assms by (auto simp: is_valid_wildcard_domain_def starts_with_iff Let_def)
  have "last d \<noteq> CHR ''.''"
  proof
    assume "last d = CHR ''.''"
    then have "d = butlast d @ [CHR ''.'']" using w(2) by (metis append_butlast_last_id)
    then have "[] \<in> set (split_char (CHR ''.'') d)" using split_trailing [of "CHR ''.''" "butlast d"] by (metis in_set_conv_decomp)
    then show False using w(3) by (auto simp: list_all_iff label_ok_def)
  qed
  then have "dropWhile (\<lambda>c. c = CHR ''.'') (rev w) = rev w" using w(1,2) by (cases d rule: rev_cases) auto
  moreover have "lower_char (CHR ''*'') = CHR ''*''" by code_simp
  ultimately show ?thesis using w(1) by (simp add: to_lower_def)
qed

text \<open>
  A certificate is offered only for names one label below its domain: of a wildcard that passed the check on receipt, the
  star stands for one or more characters without a dot.
\<close>

theorem wildcard_covers_one_label:
  assumes "is_valid_wildcard_domain w"
  shows "hostname_matches_wildcard host w \<longleftrightarrow> (\<exists>label. label \<noteq> [] \<and> CHR ''.'' \<notin> set label \<and> host = label @ to_lower (drop 1 w))"
proof -
  have "hostname_matches_wildcard host w \<longleftrightarrow> ends_with (to_lower (drop 1 w)) host
      \<and> (let prefix = take (length host - length (to_lower (drop 1 w))) host in prefix \<noteq> [] \<and> CHR ''.'' \<notin> set prefix)"
    unfolding hostname_matches_wildcard_def wildcard_suffix [OF assms] by simp
  also have "\<dots> \<longleftrightarrow> (\<exists>label. label \<noteq> [] \<and> CHR ''.'' \<notin> set label \<and> host = label @ to_lower (drop 1 w))"
    by (auto simp: ends_with_iff)
  finally show ?thesis .
qed

theorem wildcard_covers_one_label_witness:
  "(\<exists>label. label \<noteq> [] \<and> CHR ''.'' \<notin> set label \<and> ''a.ex.io'' = label @ to_lower (drop 1 ''*.EX.io''))
   \<and> hostname_matches_wildcard ''a.ex.io'' ''*.EX.io''"
proof -
  have "is_valid_wildcard_domain ''*.EX.io''" "hostname_matches_wildcard ''a.ex.io'' ''*.EX.io''" by code_simp+
  then show ?thesis using wildcard_covers_one_label by blast
qed

end
