(* ===== verification/Counters.thy ===== *)
theory Counters
  imports Prelude
begin

text \<open>
  Counters in hash maps, as the limiters of the proxies keep them: \<open>entry(k).or_insert(0) += 1\<close>, \<open>decrement\<close> of
  \<open>tools/proxy-common/src/conn_limit.rs\<close> and \<open>tools/http-proxy/src/container_limit.rs\<close>, and the reading of a count.

  \<open>tallies\<close> says that a map counts a list of holders by a key exactly, where not every holder need have one, with no entry for a key that
  none of them has; it is kept when a holder joins and when one leaves.
\<close>

definition count_at :: "('k \<times> nat) list \<Rightarrow> 'k \<Rightarrow> nat" where
  "count_at m k = (case map_of m k of None \<Rightarrow> 0 | Some n \<Rightarrow> n)"

definition bump_count :: "'k \<Rightarrow> ('k \<times> nat) list \<Rightarrow> ('k \<times> nat) list" where
  "bump_count k m = AList.update k (count_at m k + 1) m"

definition decrement :: "'k \<Rightarrow> ('k \<times> nat) list \<Rightarrow> ('k \<times> nat) list" where
  "decrement k m =
     (case map_of m k of
        None \<Rightarrow> m
      | Some n \<Rightarrow> if n - 1 = 0 then AList.delete k m else AList.update k (n - 1) m)"

definition holders :: "('p \<Rightarrow> 'k) \<Rightarrow> 'p list \<Rightarrow> 'k \<Rightarrow> nat" where
  "holders f ps k = length (filter (\<lambda>p. f p = k) ps)"

definition tallies :: "('k \<times> nat) list \<Rightarrow> ('p \<Rightarrow> 'k option) \<Rightarrow> 'p list \<Rightarrow> bool" where
  "tallies m f ps \<longleftrightarrow> (\<forall>k. map_of m k = (if holders f ps (Some k) = 0 then None else Some (holders f ps (Some k))))"

definition remove_nth :: "nat \<Rightarrow> 'a list \<Rightarrow> 'a list" where
  "remove_nth n xs = take n xs @ drop (Suc n) xs"

lemma split_nth: "n < length xs \<Longrightarrow> xs = take n xs @ xs ! n # drop (Suc n) xs"
  by (simp add: id_take_nth_drop)

lemma holders_simps [simp]:
  "holders f [] k = 0" "holders f (ps @ qs) k = holders f ps k + holders f qs k"
  "holders f (p # ps) k = (if f p = k then 1 else 0) + holders f ps k"
  by (simp_all add: holders_def)

lemma holders_nth: "n < length ps \<Longrightarrow> holders f ps k = holders f (remove_nth n ps) k + (if f (ps ! n) = k then 1 else 0)"
  by (subst split_nth [of n ps]) (simp_all add: remove_nth_def)

lemma tallies_empty [simp]: "tallies [] f []"
  by (simp add: tallies_def)

lemma tallies_read: "tallies m f ps \<Longrightarrow> count_at m k = holders f ps (Some k)"
  by (auto simp: tallies_def count_at_def)

lemma tallies_join:
  assumes "tallies m f ps"
  shows "tallies (case f p of None \<Rightarrow> m | Some k \<Rightarrow> bump_count k m) f (ps @ [p])"
proof (cases "f p")
  case None
  then show ?thesis using assms by (simp add: tallies_def)
next
  case (Some k)
  then show ?thesis using assms tallies_read [OF assms, of k] by (auto simp: tallies_def bump_count_def update_conv')
qed

lemma tallies_leave:
  assumes "tallies m f ps" "n < length ps"
  shows "tallies (case f (ps ! n) of None \<Rightarrow> m | Some k \<Rightarrow> decrement k m) f (remove_nth n ps)"
proof (cases "f (ps ! n)")
  case None
  then show ?thesis using assms holders_nth [OF assms(2), of f] by (simp add: tallies_def)
next
  case (Some k)
  then show ?thesis using assms holders_nth [OF assms(2), of f]
    by (auto simp: tallies_def decrement_def update_conv' delete_conv' split: option.splits if_splits)
qed

lemma holders_update: "n < length ps \<Longrightarrow> f p = f (ps ! n) \<Longrightarrow> holders f (ps[n := p]) k = holders f ps k"
proof -
  assume n: "n < length ps" and e: "f p = f (ps ! n)"
  show "holders f (ps[n := p]) k = holders f ps k"
    using e by (subst (2) split_nth [OF n]) (simp add: upd_conv_take_nth_drop n)
qed

lemma tallies_update: "tallies m f ps \<Longrightarrow> n < length ps \<Longrightarrow> f p = f (ps ! n) \<Longrightarrow> tallies m f (ps[n := p])"
  by (simp add: tallies_def holders_update)

end
