(* ===== verification/Connection_Limits.thy ===== *)
theory Connection_Limits
  imports Ip_Addr Counters
begin

text \<open>
  The limits on client connections of both proxies, \<open>tools/proxy-common/src/conn_limit.rs\<close>: all connections, those of a client (an
  IPv4 address or an IPv6 /64), those of an IPv6 /48, and those not yet established, which are shared fairly.

  The state behind the mutex and the semaphore is the record \<open>limiter_state\<close>; the flag that tells a connection it was evicted is
  the list of the evicted slots. A hash map is an association list. The order in which its entries are visited is not
  determined and matters where several sources hold the most slots: it is the argument \<open>visit\<close>, of which only the documented
  behaviour is assumed, that it visits the entries of the map.

  \<open>limit_run\<close> is a run of connections that come, become established and close, in any order. The invariant is that every
  number the limiter keeps is the number of connections it stands for.
\<close>

subsection \<open>Clients\<close>

datatype client_bucket = Client_V4 "8 word" "8 word" "8 word" "8 word" | V6_Prefix64 "64 word"

datatype pending_source = Source_V4 "8 word" "8 word" "8 word" "8 word" | V6_Site "64 word"

unbundle bit_operations_syntax

definition v6_prefix64 :: "16 word \<Rightarrow> 16 word \<Rightarrow> 16 word \<Rightarrow> 16 word \<Rightarrow> 64 word" where
  "v6_prefix64 a b c d = push_bit 48 (ucast a) OR push_bit 32 (ucast b) OR push_bit 16 (ucast c) OR ucast d"

fun client_of :: "ip_addr \<Rightarrow> client_bucket" where
  "client_of (V4 a b c d) = Client_V4 a b c d"
| "client_of (V6 a b c d e f g h) =
     (if a = 0 \<and> b = 0 \<and> c = 0 \<and> d = 0 \<and> e = 0 \<and> f = 0xFFFF
      then Client_V4 (ucast (drop_bit 8 g)) (ucast g) (ucast (drop_bit 8 h)) (ucast h)
      else V6_Prefix64 (v6_prefix64 a b c d))"

fun site :: "client_bucket \<Rightarrow> 64 word option" where
  "site (Client_V4 a b c d) = None"
| "site (V6_Prefix64 p) = Some (drop_bit 16 p)"

fun source_of :: "client_bucket \<Rightarrow> pending_source" where
  "source_of (Client_V4 a b c d) = Source_V4 a b c d"
| "source_of (V6_Prefix64 p) = V6_Site (drop_bit 16 p)"


subsection \<open>The limiter\<close>

datatype limit_rejection = Global | Per_Client | Per_Site | Pending

record limit_settings =
  global_limit :: nat
  per_client :: nat
  per_site :: nat
  pending_limit :: nat

record pending_slot =
  slot_id :: nat
  slot_bucket :: client_bucket

record limiter_state =
  free_permits :: nat
  clients :: "(client_bucket \<times> nat) list"
  sites :: "(64 word \<times> nat) list"
  pending_total :: nat
  pending_sources :: "(pending_source \<times> pending_slot list) list"
  next_pending_id :: nat
  evicted :: "nat list"
  evicted_total :: nat

record connection_permit =
  permit_bucket :: client_bucket
  permit_slot :: "pending_slot option"

definition new_limiter_state :: "limit_settings \<Rightarrow> limiter_state" where
  "new_limiter_state settings =
     \<lparr>free_permits = global_limit settings, clients = [], sites = [], pending_total = 0, pending_sources = [],
      next_pending_id = 1, evicted = [], evicted_total = 0\<rparr>"

text \<open>\<open>max_by_key\<close> of an iterator: the last of the largest.\<close>

fun max_by_held :: "(pending_source \<times> pending_slot list) list \<Rightarrow> (pending_source \<times> nat) option" where
  "max_by_held [] = None"
| "max_by_held ((s, q) # rest) =
     (case max_by_held rest of
        None \<Rightarrow> Some (s, length q)
      | Some (t, n) \<Rightarrow> if length q > n then Some (s, length q) else Some (t, n))"

definition pending_of :: "limiter_state \<Rightarrow> pending_source \<Rightarrow> pending_slot list" where
  "pending_of st s = (case map_of (pending_sources st) s of None \<Rightarrow> [] | Some q \<Rightarrow> q)"

definition put_queue :: "pending_source \<Rightarrow> pending_slot list \<Rightarrow> limiter_state \<Rightarrow> limiter_state" where
  "put_queue s q st =
     st\<lparr>pending_sources := if q = [] then AList.delete s (pending_sources st) else AList.update s q (pending_sources st)\<rparr>"

definition heaviest_victim ::
  "((pending_source \<times> pending_slot list) list \<Rightarrow> (pending_source \<times> pending_slot list) list) \<Rightarrow> nat \<Rightarrow> limiter_state
     \<Rightarrow> (pending_slot \<times> limiter_state) option" where
  "heaviest_victim visit newcomer st =
     (case max_by_held (visit (pending_sources st)) of
        None \<Rightarrow> None
      | Some (s, held) \<Rightarrow>
          if held \<le> newcomer + 1 then None
          else (case pending_of st s of
                  [] \<Rightarrow> None
                | victim # q \<Rightarrow> Some (victim, put_queue s q st)))"

definition make_room ::
  "((pending_source \<times> pending_slot list) list \<Rightarrow> (pending_source \<times> pending_slot list) list) \<Rightarrow> limit_settings \<Rightarrow> pending_source
     \<Rightarrow> limiter_state \<Rightarrow> limiter_state option" where
  "make_room visit settings src st =
     (if pending_total st \<ge> pending_limit settings then
        (case heaviest_victim visit (length (pending_of st src)) st of
           None \<Rightarrow> None
         | Some (victim, st1) \<Rightarrow>
             Some (st1\<lparr>pending_total := pending_total st1 - 1, evicted := slot_id victim # evicted st1,
               evicted_total := evicted_total st1 + 1\<rparr>))
      else Some st)"

definition take_slot :: "client_bucket \<Rightarrow> limiter_state \<Rightarrow> connection_permit \<times> limiter_state" where
  "take_slot bucket st =
     (let slot = \<lparr>slot_id = next_pending_id st, slot_bucket = bucket\<rparr>;
          st1 = put_queue (source_of bucket) (pending_of st (source_of bucket) @ [slot]) st
      in (\<lparr>permit_bucket = bucket, permit_slot = Some slot\<rparr>,
          st1\<lparr>free_permits := free_permits st1 - 1, next_pending_id := next_pending_id st1 + 1, pending_total := pending_total st1 + 1,
            clients := bump_count bucket (clients st1),
            sites := (case site bucket of None \<Rightarrow> sites st1 | Some s \<Rightarrow> bump_count s (sites st1))\<rparr>))"

definition try_acquire ::
  "((pending_source \<times> pending_slot list) list \<Rightarrow> (pending_source \<times> pending_slot list) list) \<Rightarrow> limit_settings \<Rightarrow> ip_addr
     \<Rightarrow> limiter_state \<Rightarrow> limit_rejection + connection_permit \<times> limiter_state" where
  "try_acquire visit settings ip st =
     (let bucket = client_of ip
      in if count_at (clients st) bucket \<ge> per_client settings then Inl Per_Client
         else if (case site bucket of None \<Rightarrow> False | Some s \<Rightarrow> count_at (sites st) s \<ge> per_site settings) then Inl Per_Site
         else if free_permits st = 0 then Inl Global
         else (case make_room visit settings (source_of bucket) st of
             None \<Rightarrow> Inl Pending
           | Some st1 \<Rightarrow> Inr (take_slot bucket st1)))"

fun remove_slot :: "nat \<Rightarrow> pending_slot list \<Rightarrow> pending_slot list option" where
  "remove_slot i [] = None"
| "remove_slot i (x # xs) = (if slot_id x = i then Some xs else map_option ((#) x) (remove_slot i xs))"

definition release_pending :: "pending_slot \<Rightarrow> limiter_state \<Rightarrow> limiter_state" where
  "release_pending slot st =
     (let s = source_of (slot_bucket slot)
      in case map_of (pending_sources st) s of
           None \<Rightarrow> st
         | Some q \<Rightarrow>
             (case remove_slot (slot_id slot) q of
                None \<Rightarrow> st
              | Some q' \<Rightarrow> (put_queue s q' st)\<lparr>pending_total := pending_total st - 1\<rparr>))"

definition release :: "client_bucket \<Rightarrow> limiter_state \<Rightarrow> limiter_state" where
  "release bucket st =
     st\<lparr>clients := decrement bucket (clients st),
        sites := (case site bucket of None \<Rightarrow> sites st | Some s \<Rightarrow> decrement s (sites st))\<rparr>"

definition mark_established :: "connection_permit \<Rightarrow> limiter_state \<Rightarrow> connection_permit \<times> limiter_state" where
  "mark_established permit st =
     (permit\<lparr>permit_slot := None\<rparr>, case permit_slot permit of None \<Rightarrow> st | Some slot \<Rightarrow> release_pending slot st)"

definition drop_permit :: "connection_permit \<Rightarrow> limiter_state \<Rightarrow> limiter_state" where
  "drop_permit permit st =
     (let st1 = release (permit_bucket permit) (snd (mark_established permit st)) in st1\<lparr>free_permits := free_permits st1 + 1\<rparr>)"


subsection \<open>Runs\<close>

datatype limit_op = Connect ip_addr | Establish nat | Close nat

record limit_run =
  limiter :: limiter_state
  connections :: "connection_permit list"

fun limit_step ::
  "((pending_source \<times> pending_slot list) list \<Rightarrow> (pending_source \<times> pending_slot list) list) \<Rightarrow> limit_settings \<Rightarrow> limit_run \<Rightarrow> limit_op
     \<Rightarrow> limit_run" where
  "limit_step visit settings run (Connect ip) =
     (case try_acquire visit settings ip (limiter run) of
        Inl _ \<Rightarrow> run
      | Inr (permit, st) \<Rightarrow> \<lparr>limiter = st, connections = connections run @ [permit]\<rparr>)"
| "limit_step visit settings run (Establish n) =
     (if n < length (connections run) then
        (let (permit, st) = mark_established (connections run ! n) (limiter run)
         in \<lparr>limiter = st, connections = (connections run)[n := permit]\<rparr>)
      else run)"
| "limit_step visit settings run (Close n) =
     (if n < length (connections run)
      then \<lparr>limiter = drop_permit (connections run ! n) (limiter run), connections = remove_nth n (connections run)\<rparr>
      else run)"

definition limit_start :: "limit_settings \<Rightarrow> limit_run" where
  "limit_start settings = \<lparr>limiter = new_limiter_state settings, connections = []\<rparr>"

definition limit_trace ::
  "((pending_source \<times> pending_slot list) list \<Rightarrow> (pending_source \<times> pending_slot list) list) \<Rightarrow> limit_settings \<Rightarrow> limit_op list \<Rightarrow> limit_run" where
  "limit_trace visit settings ops = foldl (limit_step visit settings) (limit_start settings) ops"


subsection \<open>Prefixes\<close>

lemma v6_prefix64_parts:
  "ucast (drop_bit 48 (v6_prefix64 a b c d)) = a" "ucast (drop_bit 32 (v6_prefix64 a b c d)) = b"
  "ucast (drop_bit 16 (v6_prefix64 a b c d)) = c" "ucast (v6_prefix64 a b c d) = d"
  by (rule bit_word_eqI, auto simp: v6_prefix64_def bit_simps dest: bit_imp_le_length)+

lemma v6_site_bits: "drop_bit 16 (v6_prefix64 a b c d) = push_bit 32 (ucast a) OR push_bit 16 (ucast b) OR ucast c"
  by (rule bit_word_eqI) (auto simp: v6_prefix64_def bit_simps dest: bit_imp_le_length)

lemma v6_prefix64_eq: "v6_prefix64 a b c d = v6_prefix64 a' b' c' d' \<longleftrightarrow> a = a' \<and> b = b' \<and> c = c' \<and> d = d'"
  using v6_prefix64_parts [of a b c d] v6_prefix64_parts [of a' b' c' d'] by auto

lemma v6_site_eq: "drop_bit 16 (v6_prefix64 a b c d) = drop_bit 16 (v6_prefix64 a' b' c' d') \<longleftrightarrow> a = a' \<and> b = b' \<and> c = c'"
proof
  assume e: "drop_bit 16 (v6_prefix64 a b c d) = drop_bit 16 (v6_prefix64 a' b' c' d')"
  have "drop_bit 48 w = drop_bit 32 (drop_bit 16 w)" "drop_bit 32 w = drop_bit 16 (drop_bit 16 w)" for w :: "64 word" by simp_all
  then have "drop_bit 48 (v6_prefix64 a b c d) = drop_bit 48 (v6_prefix64 a' b' c' d')" "drop_bit 32 (v6_prefix64 a b c d) = drop_bit 32 (v6_prefix64 a' b' c' d')"
    by (simp_all only: e)
  then show "a = a' \<and> b = b' \<and> c = c'" using e v6_prefix64_parts [of a b c d] v6_prefix64_parts [of a' b' c' d'] by metis
qed (simp add: v6_site_bits)


subsection \<open>Slots\<close>

definition slots :: "connection_permit list \<Rightarrow> pending_slot list" where
  "slots ps = List.map_filter permit_slot ps"

definition drop_id :: "nat \<Rightarrow> pending_slot list \<Rightarrow> pending_slot list" where
  "drop_id i xs = filter (\<lambda>s. slot_id s \<noteq> i) xs"

lemma slots_simps [simp]:
  "slots [] = []" "slots (ps @ qs) = slots ps @ slots qs"
  "slots (p # ps) = (case permit_slot p of None \<Rightarrow> [] | Some s \<Rightarrow> [s]) @ slots ps"
  by (simp_all add: slots_def map_filter_def split: option.splits)

lemma drop_id_other: "i \<notin> slot_id ` set xs \<Longrightarrow> drop_id i xs = xs"
  by (auto simp: drop_id_def filter_id_conv)

lemma drop_id_simps [simp]: "drop_id i (xs @ ys) = drop_id i xs @ drop_id i ys" "drop_id i [] = []"
  "drop_id i (x # xs) = (if slot_id x = i then drop_id i xs else x # drop_id i xs)"
  by (simp_all add: drop_id_def)

lemma slots_nth:
  assumes "n < length ps" "distinct (map slot_id (slots ps))"
  shows "slots (remove_nth n ps) = (case permit_slot (ps ! n) of None \<Rightarrow> slots ps | Some s \<Rightarrow> drop_id (slot_id s) (slots ps))"
    "permit_slot p = None \<Longrightarrow> slots (ps[n := p]) = slots (remove_nth n ps)"
proof -
  have s: "slots ps = slots (take n ps) @ (case permit_slot (ps ! n) of None \<Rightarrow> [] | Some s \<Rightarrow> [s]) @ slots (drop (Suc n) ps)"
    using arg_cong [OF split_nth [OF assms(1)], of slots] by simp
  show "slots (remove_nth n ps) = (case permit_slot (ps ! n) of None \<Rightarrow> slots ps | Some s \<Rightarrow> drop_id (slot_id s) (slots ps))"
  proof (cases "permit_slot (ps ! n)")
    case None
    then show ?thesis using s by (simp add: remove_nth_def)
  next
    case (Some x)
    then have "slot_id x \<notin> slot_id ` set (slots (take n ps))" "slot_id x \<notin> slot_id ` set (slots (drop (Suc n) ps))"
      using s assms(2) by auto
    then show ?thesis using s Some by (simp add: remove_nth_def drop_id_other)
  qed
  show "permit_slot p = None \<Longrightarrow> slots (ps[n := p]) = slots (remove_nth n ps)"
    using assms(1) by (simp add: upd_conv_take_nth_drop remove_nth_def)
qed

text \<open>The queues hold exactly the slots \<open>live\<close>, by source and in their order.\<close>

abbreviation of_source :: "pending_source \<Rightarrow> pending_slot list \<Rightarrow> pending_slot list" where
  "of_source src live \<equiv> filter (\<lambda>s. source_of (slot_bucket s) = src) live"

definition queues :: "limiter_state \<Rightarrow> pending_slot list \<Rightarrow> bool" where
  "queues st live \<longleftrightarrow> distinct (map fst (pending_sources st)) \<and> pending_total st = length live
     \<and> (\<forall>src. map_of (pending_sources st) src = (if of_source src live = [] then None else Some (of_source src live)))"

lemma queues_pending: "queues st live \<Longrightarrow> pending_of st src = of_source src live"
  by (auto simp: queues_def pending_of_def)

lemma queues_put:
  assumes "queues st live" "\<And>s. s \<noteq> src \<Longrightarrow> of_source s live' = of_source s live" "q = of_source src live'" "k = length live'"
    "pending_sources st' = pending_sources (put_queue src q st)" "pending_total st' = k"
  shows "queues st' live'"
  using assms by (auto simp: queues_def put_queue_def update_conv' delete_conv' distinct_update distinct_delete)

lemma of_source_drop: "of_source src (drop_id i live) = drop_id i (of_source src live)"
  by (simp add: drop_id_def conj_commute)

lemma of_source_drop_other:
  assumes "distinct (map slot_id live)" "x \<in> set live" "s \<noteq> source_of (slot_bucket x)"
  shows "of_source s (drop_id (slot_id x) live) = of_source s live"
proof -
  have "slot_id x \<notin> slot_id ` set (of_source s live)"
    using assms by (auto simp: distinct_map inj_on_def)
  then show ?thesis by (simp add: of_source_drop drop_id_other)
qed

lemma length_drop_id:
  assumes "distinct (map slot_id live)" "x \<in> set live"
  shows "length (drop_id (slot_id x) live) = length live - 1"
  using assms
proof (induction live)
  case (Cons y ys)
  show ?case
  proof (cases "slot_id y = slot_id x")
    case True
    then have "slot_id x \<notin> slot_id ` set ys" using Cons.prems(1) by auto
    then show ?thesis using True by (simp add: drop_id_other)
  next
    case False
    then have "x \<in> set ys" using Cons.prems(2) by auto
    then show ?thesis using False Cons by (cases ys) auto
  qed
qed simp

lemma remove_slot_distinct:
  "distinct (map slot_id q) \<Longrightarrow> remove_slot i q = (if i \<in> slot_id ` set q then Some (drop_id i q) else None)"
proof (induction q)
  case (Cons x q)
  then show ?case using drop_id_other [of i q] by auto
qed simp

text \<open>Taking a slot out of its queue.\<close>

lemma queues_drop:
  assumes "queues st live" "distinct (map slot_id live)" "x \<in> set live"
    "pending_sources st' = pending_sources (put_queue (source_of (slot_bucket x)) (drop_id (slot_id x) (of_source (source_of (slot_bucket x)) live)) st)"
    "pending_total st' = pending_total st - 1"
  shows "queues st' (drop_id (slot_id x) live)"
proof (rule queues_put [OF assms(1) _ _ _ assms(4)])
  show "of_source s (drop_id (slot_id x) live) = of_source s live" if "s \<noteq> source_of (slot_bucket x)" for s
    using of_source_drop_other [OF assms(2,3)] that by blast
  show "drop_id (slot_id x) (of_source (source_of (slot_bucket x)) live) = of_source (source_of (slot_bucket x)) (drop_id (slot_id x) live)"
    by (simp add: of_source_drop)
  show "pending_total st' = length (drop_id (slot_id x) live)"
    using assms(1,5) length_drop_id [OF assms(2,3)] by (simp add: queues_def)
qed simp

lemma queues_release:
  assumes "queues st live" "distinct (map slot_id live)" "slot_id x \<in> slot_id ` set live \<Longrightarrow> x \<in> set live"
  shows "queues (release_pending x st) (drop_id (slot_id x) live)"
proof (cases "x \<in> set live")
  case True
  let ?s = "source_of (slot_bucket x)"
  have q: "map_of (pending_sources st) ?s = Some (of_source ?s live)" using assms(1) True by (auto simp: queues_def filter_empty_conv)
  have d: "distinct (map slot_id (of_source ?s live))" using assms(2) by (simp add: distinct_map_filter)
  have "slot_id x \<in> slot_id ` set (of_source ?s live)" using True by auto
  then have "release_pending x st = (put_queue ?s (drop_id (slot_id x) (of_source ?s live)) st)\<lparr>pending_total := pending_total st - 1\<rparr>"
    using q remove_slot_distinct [OF d] by (simp add: release_pending_def Let_def)
  then show ?thesis by (intro queues_drop [OF assms(1,2) True]) (simp_all add: put_queue_def)
next
  case False
  then have n: "slot_id x \<notin> slot_id ` set live" using assms(3) by blast
  have "release_pending x st = st"
  proof (cases "map_of (pending_sources st) (source_of (slot_bucket x))")
    case (Some q)
    then have q: "q = of_source (source_of (slot_bucket x)) live" using assms(1) by (auto simp: queues_def split: if_splits)
    have "distinct (map slot_id q)" "slot_id x \<notin> slot_id ` set q" using assms(2) n by (auto simp: q distinct_map_filter)
    then show ?thesis using Some remove_slot_distinct by (simp add: release_pending_def Let_def)
  qed (simp add: release_pending_def)
  then show ?thesis using assms(1) n by (simp add: drop_id_other)
qed

lemma queues_take:
  assumes "queues st live"
  shows "queues (snd (take_slot bucket st)) (live @ [\<lparr>slot_id = next_pending_id st, slot_bucket = bucket\<rparr>])"
proof (rule queues_put [OF assms, of "source_of bucket"])
  show "pending_sources (snd (take_slot bucket st)) = pending_sources (put_queue (source_of bucket)
      (of_source (source_of bucket) (live @ [\<lparr>slot_id = next_pending_id st, slot_bucket = bucket\<rparr>])) st)"
    using queues_pending [OF assms, of "source_of bucket"] by (simp add: take_slot_def Let_def put_queue_def)
  show "pending_total (snd (take_slot bucket st)) = length live + 1"
    using assms by (simp add: take_slot_def Let_def put_queue_def queues_def)
qed simp_all


subsection \<open>Fairness\<close>

lemma max_by_held_Some:
  "max_by_held xs = Some (s, n) \<Longrightarrow> (\<exists>q. (s, q) \<in> set xs \<and> length q = n) \<and> (\<forall>(t, q) \<in> set xs. length q \<le> n)"
proof (induction xs arbitrary: s n)
  case (Cons x xs)
  obtain t q where x: "x = (t, q)" by (cases x)
  show ?case
  proof (cases "max_by_held xs")
    case None
    then have "xs = []" by (cases xs) (auto split: option.splits prod.splits if_splits)
    then show ?thesis using Cons.prems x by simp
  next
    case (Some y)
    obtain t' n' where y: "y = (t', n')" by (cases y)
    then show ?thesis using Cons.IH [of t' n'] Cons.prems Some x by (fastforce split: if_splits)
  qed
qed simp

lemma max_by_held_None: "max_by_held xs = None \<longleftrightarrow> xs = []"
  by (cases xs) (auto split: option.splits prod.splits if_splits)

text \<open>What the iteration of a map is documented to do.\<close>

definition visits_all :: "((pending_source \<times> pending_slot list) list \<Rightarrow> (pending_source \<times> pending_slot list) list) \<Rightarrow> bool" where
  "visits_all visit \<longleftrightarrow> (\<forall>m. set (visit m) = set m)"

lemma queues_entry:
  assumes "queues st live"
  shows "(s, q) \<in> set (pending_sources st) \<longleftrightarrow> q = of_source s live \<and> q \<noteq> []"
proof -
  have d: "distinct (map fst (pending_sources st))" using assms by (simp add: queues_def)
  have "(s, q) \<in> set (pending_sources st) \<longleftrightarrow> map_of (pending_sources st) s = Some q"
    using map_of_eq_Some_iff [OF d] by blast
  then show ?thesis using assms by (auto simp: queues_def)
qed

lemma heaviest_victim_spec:
  assumes "visits_all visit" "queues st live"
  shows "(heaviest_victim visit n st = None \<longleftrightarrow> (\<forall>s. length (of_source s live) \<le> n + 1))"
    and "heaviest_victim visit n st = Some (x, st') \<Longrightarrow> x \<in> set live \<and> of_source (source_of (slot_bucket x)) live = x # tl (of_source (source_of (slot_bucket x)) live)
       \<and> st' = put_queue (source_of (slot_bucket x)) (tl (of_source (source_of (slot_bucket x)) live)) st
       \<and> n + 1 < length (of_source (source_of (slot_bucket x)) live)
       \<and> (\<forall>s. length (of_source s live) \<le> length (of_source (source_of (slot_bucket x)) live))"
proof -
  have v: "set (visit (pending_sources st)) = set (pending_sources st)" using assms(1) by (simp add: visits_all_def)
  have all: "\<forall>s. length (of_source s live) \<le> m" if "\<forall>(t, q) \<in> set (visit (pending_sources st)). length q \<le> m" for m
    using that v queues_entry [OF assms(2)] by (metis (no_types, lifting) case_prodD le0 list.size(3))
  show "heaviest_victim visit n st = None \<longleftrightarrow> (\<forall>s. length (of_source s live) \<le> n + 1)"
  proof (cases "max_by_held (visit (pending_sources st))")
    case None
    then have "visit (pending_sources st) = []" by (simp add: max_by_held_None)
    then show ?thesis using None all [of 0] by (auto simp: heaviest_victim_def)
  next
    case (Some y)
    obtain s m where y: "y = (s, m)" by (cases y)
    from max_by_held_Some Some y obtain q where q: "(s, q) \<in> set (visit (pending_sources st))" "length q = m"
      "\<forall>(t, q) \<in> set (visit (pending_sources st)). length q \<le> m" by blast
    then have e: "q = of_source s live" "q \<noteq> []" using v queues_entry [OF assms(2)] by auto
    have "heaviest_victim visit n st = None \<longleftrightarrow> m \<le> n + 1"
      using Some y e queues_pending [OF assms(2), of s] by (auto simp: heaviest_victim_def split: list.splits)
    moreover have "(\<forall>s. length (of_source s live) \<le> n + 1) \<longleftrightarrow> m \<le> n + 1"
      using all [OF q(3)] e(1) q(2) by (metis order_trans)
    ultimately show ?thesis by simp
  qed
  show "x \<in> set live \<and> of_source (source_of (slot_bucket x)) live = x # tl (of_source (source_of (slot_bucket x)) live)
       \<and> st' = put_queue (source_of (slot_bucket x)) (tl (of_source (source_of (slot_bucket x)) live)) st
       \<and> n + 1 < length (of_source (source_of (slot_bucket x)) live)
       \<and> (\<forall>s. length (of_source s live) \<le> length (of_source (source_of (slot_bucket x)) live))"
    if h: "heaviest_victim visit n st = Some (x, st')"
  proof -
    obtain s m q where m: "max_by_held (visit (pending_sources st)) = Some (s, m)" "n + 1 < m" "pending_of st s = x # q" "st' = put_queue s q st"
      using h by (auto simp: heaviest_victim_def split: option.splits if_splits list.splits)
    have e: "of_source s live = x # q" using m(3) queues_pending [OF assms(2)] by simp
    then have "x \<in> set (of_source s live)" by simp
    then have x: "x \<in> set live" "source_of (slot_bucket x) = s" by auto
    from max_by_held_Some [OF m(1)] obtain q' where q': "(s, q') \<in> set (visit (pending_sources st))" "length q' = m"
      "\<forall>(t, q) \<in> set (visit (pending_sources st)). length q \<le> m" by blast
    then have "length (of_source s live) = m" using v queues_entry [OF assms(2)] by auto
    then show ?thesis using x e m(2,4) all [OF q'(3)] by simp
  qed
qed


subsection \<open>The invariant\<close>

definition live :: "limiter_state \<Rightarrow> connection_permit list \<Rightarrow> pending_slot list" where
  "live st ps = filter (\<lambda>s. slot_id s \<notin> set (evicted st)) (slots ps)"

definition numbered :: "limiter_state \<Rightarrow> connection_permit list \<Rightarrow> bool" where
  "numbered st ps \<longleftrightarrow> distinct (map slot_id (slots ps)) \<and> (\<forall>s \<in> set (slots ps). slot_id s < next_pending_id st)
     \<and> (\<forall>i \<in> set (evicted st). i < next_pending_id st)"

definition in_bounds :: "limit_settings \<Rightarrow> limiter_state \<Rightarrow> connection_permit list \<Rightarrow> bool" where
  "in_bounds settings st ps \<longleftrightarrow> length (live st ps) \<le> pending_limit settings
     \<and> (\<forall>b. holders permit_bucket ps b \<le> per_client settings) \<and> (\<forall>s. holders (\<lambda>p. site (permit_bucket p)) ps (Some s) \<le> per_site settings)"

definition exact :: "limit_settings \<Rightarrow> limiter_state \<Rightarrow> connection_permit list \<Rightarrow> bool" where
  "exact settings st ps \<longleftrightarrow> free_permits st + length ps = global_limit settings
     \<and> tallies (clients st) (\<lambda>p. Some (permit_bucket p)) ps \<and> tallies (sites st) (\<lambda>p. site (permit_bucket p)) ps
     \<and> queues st (live st ps)"

definition limit_inv :: "limit_settings \<Rightarrow> limit_run \<Rightarrow> bool" where
  "limit_inv settings run \<longleftrightarrow> numbered (limiter run) (connections run) \<and> exact settings (limiter run) (connections run)
     \<and> in_bounds settings (limiter run) (connections run)"

lemma live_distinct: "numbered st ps \<Longrightarrow> distinct (map slot_id (live st ps))"
  by (simp add: numbered_def live_def distinct_map_filter)

lemma live_evict: "evicted st' = i # evicted st \<Longrightarrow> live st' ps = drop_id i (live st ps)"
  by (auto simp: live_def drop_id_def intro: filter_cong)

lemma holders_Some: "holders (\<lambda>p. Some (f p)) ps (Some k) = holders f ps k"
  by (simp add: holders_def)

lemma put_queue_keeps [simp]:
  "free_permits (put_queue s q st) = free_permits st" "clients (put_queue s q st) = clients st" "sites (put_queue s q st) = sites st"
  "pending_total (put_queue s q st) = pending_total st" "next_pending_id (put_queue s q st) = next_pending_id st"
  "evicted (put_queue s q st) = evicted st" "evicted_total (put_queue s q st) = evicted_total st"
  by (simp_all add: put_queue_def)

lemma make_room_result:
  assumes "visits_all visit" "make_room visit settings src st = Some st1" "numbered st ps" "queues st (live st ps)"
    "length (live st ps) \<le> pending_limit settings"
  shows "free_permits st1 = free_permits st" "clients st1 = clients st" "sites st1 = sites st"
    "numbered st1 ps" "queues st1 (live st1 ps)" "length (live st1 ps) < pending_limit settings"
    "next_pending_id st1 = next_pending_id st" "\<forall>i. i \<notin> slot_id ` set (slots ps) \<longrightarrow> i \<in> set (evicted st1) \<longrightarrow> i \<in> set (evicted st)"
proof -
  have "free_permits st1 = free_permits st \<and> clients st1 = clients st \<and> sites st1 = sites st \<and> numbered st1 ps \<and> queues st1 (live st1 ps)
      \<and> length (live st1 ps) < pending_limit settings \<and> next_pending_id st1 = next_pending_id st
      \<and> (\<forall>i. i \<notin> slot_id ` set (slots ps) \<longrightarrow> i \<in> set (evicted st1) \<longrightarrow> i \<in> set (evicted st))"
  proof (cases "pending_total st \<ge> pending_limit settings")
    case False
    then show ?thesis using assms by (auto simp: make_room_def queues_def)
  next
    case True
    obtain x st2 where h: "heaviest_victim visit (length (pending_of st src)) st = Some (x, st2)"
      "st1 = st2\<lparr>pending_total := pending_total st2 - 1, evicted := slot_id x # evicted st2, evicted_total := evicted_total st2 + 1\<rparr>"
      using assms(2) True by (auto simp: make_room_def split: option.splits)
    let ?s = "source_of (slot_bucket x)"
    from heaviest_victim_spec(2) [OF assms(1,4) h(1)] have x: "x \<in> set (live st ps)"
      "of_source ?s (live st ps) = x # tl (of_source ?s (live st ps))" "st2 = put_queue ?s (tl (of_source ?s (live st ps))) st" by blast+
    have d: "distinct (map slot_id (live st ps))" by (rule live_distinct [OF assms(3)])
    then have "distinct (map slot_id (of_source ?s (live st ps)))" by (simp add: distinct_map_filter)
    then have q: "drop_id (slot_id x) (of_source ?s (live st ps)) = tl (of_source ?s (live st ps))"
      by (subst (1) x(2), subst (asm) x(2)) (simp add: drop_id_other)
    have l: "live st1 ps = drop_id (slot_id x) (live st ps)" by (rule live_evict) (simp add: h(2) x(3))
    have "queues st1 (drop_id (slot_id x) (live st ps))"
      by (rule queues_drop [OF assms(4) d x(1)]) (simp_all add: q h(2) x(3) put_queue_def)
    moreover have "length (live st1 ps) < pending_limit settings"
      using l length_drop_id [OF d x(1)] x(1) assms(5) by (cases "live st ps") auto
    moreover have "x \<in> set (slots ps)" using x(1) by (simp add: live_def)
    ultimately show ?thesis using l h(2) x(3) assms(3) by (auto simp: numbered_def)
  qed
  then show "free_permits st1 = free_permits st" "clients st1 = clients st" "sites st1 = sites st"
    "numbered st1 ps" "queues st1 (live st1 ps)" "length (live st1 ps) < pending_limit settings"
    "next_pending_id st1 = next_pending_id st" "\<forall>i. i \<notin> slot_id ` set (slots ps) \<longrightarrow> i \<in> set (evicted st1) \<longrightarrow> i \<in> set (evicted st)"
    by blast+
qed

lemma take_slot_result:
  "fst (take_slot bucket st) = \<lparr>permit_bucket = bucket, permit_slot = Some \<lparr>slot_id = next_pending_id st, slot_bucket = bucket\<rparr>\<rparr>"
  "free_permits (snd (take_slot bucket st)) = free_permits st - 1" "clients (snd (take_slot bucket st)) = bump_count bucket (clients st)"
  "sites (snd (take_slot bucket st)) = (case site bucket of None \<Rightarrow> sites st | Some s \<Rightarrow> bump_count s (sites st))"
  "next_pending_id (snd (take_slot bucket st)) = next_pending_id st + 1" "evicted (snd (take_slot bucket st)) = evicted st"
  by (simp_all add: take_slot_def Let_def split: option.splits)

lemma connect_inv:
  assumes "visits_all visit" "limit_inv settings run" "try_acquire visit settings ip (limiter run) = Inr (permit, st')"
  shows "limit_inv settings \<lparr>limiter = st', connections = connections run @ [permit]\<rparr>"
proof -
  let ?b = "client_of ip" and ?st = "limiter run" and ?ps = "connections run"
  have i: "numbered ?st ?ps" "exact settings ?st ?ps" "in_bounds settings ?st ?ps" using assms(2) by (simp_all add: limit_inv_def)
  obtain st1 where a: "count_at (clients ?st) ?b < per_client settings"
    "\<forall>s. site ?b = Some s \<longrightarrow> count_at (sites ?st) s < per_site settings" "free_permits ?st > 0"
    "make_room visit settings (source_of ?b) ?st = Some st1" "take_slot ?b st1 = (permit, st')"
    using assms(3) by (auto simp: try_acquire_def Let_def not_le split: if_splits option.splits)
  note r = make_room_result [OF assms(1) a(4) i(1)] 
  have e: "queues ?st (live ?st ?ps)" "length (live ?st ?ps) \<le> pending_limit settings" using i(2,3) by (simp_all add: exact_def in_bounds_def)
  note r = r [OF e] and t = take_slot_result [of ?b st1, unfolded a(5) fst_conv snd_conv]
  let ?slot = "\<lparr>slot_id = next_pending_id st1, slot_bucket = ?b\<rparr>"
  have fresh: "next_pending_id st1 \<notin> set (evicted st1)" "next_pending_id st1 \<notin> slot_id ` set (slots ?ps)"
    using r(4) by (auto simp: numbered_def)
  have l: "live st' (?ps @ [permit]) = live st1 ?ps @ [?slot]" using t fresh(1) by (simp add: live_def)
  have n: "numbered st' (?ps @ [permit])" using r(4) fresh t by (auto simp: numbered_def)
  have "queues st' (live st' (?ps @ [permit]))" using queues_take [OF r(5), of ?b] l a(5) by simp
  moreover have pb: "permit_bucket permit = ?b" using t(1) by simp
  moreover have "tallies (clients st') (\<lambda>p. Some (permit_bucket p)) (?ps @ [permit])"
    using tallies_join [of "clients ?st" "\<lambda>p. Some (permit_bucket p)" ?ps permit] i(2) unfolding t(3) r(2) exact_def pb by simp
  moreover have "tallies (sites st') (\<lambda>p. site (permit_bucket p)) (?ps @ [permit])"
    using tallies_join [of "sites ?st" "\<lambda>p. site (permit_bucket p)" ?ps permit] i(2) unfolding t(4) r(3) exact_def pb by blast
  ultimately have x: "exact settings st' (?ps @ [permit])" using i(2) a(3) r(1) t(2) by (auto simp: exact_def)
  have c: "holders permit_bucket ?ps ?b < per_client settings" 
    using a(1) i(2) tallies_read [of "clients ?st" "\<lambda>p. Some (permit_bucket p)" ?ps ?b] by (simp add: exact_def holders_Some)
  have s: "holders (\<lambda>p. site (permit_bucket p)) ?ps (Some s) < per_site settings" if "site ?b = Some s" for s
    using a(2) that i(2) tallies_read [of "sites ?st" "\<lambda>p. site (permit_bucket p)" ?ps s] by (auto simp: exact_def)
  have "in_bounds settings st' (?ps @ [permit])" using i(3) l r(6) t(1) c s by (auto simp: in_bounds_def Suc_le_eq)
  then show ?thesis using n x by (simp add: limit_inv_def)
qed

lemma release_pending_keeps:
  "free_permits (release_pending x st) = free_permits st" "clients (release_pending x st) = clients st" "sites (release_pending x st) = sites st"
  "next_pending_id (release_pending x st) = next_pending_id st" "evicted (release_pending x st) = evicted st"
  by (simp_all add: release_pending_def Let_def split: option.splits)

lemma slots_member: "n < length ps \<Longrightarrow> permit_slot (ps ! n) = Some x \<Longrightarrow> x \<in> set (slots ps)"
  by (subst split_nth [of n ps]) simp_all

lemma live_subset: "slots qs = drop_id i (slots ps) \<Longrightarrow> evicted st' = evicted st \<Longrightarrow> live st' qs = drop_id i (live st ps)"
  by (auto simp: live_def drop_id_def intro: filter_cong)

lemma mark_established_result:
  assumes "numbered st ps" "queues st (live st ps)" "n < length ps" "mark_established (ps ! n) st = (p, st')"
  shows "p = (ps ! n)\<lparr>permit_slot := None\<rparr>" "free_permits st' = free_permits st" "clients st' = clients st" "sites st' = sites st"
    "next_pending_id st' = next_pending_id st" "evicted st' = evicted st"
    "queues st' (live st' (remove_nth n ps))" "live st' (ps[n := p]) = live st' (remove_nth n ps)"
    "set (slots (remove_nth n ps)) \<subseteq> set (slots ps)" "distinct (map slot_id (slots (remove_nth n ps)))" "slots (ps[n := p]) = slots (remove_nth n ps)"
    "length (live st' (remove_nth n ps)) \<le> length (live st ps)"
proof -
  have d: "distinct (map slot_id (slots ps))" using assms(1) by (simp add: numbered_def)
  note s = slots_nth [OF assms(3) d]
  show p: "p = (ps ! n)\<lparr>permit_slot := None\<rparr>" using assms(4) by (simp add: mark_established_def)
  have st': "st' = (case permit_slot (ps ! n) of None \<Rightarrow> st | Some x \<Rightarrow> release_pending x st)" using assms(4) by (simp add: mark_established_def)
  show k: "free_permits st' = free_permits st" "clients st' = clients st" "sites st' = sites st"
    "next_pending_id st' = next_pending_id st" "evicted st' = evicted st"
    using st' by (simp_all add: release_pending_keeps split: option.splits)
  show e: "slots (ps[n := p]) = slots (remove_nth n ps)" using s(2) p by simp
  then show "live st' (ps[n := p]) = live st' (remove_nth n ps)" by (simp add: live_def)
  show "set (slots (remove_nth n ps)) \<subseteq> set (slots ps)" "distinct (map slot_id (slots (remove_nth n ps)))"
    using s(1) d by (auto simp: drop_id_def distinct_map_filter split: option.splits)
  show "queues st' (live st' (remove_nth n ps))"
  proof (cases "permit_slot (ps ! n)")
    case None
    then show ?thesis using st' s(1) assms(2) by (simp add: live_def)
  next
    case (Some x)
    have "x \<in> set (slots ps)" using slots_member [OF assms(3) Some] .
    then have "x \<in> set (live st ps)" if "slot_id x \<in> slot_id ` set (live st ps)" using that by (auto simp: live_def)
    from queues_release [OF assms(2) live_distinct [OF assms(1)] this]
    have "queues st' (drop_id (slot_id x) (live st ps))" using st' Some by simp
    moreover have "live st' (remove_nth n ps) = drop_id (slot_id x) (live st ps)"
      using live_subset [OF _ k(5)] s(1) Some by simp
    ultimately show ?thesis by simp
  qed
  show "length (live st' (remove_nth n ps)) \<le> length (live st ps)"
  proof (cases "permit_slot (ps ! n)")
    case None
    then show ?thesis using s(1) k(5) by (simp add: live_def)
  next
    case (Some x)
    then show ?thesis using live_subset [OF _ k(5)] s(1) by (simp add: drop_id_def)
  qed
qed


lemma establish_inv:
  assumes "limit_inv settings run" "n < length (connections run)" "mark_established (connections run ! n) (limiter run) = (p, st')"
  shows "limit_inv settings \<lparr>limiter = st', connections = (connections run)[n := p]\<rparr>"
proof -
  let ?st = "limiter run" and ?ps = "connections run"
  have i: "numbered ?st ?ps" "exact settings ?st ?ps" "in_bounds settings ?st ?ps" using assms(1) by (simp_all add: limit_inv_def)
  have q: "queues ?st (live ?st ?ps)" using i(2) by (simp add: exact_def)
  note r = mark_established_result [OF i(1) q assms(2,3)]
  have same: "permit_bucket p = permit_bucket (?ps ! n)" using r(1) by simp
  have "numbered st' (?ps[n := p])" using i(1) r by (auto simp: numbered_def)
  moreover have "tallies (clients st') (\<lambda>p. Some (permit_bucket p)) (?ps[n := p])" "tallies (sites st') (\<lambda>p. site (permit_bucket p)) (?ps[n := p])"
    using i(2) tallies_update [of "clients ?st" "\<lambda>p. Some (permit_bucket p)" ?ps n p] tallies_update [of "sites ?st" "\<lambda>p. site (permit_bucket p)" ?ps n p]
      assms(2) same unfolding exact_def r(3,4) by simp_all
  then have "exact settings st' (?ps[n := p])" using i(2) r(2,7,8) by (simp add: exact_def)
  moreover have "holders permit_bucket (?ps[n := p]) b = holders permit_bucket ?ps b"
    "holders (\<lambda>p. site (permit_bucket p)) (?ps[n := p]) s = holders (\<lambda>p. site (permit_bucket p)) ?ps s" for b s
    using holders_update [OF assms(2)] same by metis+
  then have "in_bounds settings st' (?ps[n := p])" using i(3) r(8,12) by (auto simp: in_bounds_def)
  ultimately show ?thesis by (simp add: limit_inv_def)
qed

lemma close_inv:
  assumes "limit_inv settings run" "n < length (connections run)"
  shows "limit_inv settings \<lparr>limiter = drop_permit (connections run ! n) (limiter run), connections = remove_nth n (connections run)\<rparr>"
proof -
  let ?st = "limiter run" and ?ps = "connections run"
  have i: "numbered ?st ?ps" "exact settings ?st ?ps" "in_bounds settings ?st ?ps" using assms(1) by (simp_all add: limit_inv_def)
  have q: "queues ?st (live ?st ?ps)" using i(2) by (simp add: exact_def)
  obtain p st1 where m: "mark_established (?ps ! n) ?st = (p, st1)" by (cases "mark_established (?ps ! n) ?st")
  note r = mark_established_result [OF i(1) q assms(2) m]
  define st' where "st' = drop_permit (?ps ! n) ?st"
  let ?b = "permit_bucket (?ps ! n)"
  have d: "free_permits st' = free_permits ?st + 1" "clients st' = decrement ?b (clients ?st)"
    "sites st' = (case site ?b of None \<Rightarrow> sites ?st | Some s \<Rightarrow> decrement s (sites ?st))"
    "pending_sources st' = pending_sources st1" "pending_total st' = pending_total st1"
    "next_pending_id st' = next_pending_id ?st" "evicted st' = evicted ?st"
    using r(2-6) m by (simp_all add: st'_def drop_permit_def release_def Let_def split: option.splits)
  have l: "live st' (remove_nth n ?ps) = live st1 (remove_nth n ?ps)" using d(7) r(6) by (simp add: live_def)
  have "numbered st' (remove_nth n ?ps)" using i(1) r(9,10) d(6,7) by (auto simp: numbered_def)
  moreover have "queues st' (live st' (remove_nth n ?ps))" using r(7) l d(4,5) by (simp add: queues_def)
  moreover have "tallies (clients st') (\<lambda>p. Some (permit_bucket p)) (remove_nth n ?ps)"
    using tallies_leave [OF _ assms(2), of "clients ?st" "\<lambda>p. Some (permit_bucket p)"] i(2) d(2) by (simp add: exact_def)
  moreover have "tallies (sites st') (\<lambda>p. site (permit_bucket p)) (remove_nth n ?ps)"
    using tallies_leave [OF _ assms(2), of "sites ?st" "\<lambda>p. site (permit_bucket p)"] i(2) unfolding d(3) exact_def by blast
  moreover have "free_permits st' + length (remove_nth n ?ps) = global_limit settings"
    using i(2) d(1) assms(2) by (simp add: exact_def remove_nth_def)
  moreover have "holders permit_bucket (remove_nth n ?ps) b \<le> holders permit_bucket ?ps b"
    "holders (\<lambda>p. site (permit_bucket p)) (remove_nth n ?ps) s \<le> holders (\<lambda>p. site (permit_bucket p)) ?ps s" for b s
    using holders_nth [OF assms(2)] by (metis le_add1)+
  then have "in_bounds settings st' (remove_nth n ?ps)" using i(3) r(12) l unfolding in_bounds_def by (metis order_trans)
  ultimately show ?thesis unfolding st'_def [symmetric] by (simp add: limit_inv_def exact_def)
qed

lemma limit_step_inv:
  assumes "visits_all visit" "limit_inv settings run"
  shows "limit_inv settings (limit_step visit settings run x)"
proof (cases x)
  case (Connect ip)
  then show ?thesis using connect_inv [OF assms] assms(2) by (auto split: sum.splits)
next
  case (Establish n)
  then show ?thesis using establish_inv [OF assms(2)] assms(2) by (auto split: prod.splits)
next
  case (Close n)
  then show ?thesis using close_inv [OF assms(2)] assms(2) by simp
qed

lemma limit_trace_inv:
  assumes "visits_all visit"
  shows "limit_inv settings (limit_trace visit settings ops)"
proof -
  have "limit_inv settings (limit_start settings)"
    by (simp add: limit_inv_def limit_start_def new_limiter_state_def numbered_def exact_def in_bounds_def live_def queues_def)
  then show ?thesis unfolding limit_trace_def
    by (induction ops rule: rev_induct) (simp_all add: limit_step_inv [OF assms])
qed


subsection \<open>What the limiter promises\<close>

lemma no_entries: "(\<And>k. map_of m k = None) \<Longrightarrow> m = []"
  by (cases m) (auto, metis option.distinct(1))

lemma tallies_none: "tallies m f [] \<Longrightarrow> m = []"
  by (rule no_entries) (simp add: tallies_def)

lemma exact_counts:
  assumes "exact settings st ps"
  shows "count_at (clients st) b = holders permit_bucket ps b" "count_at (sites st) s = holders (\<lambda>p. site (permit_bucket p)) ps (Some s)"
proof -
  have "tallies (clients st) (\<lambda>p. Some (permit_bucket p)) ps" "tallies (sites st) (\<lambda>p. site (permit_bucket p)) ps"
    using assms by (simp_all add: exact_def)
  then show "count_at (clients st) b = holders permit_bucket ps b" "count_at (sites st) s = holders (\<lambda>p. site (permit_bucket p)) ps (Some s)"
    using tallies_read by (fastforce simp: holders_Some)+
qed

definition example_limits :: limit_settings where
  "example_limits = \<lparr>global_limit = 9, per_client = 3, per_site = 3, pending_limit = 2\<rparr>"

lemma visits_in_order: "visits_all (\<lambda>m. m)"
  by (simp add: visits_all_def)

text \<open>
  C23. However connections come, become established and close, there are never more of them than the limits allow: in all, of a
  client, of an IPv6 site, and not yet established.
\<close>

theorem connections_within_limits:
  assumes "visits_all visit"
  shows "length (connections (limit_trace visit settings ops)) \<le> global_limit settings
    \<and> (\<forall>b. holders permit_bucket (connections (limit_trace visit settings ops)) b \<le> per_client settings)
    \<and> (\<forall>s. holders (\<lambda>p. site (permit_bucket p)) (connections (limit_trace visit settings ops)) (Some s) \<le> per_site settings)
    \<and> length (live (limiter (limit_trace visit settings ops)) (connections (limit_trace visit settings ops))) \<le> pending_limit settings"
  using limit_trace_inv [OF assms, of settings ops] by (auto simp: limit_inv_def exact_def in_bounds_def)

theorem connections_within_limits_witness:
  "length (connections (limit_trace (\<lambda>m. m) example_limits [Connect (V4 1 1 1 1), Connect (V4 2 2 2 2), Establish 0])) \<le> global_limit example_limits"
  using connections_within_limits [OF visits_in_order, of example_limits "[Connect (V4 1 1 1 1), Connect (V4 2 2 2 2), Establish 0]"] by blast

text \<open>
  C31. No count drifts: in every run the maps of the limiter hold for every client and every IPv6 site exactly the number of
  its open connections, with no entry for one that has none, and for every source the queue of its connections that are not yet
  established, in order; the permits taken are the open connections. So when the last one is closed every map is empty again.
\<close>

theorem limiter_never_leaks:
  assumes "visits_all visit" "run = limit_trace visit settings ops" "waiting = live (limiter run) (connections run)"
  shows "(\<forall>b. map_of (clients (limiter run)) b
        = (let n = holders permit_bucket (connections run) b in if n = 0 then None else Some n))
    \<and> (\<forall>s. map_of (sites (limiter run)) s
        = (let n = holders (\<lambda>p. site (permit_bucket p)) (connections run) (Some s) in if n = 0 then None else Some n))
    \<and> (\<forall>q. map_of (pending_sources (limiter run)) q = (if of_source q waiting = [] then None else Some (of_source q waiting)))
    \<and> pending_total (limiter run) = length waiting
    \<and> free_permits (limiter run) + length (connections run) = global_limit settings
    \<and> (connections run = [] \<longrightarrow> clients (limiter run) = [] \<and> sites (limiter run) = [] \<and> pending_sources (limiter run) = [])"
proof -
  have e: "exact settings (limiter run) (connections run)" using limit_trace_inv [OF assms(1)] by (simp add: limit_inv_def assms(2))
  then have q: "queues (limiter run) waiting" by (simp add: exact_def assms(3))
  have "pending_sources (limiter run) = []" if "connections run = []"
    using e that no_entries [of "pending_sources (limiter run)"] by (simp add: exact_def queues_def live_def)
  moreover have "clients (limiter run) = [] \<and> sites (limiter run) = []" if "connections run = []"
    using e that tallies_none [of "clients (limiter run)" "\<lambda>p :: connection_permit. Some (permit_bucket p)"] tallies_none [of "sites (limiter run)" "\<lambda>p :: connection_permit. site (permit_bucket p)"]
    by (simp add: exact_def)
  ultimately show ?thesis using e q by (simp add: exact_def queues_def tallies_def holders_Some Let_def)
qed

theorem limiter_never_leaks_witness:
  "clients (limiter (limit_trace (\<lambda>m. m) example_limits [Connect (V4 1 1 1 1), Close 0])) = []"
proof -
  have "connections (limit_trace (\<lambda>m. m) example_limits [Connect (V4 1 1 1 1), Close 0]) = []" by code_simp
  then show ?thesis using limiter_never_leaks [OF visits_in_order refl refl, of example_limits "[Connect (V4 1 1 1 1), Close 0]"] by blast
qed

text \<open>
  C24. A newcomer is refused for the connections that are not yet established only when they are as many as allowed and no
  source holds two more of them than the newcomer's: so a client that holds none is refused only when every source holds at
  most one.
\<close>

theorem pending_refusal_is_fair:
  assumes "visits_all visit" "run = limit_trace visit settings ops" "waiting = live (limiter run) (connections run)"
  shows "try_acquire visit settings ip (limiter run) = Inl Pending \<longleftrightarrow>
    holders permit_bucket (connections run) (client_of ip) < per_client settings
    \<and> (\<forall>s. site (client_of ip) = Some s \<longrightarrow> holders (\<lambda>p. site (permit_bucket p)) (connections run) (Some s) < per_site settings)
    \<and> length (connections run) < global_limit settings \<and> length waiting = pending_limit settings
    \<and> (\<forall>s. length (of_source s waiting) \<le> length (of_source (source_of (client_of ip)) waiting) + 1)"
proof -
  have i: "exact settings (limiter run) (connections run)" "in_bounds settings (limiter run) (connections run)"
    using limit_trace_inv [OF assms(1), of settings ops] by (simp_all add: limit_inv_def assms(2))
  have q: "queues (limiter run) waiting" "length waiting \<le> pending_limit settings" using i by (simp_all add: exact_def in_bounds_def assms(3))
  have c: "count_at (clients (limiter run)) (client_of ip) = holders permit_bucket (connections run) (client_of ip)"
    "count_at (sites (limiter run)) s = holders (\<lambda>p. site (permit_bucket p)) (connections run) (Some s)" for s
    by (rule exact_counts [OF i(1)])+
  have g: "free_permits (limiter run) = 0 \<longleftrightarrow> \<not> length (connections run) < global_limit settings" using i(1) by (auto simp: exact_def)
  have m: "make_room visit settings (source_of (client_of ip)) (limiter run) = None \<longleftrightarrow> length waiting = pending_limit settings
      \<and> (\<forall>s. length (of_source s waiting) \<le> length (of_source (source_of (client_of ip)) waiting) + 1)"
  proof (cases "pending_limit settings \<le> pending_total (limiter run)")
    case True
    then have "length waiting = pending_limit settings" using q by (simp add: queues_def)
    then show ?thesis using True heaviest_victim_spec(1) [OF assms(1) q(1), of "length (of_source (source_of (client_of ip)) waiting)"]
        queues_pending [OF q(1), of "source_of (client_of ip)"] 
      by (cases "heaviest_victim visit (length (of_source (source_of (client_of ip)) waiting)) (limiter run)") (auto simp: make_room_def)
  next
    case False
    then show ?thesis using q by (simp add: make_room_def queues_def)
  qed
  show ?thesis using c g m by (auto simp: try_acquire_def Let_def not_le split: option.splits)
qed

theorem pending_refusal_is_fair_witness:
  "\<exists>run waiting. run = limit_trace (\<lambda>m. m) example_limits [Connect (V4 1 1 1 1), Connect (V4 2 2 2 2)]
     \<and> waiting = live (limiter run) (connections run) \<and> length waiting = pending_limit example_limits
     \<and> (\<forall>s. length (of_source s waiting) \<le> length (of_source (source_of (client_of (V4 3 3 3 3))) waiting) + 1)"
proof -
  let ?run = "limit_trace (\<lambda>m. m) example_limits [Connect (V4 1 1 1 1), Connect (V4 2 2 2 2)]"
  have "try_acquire (\<lambda>m. m) example_limits (V4 3 3 3 3) (limiter ?run) = Inl Pending" by code_simp
  then show ?thesis using pending_refusal_is_fair [OF visits_in_order refl refl, of example_limits "V4 3 3 3 3"] by blast
qed

text \<open>
  C35. A connection is evicted only to admit another when the pool is full, and it is the oldest of a source that holds the most:
  at least two more than the newcomer's, so the newcomer's source does not end up with more than the victim's.
\<close>

theorem eviction_takes_from_the_heaviest:
  assumes "visits_all visit" "run = limit_trace visit settings ops" "waiting = live (limiter run) (connections run)"
    "try_acquire visit settings ip (limiter run) = Inr (permit, st')" "evicted st' \<noteq> evicted (limiter run)"
  shows "\<exists>victim rest. evicted st' = slot_id victim # evicted (limiter run) \<and> length waiting = pending_limit settings
    \<and> of_source (source_of (slot_bucket victim)) waiting = victim # rest
    \<and> (\<forall>s. length (of_source s waiting) \<le> length rest + 1)
    \<and> length (of_source (source_of (client_of ip)) waiting) + 1 \<le> length rest"
proof -
  have i: "exact settings (limiter run) (connections run)" "in_bounds settings (limiter run) (connections run)"
    using limit_trace_inv [OF assms(1), of settings ops] by (simp_all add: limit_inv_def assms(2))
  have q: "queues (limiter run) waiting" "length waiting \<le> pending_limit settings" using i by (simp_all add: exact_def in_bounds_def assms(3))
  obtain st1 where a: "make_room visit settings (source_of (client_of ip)) (limiter run) = Some st1" "take_slot (client_of ip) st1 = (permit, st')"
    using assms(4) by (auto simp: try_acquire_def Let_def split: if_splits option.splits)
  have ev: "evicted st' = evicted st1" using take_slot_result(6) [of "client_of ip" st1] a(2) by simp
  obtain x st2 where h: "pending_limit settings \<le> pending_total (limiter run)"
    "heaviest_victim visit (length (pending_of (limiter run) (source_of (client_of ip)))) (limiter run) = Some (x, st2)"
    "evicted st1 = slot_id x # evicted st2"
    using a(1) ev assms(5) by (auto simp: make_room_def split: if_splits option.splits)
  let ?q = "of_source (source_of (slot_bucket x)) waiting"
  from heaviest_victim_spec(2) [OF assms(1) q(1) h(2)] have v: "?q = x # tl ?q" "st2 = put_queue (source_of (slot_bucket x)) (tl ?q) (limiter run)"
    "length (pending_of (limiter run) (source_of (client_of ip))) + 1 < length ?q" "\<forall>s. length (of_source s waiting) \<le> length ?q" by blast+
  have "length ?q = length (tl ?q) + 1" using v(1) by (metis Suc_eq_plus1 length_Cons)
  then show ?thesis using v ev h q queues_pending [OF q(1)]
    by (intro exI [of _ x] exI [of _ "tl ?q"]) (auto simp: queues_def)
qed

theorem eviction_takes_from_the_heaviest_witness:
  "\<exists>victim rest waiting. waiting = live (limiter (limit_trace (\<lambda>m. m) example_limits [Connect (V4 1 1 1 1), Connect (V4 1 1 1 1)]))
       (connections (limit_trace (\<lambda>m. m) example_limits [Connect (V4 1 1 1 1), Connect (V4 1 1 1 1)]))
     \<and> of_source (source_of (slot_bucket victim)) waiting = victim # rest
     \<and> length (of_source (source_of (client_of (V4 3 3 3 3))) waiting) + 1 \<le> length rest"
proof -
  let ?run = "limit_trace (\<lambda>m. m) example_limits [Connect (V4 1 1 1 1), Connect (V4 1 1 1 1)]"
  have "\<not> isl (try_acquire (\<lambda>m. m) example_limits (V4 3 3 3 3) (limiter ?run))"
    "map_sum (\<lambda>e. ()) (\<lambda>x. evicted (snd x)) (try_acquire (\<lambda>m. m) example_limits (V4 3 3 3 3) (limiter ?run)) \<noteq> Inr (evicted (limiter ?run))"
    by code_simp+
  then obtain permit st' where "try_acquire (\<lambda>m. m) example_limits (V4 3 3 3 3) (limiter ?run) = Inr (permit, st')" "evicted st' \<noteq> evicted (limiter ?run)"
    by (cases "try_acquire (\<lambda>m. m) example_limits (V4 3 3 3 3) (limiter ?run)") auto
  from eviction_takes_from_the_heaviest [OF visits_in_order refl refl this] show ?thesis by blast
qed

text \<open>
  Two IPv6 clients that do not stand for IPv4 addresses count as one exactly when they share their first 64 bits, and as one
  site exactly when they share the first 48.
\<close>

theorem ipv6_clients_by_prefix:
  assumes "to_canonical (V6 a b c d e f g h) = V6 a b c d e f g h" "to_canonical (V6 a' b' c' d' e' f' g' h') = V6 a' b' c' d' e' f' g' h'"
  shows "(client_of (V6 a b c d e f g h) = client_of (V6 a' b' c' d' e' f' g' h') \<longleftrightarrow> a = a' \<and> b = b' \<and> c = c' \<and> d = d')
    \<and> (site (client_of (V6 a b c d e f g h)) = site (client_of (V6 a' b' c' d' e' f' g' h')) \<longleftrightarrow> a = a' \<and> b = b' \<and> c = c')"
proof -
  have "client_of (V6 a b c d e f g h) = V6_Prefix64 (v6_prefix64 a b c d)" "client_of (V6 a' b' c' d' e' f' g' h') = V6_Prefix64 (v6_prefix64 a' b' c' d')"
    using assms by (auto split: if_splits)
  then show ?thesis by (simp add: v6_prefix64_eq v6_site_eq)
qed

theorem ipv6_clients_by_prefix_witness:
  "client_of (V6 1 2 3 4 5 6 7 8) \<noteq> client_of (V6 1 2 3 9 5 6 7 8) \<and> site (client_of (V6 1 2 3 4 5 6 7 8)) = site (client_of (V6 1 2 3 9 5 6 7 8))"
  using ipv6_clients_by_prefix [of 1 2 3 4 5 6 7 8 1 2 3 9 5 6 7 8] by simp

end
