(* ===== verification/Container_Limits.thy ===== *)
theory Container_Limits
  imports Connection_Limits
begin

text \<open>
  The limits on connections to containers, \<open>tools/http-proxy/src/container_limit.rs\<close>: per container, per client of a container and
  per owner, and the log of refusals.

  The state behind the two mutexes is the record \<open>container_limiter\<close>; a permit is what it was taken for. \<open>container_run\<close> is a
  run of exchanges that begin and end in any order, on a clock that only moves forward, with the refusals they meet noted as the
  listener notes them. The run also keeps what was refused and what was reported.
\<close>

subsection \<open>The limiter\<close>

record upstream_caps =
  per_container :: nat
  per_client_per_container :: nat
  per_owner :: nat

datatype upstream_refusal = Container | Client_Per_Container | Owner

datatype refusal_key = Container_Key | Owner_Key

record refusal_log =
  warned_at :: nat
  suppressed :: nat

record container_limiter =
  containers :: "(string \<times> nat) list"
  client_containers :: "((client_bucket \<times> string) \<times> nat) list"
  owners :: "(string \<times> nat) list"
  refusals :: "((refusal_key \<times> string) \<times> refusal_log) list"

record container_permit =
  permit_client :: client_bucket
  permit_container :: string
  permit_owner :: string

definition REFUSAL_WARN_INTERVAL :: nat where
  "REFUSAL_WARN_INTERVAL = 60 * 1000"

definition new_container_limiter :: container_limiter where
  "new_container_limiter = \<lparr>containers = [], client_containers = [], owners = [], refusals = []\<rparr>"

definition acquire_container ::
  "upstream_caps \<Rightarrow> ip_addr \<Rightarrow> string \<Rightarrow> string \<Rightarrow> container_limiter \<Rightarrow> upstream_refusal + container_permit \<times> container_limiter" where
  "acquire_container caps ip container owner st =
     (let client = client_of ip
      in if count_at (client_containers st) (client, container) \<ge> per_client_per_container caps then Inl Client_Per_Container
         else if count_at (containers st) container \<ge> per_container caps then Inl Container
         else if count_at (owners st) owner \<ge> per_owner caps then Inl Owner
         else Inr (\<lparr>permit_client = client, permit_container = container, permit_owner = owner\<rparr>,
                   st\<lparr>client_containers := bump_count (client, container) (client_containers st),
                      containers := bump_count container (containers st), owners := bump_count owner (owners st)\<rparr>))"

definition drop_container_permit :: "container_permit \<Rightarrow> container_limiter \<Rightarrow> container_limiter" where
  "drop_container_permit permit st =
     st\<lparr>containers := decrement (permit_container permit) (containers st),
        client_containers := decrement (permit_client permit, permit_container permit) (client_containers st),
        owners := decrement (permit_owner permit) (owners st)\<rparr>"

fun refusal_key_of :: "upstream_refusal \<Rightarrow> refusal_key option" where
  "refusal_key_of Container = Some Container_Key"
| "refusal_key_of Owner = Some Owner_Key"
| "refusal_key_of Client_Per_Container = None"

definition note_refusal :: "upstream_refusal \<Rightarrow> string \<Rightarrow> nat \<Rightarrow> container_limiter \<Rightarrow> nat option \<times> container_limiter" where
  "note_refusal refusal subject now st =
     (case refusal_key_of refusal of
        None \<Rightarrow> (None, st)
      | Some kind \<Rightarrow>
          (let key = (kind, subject)
           in case map_of (refusals st) key of
                Some entry \<Rightarrow>
                  if now - warned_at entry < REFUSAL_WARN_INTERVAL
                  then (None, st\<lparr>refusals := AList.update key (entry\<lparr>suppressed := suppressed entry + 1\<rparr>) (refusals st)\<rparr>)
                  else (Some (suppressed entry + 1), st\<lparr>refusals := AList.update key \<lparr>warned_at = now, suppressed = 0\<rparr> (refusals st)\<rparr>)
              | None \<Rightarrow>
                  (Some 1, st\<lparr>refusals := AList.update key \<lparr>warned_at = now, suppressed = 0\<rparr>
                     (filter (\<lambda>e. now - warned_at (snd e) < REFUSAL_WARN_INTERVAL) (refusals st))\<rparr>)))"

text \<open>What the listener notes of a refusal: the container or the owner it is about.\<close>

definition refusal_subject :: "upstream_refusal \<Rightarrow> string \<Rightarrow> string \<Rightarrow> string" where
  "refusal_subject refusal container owner = (case refusal of Owner \<Rightarrow> owner | _ \<Rightarrow> container)"


subsection \<open>Runs\<close>

datatype container_op = Begin ip_addr string string nat | End nat

record container_run =
  slots_taken :: container_limiter
  exchanges :: "container_permit list"
  run_clock :: nat
  refused :: "(refusal_key \<times> string) list"
  warnings :: "((refusal_key \<times> string) \<times> nat \<times> nat) list"

definition note_in_run :: "upstream_refusal \<Rightarrow> string \<Rightarrow> string \<Rightarrow> container_run \<Rightarrow> container_run" where
  "note_in_run refusal container owner run =
     (let subject = refusal_subject refusal container owner; (report, st) = note_refusal refusal subject (run_clock run) (slots_taken run)
      in case refusal_key_of refusal of
           None \<Rightarrow> run\<lparr>slots_taken := st\<rparr>
         | Some kind \<Rightarrow>
             run\<lparr>slots_taken := st, refused := (kind, subject) # refused run,
                 warnings := (case report of None \<Rightarrow> [] | Some n \<Rightarrow> [((kind, subject), run_clock run, n)]) @ warnings run\<rparr>)"

fun container_step :: "upstream_caps \<Rightarrow> container_run \<Rightarrow> container_op \<Rightarrow> container_run" where
  "container_step caps run (Begin ip container owner wait) =
     (let run = run\<lparr>run_clock := run_clock run + wait\<rparr>
      in case acquire_container caps ip container owner (slots_taken run) of
           Inl refusal \<Rightarrow> note_in_run refusal container owner run
         | Inr (permit, st) \<Rightarrow> run\<lparr>slots_taken := st, exchanges := exchanges run @ [permit]\<rparr>)"
| "container_step caps run (End n) =
     (if n < length (exchanges run)
      then run\<lparr>slots_taken := drop_container_permit (exchanges run ! n) (slots_taken run), exchanges := remove_nth n (exchanges run)\<rparr>
      else run)"

definition container_start :: "nat \<Rightarrow> container_run" where
  "container_start now = \<lparr>slots_taken = new_container_limiter, exchanges = [], run_clock = now, refused = [], warnings = []\<rparr>"

definition container_trace :: "upstream_caps \<Rightarrow> nat \<Rightarrow> container_op list \<Rightarrow> container_run" where
  "container_trace caps now ops = foldl (container_step caps) (container_start now) ops"


subsection \<open>Slots\<close>

definition slots_exact :: "container_limiter \<Rightarrow> container_permit list \<Rightarrow> bool" where
  "slots_exact st ps \<longleftrightarrow> tallies (containers st) (\<lambda>p. Some (permit_container p)) ps
     \<and> tallies (client_containers st) (\<lambda>p. Some (permit_client p, permit_container p)) ps
     \<and> tallies (owners st) (\<lambda>p. Some (permit_owner p)) ps"

definition within_caps :: "upstream_caps \<Rightarrow> container_permit list \<Rightarrow> bool" where
  "within_caps caps ps \<longleftrightarrow> (\<forall>c. holders permit_container ps c \<le> per_container caps)
     \<and> (\<forall>b c. holders (\<lambda>p. (permit_client p, permit_container p)) ps (b, c) \<le> per_client_per_container caps)
     \<and> (\<forall>w. holders permit_owner ps w \<le> per_owner caps)"

definition container_inv :: "upstream_caps \<Rightarrow> container_run \<Rightarrow> bool" where
  "container_inv caps run \<longleftrightarrow> slots_exact (slots_taken run) (exchanges run) \<and> within_caps caps (exchanges run)"

lemma slots_read:
  assumes "slots_exact st ps"
  shows "count_at (containers st) c = holders permit_container ps c" "count_at (owners st) w = holders permit_owner ps w"
    "count_at (client_containers st) (b, c) = holders (\<lambda>p. (permit_client p, permit_container p)) ps (b, c)"
proof -
  have "tallies (containers st) (\<lambda>p. Some (permit_container p)) ps" "tallies (owners st) (\<lambda>p. Some (permit_owner p)) ps"
    "tallies (client_containers st) (\<lambda>p. Some (permit_client p, permit_container p)) ps" using assms by (simp_all add: slots_exact_def)
  from tallies_read [OF this(1), of c] tallies_read [OF this(2), of w] tallies_read [OF this(3), of "(b, c)"]
  show "count_at (containers st) c = holders permit_container ps c" "count_at (owners st) w = holders permit_owner ps w"
    "count_at (client_containers st) (b, c) = holders (\<lambda>p. (permit_client p, permit_container p)) ps (b, c)"
    by (simp_all add: holders_def)
qed

lemma acquire_container_inv:
  assumes "slots_exact st ps" "within_caps caps ps" "acquire_container caps ip c w st = Inr (p, st')"
  shows "slots_exact st' (ps @ [p])" "within_caps caps (ps @ [p])"
proof -
  let ?b = "client_of ip"
  have a: "count_at (client_containers st) (?b, c) < per_client_per_container caps" "count_at (containers st) c < per_container caps"
    "count_at (owners st) w < per_owner caps" "p = \<lparr>permit_client = ?b, permit_container = c, permit_owner = w\<rparr>"
    "st' = st\<lparr>client_containers := bump_count (?b, c) (client_containers st), containers := bump_count c (containers st), owners := bump_count w (owners st)\<rparr>"
    using assms(3) by (auto simp: acquire_container_def Let_def not_le split: if_splits)
  have "tallies (bump_count c (containers st)) (\<lambda>p. Some (permit_container p)) (ps @ [p])" "tallies (bump_count w (owners st)) (\<lambda>p. Some (permit_owner p)) (ps @ [p])"
    "tallies (bump_count (?b, c) (client_containers st)) (\<lambda>p. Some (permit_client p, permit_container p)) (ps @ [p])"
    using assms(1) tallies_join [of "containers st" "\<lambda>p. Some (permit_container p)" ps p] tallies_join [of "owners st" "\<lambda>p. Some (permit_owner p)" ps p]
      tallies_join [of "client_containers st" "\<lambda>p. Some (permit_client p, permit_container p)" ps p] by (simp_all add: slots_exact_def a(4))
  then show "slots_exact st' (ps @ [p])" by (simp add: slots_exact_def a(5))
  show "within_caps caps (ps @ [p])" using assms(2) a(1-3) by (auto simp: within_caps_def a(4) slots_read [OF assms(1)])
qed

lemma drop_container_inv:
  assumes "slots_exact st ps" "within_caps caps ps" "n < length ps"
  shows "slots_exact (drop_container_permit (ps ! n) st) (remove_nth n ps)" "within_caps caps (remove_nth n ps)"
proof -
  show "slots_exact (drop_container_permit (ps ! n) st) (remove_nth n ps)"
    using assms(1) tallies_leave [OF _ assms(3), of "containers st" "\<lambda>p. Some (permit_container p)"]
      tallies_leave [OF _ assms(3), of "owners st" "\<lambda>p. Some (permit_owner p)"]
      tallies_leave [OF _ assms(3), of "client_containers st" "\<lambda>p. Some (permit_client p, permit_container p)"]
    by (simp add: slots_exact_def drop_container_permit_def)
  have "holders f (remove_nth n ps) k \<le> holders f ps k" for f k using holders_nth [OF assms(3)] by (metis le_add1)
  then show "within_caps caps (remove_nth n ps)" using assms(2) unfolding within_caps_def by (meson order_trans)
qed

lemma note_refusal_keeps:
  "containers (snd (note_refusal r s now st)) = containers st" "client_containers (snd (note_refusal r s now st)) = client_containers st"
  "owners (snd (note_refusal r s now st)) = owners st"
  by (simp_all add: note_refusal_def Let_def split: option.splits)

lemma note_in_run_keeps:
  "exchanges (note_in_run r c w run) = exchanges run" "run_clock (note_in_run r c w run) = run_clock run"
  "slots_exact (slots_taken (note_in_run r c w run)) ps \<longleftrightarrow> slots_exact (slots_taken run) ps"
proof -
  obtain report st where n: "note_refusal r (refusal_subject r c w) (run_clock run) (slots_taken run) = (report, st)"
    by (cases "note_refusal r (refusal_subject r c w) (run_clock run) (slots_taken run)")
  have "slots_exact st ps \<longleftrightarrow> slots_exact (slots_taken run) ps"
    using note_refusal_keeps [of r "refusal_subject r c w" "run_clock run" "slots_taken run"] n by (simp add: slots_exact_def)
  then show "exchanges (note_in_run r c w run) = exchanges run" "run_clock (note_in_run r c w run) = run_clock run"
    "slots_exact (slots_taken (note_in_run r c w run)) ps \<longleftrightarrow> slots_exact (slots_taken run) ps"
    using n by (simp_all add: note_in_run_def Let_def split: option.splits)
qed

lemma container_step_inv: "container_inv caps run \<Longrightarrow> container_inv caps (container_step caps run x)"
proof (cases x)
  case (Begin ip c w wait)
  assume i: "container_inv caps run"
  then show ?thesis using acquire_container_inv [of "slots_taken run" "exchanges run" caps ip c w]
    by (auto simp: Begin container_inv_def Let_def note_in_run_keeps split: sum.splits)
next
  case (End n)
  assume "container_inv caps run"
  then show ?thesis using drop_container_inv [of "slots_taken run" "exchanges run" caps n] by (simp add: End container_inv_def)
qed

interpretation container_runs: preserved "container_step caps" "container_inv caps" for caps
  by unfold_locales (rule container_step_inv)

lemma container_trace_inv: "container_inv caps (container_trace caps now ops)"
  unfolding container_trace_def
  by (rule container_runs.run_inv)
    (simp add: container_inv_def container_start_def new_container_limiter_def slots_exact_def within_caps_def)

text \<open>
  C32. However exchanges begin and end, those open at the same time never exceed the caps of a container, of a client at a
  container and of an owner, and each of the three maps of the limiter holds exactly the numbers of the open ones, with no entry
  where there are none, so no slot is lost when an exchange ends.
\<close>

theorem container_slots_within_caps:
  "(let st = slots_taken (container_trace caps now ops); ps = exchanges (container_trace caps now ops);
        at_container = holders permit_container ps c; of_client = holders (\<lambda>p. (permit_client p, permit_container p)) ps (b, c);
        of_owner = holders permit_owner ps w
    in at_container \<le> per_container caps \<and> of_client \<le> per_client_per_container caps \<and> of_owner \<le> per_owner caps
       \<and> map_of (containers st) c = (if at_container = 0 then None else Some at_container)
       \<and> map_of (client_containers st) (b, c) = (if of_client = 0 then None else Some of_client)
       \<and> map_of (owners st) w = (if of_owner = 0 then None else Some of_owner))"
proof -
  define run where "run = container_trace caps now ops"
  have "slots_exact (slots_taken run) (exchanges run)" "within_caps caps (exchanges run)"
    using container_trace_inv [of caps now ops] by (simp_all add: container_inv_def run_def)
  then show ?thesis unfolding run_def [symmetric] by (simp add: slots_exact_def within_caps_def tallies_def holders_Some Let_def)
qed


subsection \<open>The log of refusals\<close>

definition reported :: "refusal_key \<times> string \<Rightarrow> ((refusal_key \<times> string) \<times> nat \<times> nat) list \<Rightarrow> nat" where
  "reported k ws = sum_list (map (\<lambda>w. if fst w = k then snd (snd w) else 0) ws)"

fun spaced :: "((refusal_key \<times> string) \<times> nat \<times> nat) list \<Rightarrow> bool" where
  "spaced [] = True"
| "spaced ((k, t, n) # ws) = ((\<forall>t' n'. (k, t', n') \<in> set ws \<longrightarrow> t' + REFUSAL_WARN_INTERVAL \<le> t) \<and> spaced ws)"

definition log_entry_ok :: "container_run \<Rightarrow> refusal_key \<times> string \<Rightarrow> bool" where
  "log_entry_ok run k \<longleftrightarrow>
     (case map_of (refusals (slots_taken run)) k of
        None \<Rightarrow> reported k (warnings run) \<le> count_list (refused run) k
          \<and> (\<forall>t n. (k, t, n) \<in> set (warnings run) \<longrightarrow> t + REFUSAL_WARN_INTERVAL \<le> run_clock run)
      | Some e \<Rightarrow> reported k (warnings run) + suppressed e \<le> count_list (refused run) k
          \<and> warned_at e \<le> run_clock run \<and> (\<forall>t n. (k, t, n) \<in> set (warnings run) \<longrightarrow> t \<le> warned_at e))"

definition log_inv :: "container_run \<Rightarrow> bool" where
  "log_inv run \<longleftrightarrow> spaced (warnings run) \<and> distinct (map fst (refusals (slots_taken run))) \<and> (\<forall>k. log_entry_ok run k)"

lemma log_inv_cong:
  assumes "refusals (slots_taken run') = refusals (slots_taken run)" "warnings run' = warnings run" "refused run' = refused run"
    "run_clock run' = run_clock run"
  shows "log_inv run' \<longleftrightarrow> log_inv run"
proof -
  have "log_entry_ok run' k \<longleftrightarrow> log_entry_ok run k" for k unfolding log_entry_ok_def assms by (rule refl)
  then show ?thesis using assms unfolding log_inv_def by simp
qed

lemma log_inv_entry: "log_inv run \<Longrightarrow> log_entry_ok run k"
  unfolding log_inv_def by blast

lemma map_of_filter_val:
  "distinct (map fst m) \<Longrightarrow> map_of (filter (\<lambda>e. Q (snd e)) m) k = (case map_of m k of None \<Rightarrow> None | Some v \<Rightarrow> if Q v then Some v else None)"
proof (induction m)
  case (Cons x m)
  have "map_of m (fst x) = None" using Cons.prems by (simp add: map_of_eq_None_iff)
  then show ?case using Cons by (cases "fst x = k") (auto split: option.splits)
qed simp

lemma log_entry_ok_later: "log_entry_ok run k \<Longrightarrow> log_entry_ok (run\<lparr>run_clock := run_clock run + wait\<rparr>) k"
  by (auto simp: log_entry_ok_def split: option.splits)

lemma reported_simps [simp]: "reported k [] = 0" "reported k (w # ws) = (if fst w = k then snd (snd w) else 0) + reported k ws"
  by (simp_all add: reported_def)

lemma note_in_run_log:
  assumes "log_inv run"
  shows "log_inv (note_in_run r c w run)"
proof (cases "refusal_key_of r")
  case None
  then show ?thesis using assms by (simp add: note_in_run_def note_refusal_def Let_def)
next
  case (Some kind)
  define key where "key = (kind, refusal_subject r c w)"
  define now where "now = run_clock run"
  let ?st = "slots_taken run"
  have i: "spaced (warnings run)" "distinct (map fst (refusals ?st))" using assms by (simp_all add: log_inv_def)
  note i = i log_inv_entry [OF assms]
  note e = i(3) [of key, unfolded log_entry_ok_def]
  show ?thesis
  proof (cases "map_of (refusals ?st) key")
    case None
    let ?kept = "filter (\<lambda>e. now - warned_at (snd e) < REFUSAL_WARN_INTERVAL) (refusals ?st)"
    have run': "note_in_run r c w run = run\<lparr>slots_taken := ?st\<lparr>refusals := AList.update key \<lparr>warned_at = now, suppressed = 0\<rparr> ?kept\<rparr>,
        refused := key # refused run, warnings := (key, now, 1) # warnings run\<rparr>"
      using Some None by (simp add: note_in_run_def note_refusal_def Let_def key_def now_def)
    have "distinct (map fst ?kept)" using i(2) by (simp add: distinct_map_filter)
    moreover have "log_entry_ok (note_in_run r c w run) k" for k
    proof (cases "k = key")
      case True
      then show ?thesis using e None unfolding run' by (auto simp: log_entry_ok_def update_conv' now_def)
    next
      case False
      have "map_of ?kept k = (case map_of (refusals ?st) k of None \<Rightarrow> None
          | Some e \<Rightarrow> if now - warned_at e < REFUSAL_WARN_INTERVAL then Some e else None)"
        by (rule map_of_filter_val [OF i(2)])
      then show ?thesis using i(3) [of k] False unfolding run'
        by (auto simp: log_entry_ok_def update_conv' now_def split: option.splits if_splits)
    qed
    ultimately show ?thesis using i(1) e None unfolding log_inv_def
      by (auto simp: run' now_def distinct_update)
  next
    case entry: (Some x)
    show ?thesis
    proof (cases "now - warned_at x < REFUSAL_WARN_INTERVAL")
      case True
      have run': "note_in_run r c w run = run\<lparr>slots_taken := ?st\<lparr>refusals := AList.update key (x\<lparr>suppressed := suppressed x + 1\<rparr>) (refusals ?st)\<rparr>,
          refused := key # refused run\<rparr>"
        using Some entry True by (simp add: note_in_run_def note_refusal_def Let_def key_def now_def)
      have "log_entry_ok (note_in_run r c w run) k" for k
        using i(3) [of k] e entry unfolding run' by (auto simp: log_entry_ok_def update_conv' split: option.splits)
      then show ?thesis using i(1,2) unfolding log_inv_def by (simp add: run' distinct_update)
    next
      case False
      have run': "note_in_run r c w run = run\<lparr>slots_taken := ?st\<lparr>refusals := AList.update key \<lparr>warned_at = now, suppressed = 0\<rparr> (refusals ?st)\<rparr>,
          refused := key # refused run, warnings := (key, now, suppressed x + 1) # warnings run\<rparr>"
        using Some entry False by (simp add: note_in_run_def note_refusal_def Let_def key_def now_def)
      have "log_entry_ok (note_in_run r c w run) k" for k
        using i(3) [of k] e entry unfolding run' by (auto simp: log_entry_ok_def update_conv' now_def split: option.splits)
      moreover have "\<forall>t' n'. (key, t', n') \<in> set (warnings run) \<longrightarrow> t' + REFUSAL_WARN_INTERVAL \<le> now"
        using e entry False by (fastforce simp: now_def)
      ultimately show ?thesis using i(1,2) unfolding log_inv_def by (simp add: run' distinct_update)
    qed
  qed
qed

lemma log_step_inv: "log_inv run \<Longrightarrow> log_inv (container_step caps run x)"
proof (cases x)
  case (Begin ip c w wait)
  assume i: "log_inv run"
  let ?run = "run\<lparr>run_clock := run_clock run + wait\<rparr>"
  have l: "log_inv ?run" using i log_entry_ok_later unfolding log_inv_def by simp
  show ?thesis
  proof (cases "acquire_container caps ip c w (slots_taken run)")
    case (Inl r)
    then show ?thesis using note_in_run_log [OF l] by (simp add: Begin Let_def)
  next
    case (Inr y)
    obtain p st where y: "y = (p, st)" by (cases y)
    have "refusals st = refusals (slots_taken run)" using Inr y by (auto simp: acquire_container_def Let_def split: if_splits)
    then show ?thesis using l Inr y log_inv_cong [of "?run\<lparr>slots_taken := st, exchanges := exchanges run @ [p]\<rparr>" ?run] by (simp add: Begin Let_def)
  qed
next
  case (End n)
  assume "log_inv run"
  then show ?thesis
    using log_inv_cong [of "run\<lparr>slots_taken := drop_container_permit (exchanges run ! n) (slots_taken run), exchanges := remove_nth n (exchanges run)\<rparr>" run]
    by (simp add: End drop_container_permit_def)
qed

interpretation refusal_runs: preserved "container_step caps" log_inv for caps
  by unfold_locales (rule log_step_inv)

text \<open>
  Refusals do not flood the log: two warnings about the same container or owner are at least the interval apart, and the
  numbers reported for it never add up to more than its refusals.
\<close>

theorem refusal_warnings_limited:
  "spaced (warnings (container_trace caps now ops))
   \<and> reported k (warnings (container_trace caps now ops)) \<le> count_list (refused (container_trace caps now ops)) k"
proof -
  have "log_inv (container_trace caps now ops)" unfolding container_trace_def
    by (rule refusal_runs.run_inv) (auto simp: log_inv_def log_entry_ok_def container_start_def new_container_limiter_def)
  then have "spaced (warnings (container_trace caps now ops))" "log_entry_ok (container_trace caps now ops) k"
    unfolding log_inv_def by blast+
  then show ?thesis by (auto simp: log_entry_ok_def split: option.splits)
qed

text \<open>
  A warning does not stand for every refusal since the last one: an entry whose interval is over is dropped when another container
  or owner is warned about, with the refusals it had suppressed.
\<close>

lemma suppressed_refusals_dropped:
  "fst (note_refusal Container ''c'' (2 * REFUSAL_WARN_INTERVAL) (snd (note_refusal Container ''d'' REFUSAL_WARN_INTERVAL
     (snd (note_refusal Container ''c'' 1 (snd (note_refusal Container ''c'' 0 new_container_limiter))))))) = Some 1"
  by (simp add: note_refusal_def new_container_limiter_def REFUSAL_WARN_INTERVAL_def Let_def)

end
