(* ===== verification/Spec2Isabelle.thy ===== *)
theory Spec2Isabelle
  imports Agent Desired_Document Ip_Pools Reconcile_Leases Orphan_Quarantine Password_Gate Login_Limiter Http_Forward Http_Routes Container_Limits
begin

text \<open>
  Nyabase runs system containers for users on a set of servers. A central Backend (\<open>packages/backend\<close>) keeps the
  wanted state in PostgreSQL and reconciles it; on every server an agent (\<open>packages/agent\<close>) is the only way to the
  local Incus. The agent does not trust the Backend: each request passes a policy, guest network interfaces only
  come up behind an egress firewall and an IPv6 guard in nft, and operations and WebSockets are relayed only for
  operations the agent has started itself. \<open>packages/common\<close> holds what both sides share. An HTTP proxy (\<open>tools/http-proxy\<close>,
  with \<open>tools/proxy-common\<close>) brings requests for a domain to the container it is bound to, by snapshots of routes from the
  Backend.

  \<^bold>\<open>Theories.\<close>

  \<^item> \<open>Prelude\<close>: results and their sequencing (\<open>bind_res\<close>, the collection \<open>res_simps\<close>), texts, association lists, and the
    locale \<open>preserved\<close>, which lifts an invariant from one operation to all sequences of operations. \<open>Js_Value\<close>: JSON
    values and the standard library functions on paths and queries.
  \<^item> \<open>Ipv4\<close>: addresses and CIDR blocks of \<open>common/src/utils.ts\<close>. Text round trip; overlap, containment and
    canonical form agree with the sets of addresses.
  \<^item> \<open>Operation_Ledger\<close>: \<open>agent/src/operation-ledger.ts\<close>. The ledger knows only operations recorded within the time to
    live, keeps them while there is room, and is bounded.
  \<^item> \<open>Policy_Body\<close>, \<open>Incus_Policy\<close>: \<open>agent/src/policy-body.ts\<close> and \<open>agent/src/policy.ts\<close>, every check of a request.
    \<open>Incus_Policy_Safety\<close>: a specification of confined instances, devices and volumes, and the proof that every
    document the policy lets through meets it, what the parser keeps out of a path and that an encoded slash gets past it,
    that writes stay on the enumerated resources, and that a request not flagged for the guard raises no interface.
  \<^item> \<open>Firewall_Protocol\<close>: \<open>common/src/protocol/firewall.ts\<close>, canonical ports and address intervals. \<open>Guest_Firewall\<close>:
    \<open>agent/src/firewall-render.ts\<close> and \<open>agent/src/firewall.ts\<close>; an interface comes up only with the current document
    in force, a passive check respects a foreign owner, an applied document takes effect. \<open>Ipv6_Guard\<close>:
    \<open>agent/src/ipv6-guard.ts\<close>.
  \<^item> \<open>Agent\<close>: the handlers of \<open>agent/src/agent.ts\<close> and \<open>agent/src/cephfs-usage.ts\<close> over the policy, the guards and the
    ledger. The locale \<open>operation_lookup\<close> is what the policy asks of the ledger; it is interpreted on the ledger's runs.
    After any history of calls, a write that reaches Incus has an enumerated target, an operation was started by this
    agent, and a request that raises an interface passed the guards; a failed read of the current document ends as the
    code of the failure says.
  \<^item> \<open>Cpu_Sets\<close>: \<open>backend/src/cpu\<close> and \<open>formatCpuSet\<close>. The allocation of whole CPUs ends, answers a valid set, is fair
    and stable, and its text is one the agent accepts.
  \<^item> \<open>Ip_Pools\<close>: \<open>backend/src/ip-pools\<close> and the address claims of containers. Pools never overlap, live claims are
    exclusive, the search for an address is sound and gives up only in a full block.
  \<^item> \<open>Instance_Spec\<close>, \<open>Desired_Document\<close>: \<open>backend/src/incus/instance-spec.ts\<close>, the GPU part and the body of an update.
    Every document the Backend builds is accepted by the policy of the agent, for creation and for update; an update
    converges; the comparison of documents is exact up to the normal form of values, and one pair of values it
    cannot tell apart is stated as a theorem.
  \<^item> \<open>Reconcile_Leases\<close>: \<open>backend/src/reconcile/reconcile-claim.repository.ts\<close> over its table. Keys are unique, a server has
    at most eight live claims, the destruction of a volume excludes work on its placements. The locale \<open>leased\<close> states
    that a lease is its worker's for its term and is interpreted on the table.
  \<^item> \<open>Orphan_Quarantine\<close>: \<open>backend/src/reconcile/orphan-sightings.store.ts\<close>. The table refines a reference on the history
    of scans: an orphan is due exactly when its unbroken streak of sightings is seven days old.
  \<^item> \<open>Password_Gate\<close>: \<open>PasswordVerificationGate\<close> of \<open>backend/src/iam/login-throttling.ts\<close> as a step relation, with its
    bounds by rule induction. \<open>Login_Limiter\<close>: \<open>LoginAttemptLimiter\<close> of the same file, with entries as objects in a store,
    since a release compares identities; the attempts granted on a key and not given back stay within its limit.
  \<^item> \<open>Http_Syntax\<close>, \<open>Ip_Addr\<close>: the functions of Rust's library and the tokens and limits that the request path of the HTTP proxy
    uses. \<open>Http_Chunked\<close>: \<open>http-proxy/src/chunked.rs\<close>; a chunked body is accepted exactly when it is one of a grammar given as
    an inductive predicate, in any segmentation, and what is forwarded decodes to the same chunks in only one way.
    \<open>Http_Request\<close>: \<open>http-proxy/src/request.rs\<close>; the head sent upstream has one framing, the routed host, and only the proxy's
    own forwarding fields. \<open>Http_Forward\<close>: \<open>http-proxy/src/upstream.rs\<close>; the upstream sees at most one request of an exchange,
    complete exactly when the body was accepted, and a tunnel opens only after the handshake.
  \<^item> \<open>Http_Routes\<close>: \<open>http-proxy/src/snapshot.rs\<close>, the store of routes with its leases. An authorization is honoured exactly while
    its route is served without a gap, and no route outlives the longest lease.
  \<^item> \<open>Counters\<close>: counts in hash maps. \<open>Connection_Limits\<close>: \<open>proxy-common/src/conn_limit.rs\<close>; the limits hold and no count drifts in
    any run, and slots of connections not yet established are shared fairly. \<open>Container_Limits\<close>:
    \<open>http-proxy/src/container_limit.rs\<close>; the caps of containers and owners hold, and refusals do not flood the log.

  \<^bold>\<open>Reading the model.\<close> A class is a record and each of its methods a function from the state to the answer and the new
  state; a thrown error is \<open>Inl\<close>. A table is a list of rows, a transaction one step. Clocks are arguments: a time or a
  delay per call. What other programs answer (Incus, nft, PostgreSQL's clock, \<open>JSON.parse\<close>, \<open>new URL\<close>, SHA-256) is an
  argument too, so the theorems hold for all their answers; where a theorem needs more, its hypotheses say so.
  Histories that the code does not keep (recorded ids, calls of nft, running jobs) are kept beside the state.

  \<^bold>\<open>Bounds and fuel.\<close> The two loops of the CPU allocation carry fuel; each round changes the size of the set by one, so
  the size of the current set and the number of cores are enough, which is part of what is proved. The address search
  tries at most 65536 candidates, as the code does. The loops over a chunked body end because each round takes bytes from
  what the client still has to send. All other recursion is structural.

  \<^bold>\<open>Not modelled.\<close> Timers, retries and the interleaving of asynchronous calls, but for the connection resets of the
  firewall, the gate and the interleaving of transactions; the transport between Backend and agent; the reconcile
  worker, the intents and the sequences of Incus calls of the reconcilers; accounts, sessions and the SQL views of
  access; images, volumes, servers, domains and metrics, which are SQL and calls of services; the buckets of client
  addresses of the login limiter; of the HTTP proxy its sockets, TLS, deadlines, control connection and byte relays, whose
  outcomes are arguments, so also the bytes of an upgraded tunnel, and its accept loops and traffic counters; the SSH proxy and the web frontend, which are network and user interface; generated API types.
\<close>

end
